(* ===== verification/Prelude.thy ===== *)
theory Prelude
  imports Main "HOL-Library.Word" "HOL-Library.AList"
begin

text \<open>
  Shared vocabulary of the development: the machine types of the source, byte
  strings, the integer primitives of the Rust standard library that the code
  calls (checked, saturating and decimal-printing operations), and the generic
  list and word lemmas the component theories rely on.
\<close>

section \<open>Machine types\<close>

type_synonym u8 = "8 word"
type_synonym u16 = "16 word"
type_synonym u32 = "32 word"
type_synonym u64 = "64 word"
type_synonym bytes = "u8 list"

text \<open>
  A byte-string literal \<^verbatim>\<open>b"..."\<close> of the source: every literal the code uses is
  ASCII, so each character is one byte.
\<close>

definition bs :: "string \<Rightarrow> bytes" where
  "bs s = map of_char s"

abbreviation CR :: u8 where "CR \<equiv> 13"
abbreviation LF :: u8 where "LF \<equiv> 10"
abbreviation CRLF :: bytes where "CRLF \<equiv> [CR, LF]"

named_theorems byte_simps
  "evaluation of byte-string literals and byte predicates"

lemma bs_Nil [byte_simps]: "bs [] = []"
  by (simp add: bs_def)

lemma bs_Cons [byte_simps]: "bs (c # cs) = of_char c # bs cs"
  by (simp add: bs_def)

lemma length_bs [simp]: "length (bs s) = length s"
  by (simp add: bs_def)

section \<open>Rust integer primitives\<close>

text \<open>\<^verbatim>\<open>u8::is_ascii_digit\<close> and \<^verbatim>\<open>byte - b'0'\<close> read as a number.\<close>

definition is_ascii_digit :: "u8 \<Rightarrow> bool" where
  "is_ascii_digit b \<longleftrightarrow> 48 \<le> b \<and> b \<le> 57"

definition digit_val :: "u8 \<Rightarrow> nat" where
  "digit_val b = unat (b - 48)"

text \<open>\<^verbatim>\<open>u64::checked_add\<close>, \<^verbatim>\<open>checked_mul\<close>, \<^verbatim>\<open>saturating_*\<close>.\<close>

definition u64_checked_add :: "u64 \<Rightarrow> u64 \<Rightarrow> u64 option" where
  "u64_checked_add a b = (if unat a + unat b < 2 ^ 64 then Some (a + b) else None)"

definition u64_checked_mul :: "u64 \<Rightarrow> u64 \<Rightarrow> u64 option" where
  "u64_checked_mul a b = (if unat a * unat b < 2 ^ 64 then Some (a * b) else None)"

definition u64_saturating_add :: "u64 \<Rightarrow> u64 \<Rightarrow> u64" where
  "u64_saturating_add a b = (if unat a + unat b < 2 ^ 64 then a + b else - 1)"

definition u64_saturating_sub :: "u64 \<Rightarrow> u64 \<Rightarrow> u64" where
  "u64_saturating_sub a b = (if a < b then 0 else a - b)"

definition u64_saturating_mul :: "u64 \<Rightarrow> u64 \<Rightarrow> u64" where
  "u64_saturating_mul a b = (if unat a * unat b < 2 ^ 64 then a * b else - 1)"

text \<open>
  An \<^verbatim>\<open>i64\<close> is an \<open>int\<close> inside its range; the checked operations return
  \<open>None\<close> when the exact result leaves the range.
\<close>

definition in_i64 :: "int \<Rightarrow> bool" where
  "in_i64 i \<longleftrightarrow> - (2 ^ 63) \<le> i \<and> i < 2 ^ 63"

definition i64_checked_add :: "int \<Rightarrow> int \<Rightarrow> int option" where
  "i64_checked_add a b = (if in_i64 (a + b) then Some (a + b) else None)"

definition i64_checked_mul :: "int \<Rightarrow> int \<Rightarrow> int option" where
  "i64_checked_mul a b = (if in_i64 (a * b) then Some (a * b) else None)"

text \<open>\<^verbatim>\<open>x as i64\<close> for an unsigned 64-bit value: the same bits read as two's complement.\<close>

definition as_i64 :: "u64 \<Rightarrow> int" where
  "as_i64 w = sint w"

lemma u64_checked_add_Some:
  "u64_checked_add a b = Some c \<longleftrightarrow> unat a + unat b < 2 ^ 64 \<and> unat c = unat a + unat b"
proof (cases "unat a + unat b < 2 ^ 64")
  case True
  then have "unat (a + b) = unat a + unat b"
    by (simp add: unat_word_ariths)
  with True show ?thesis
    by (auto simp: u64_checked_add_def word_unat_eq_iff)
qed (simp add: u64_checked_add_def)

lemma u64_checked_mul_Some:
  "u64_checked_mul a b = Some c \<longleftrightarrow> unat a * unat b < 2 ^ 64 \<and> unat c = unat a * unat b"
proof (cases "unat a * unat b < 2 ^ 64")
  case True
  then have "unat (a * b) = unat a * unat b"
    by (simp add: unat_word_ariths)
  with True show ?thesis
    by (auto simp: u64_checked_mul_def word_unat_eq_iff)
qed (simp add: u64_checked_mul_def)

lemma unat_u64_max [simp]: "unat (- 1 :: u64) = 18446744073709551615"
proof -
  have "(- 1 :: u64) = 18446744073709551615" by simp
  then show ?thesis by (simp only: unat_bintrunc) simp
qed

lemma unat_of_nat_u64 [simp]: "n < 2 ^ 64 \<Longrightarrow> unat (of_nat n :: u64) = n"
  by (simp add: unat_of_nat)

lemma unat_u64_saturating_add:
  "unat (u64_saturating_add a b) = min (unat a + unat b) (2 ^ 64 - 1)"
proof (cases "unat a + unat b < 2 ^ 64")
  case True
  then show ?thesis
    by (simp add: u64_saturating_add_def unat_word_ariths)
qed (simp add: u64_saturating_add_def)

lemma unat_u64_saturating_mul:
  "unat (u64_saturating_mul a b) = min (unat a * unat b) (2 ^ 64 - 1)"
proof (cases "unat a * unat b < 2 ^ 64")
  case True
  then show ?thesis
    by (simp add: u64_saturating_mul_def unat_word_ariths)
qed (simp add: u64_saturating_mul_def)

lemma unat_u64_saturating_sub:
  "unat (u64_saturating_sub a b) = unat a - unat b"
  by (simp add: u64_saturating_sub_def word_less_nat_alt unat_sub_if')

section \<open>Decimal text\<close>

text \<open>
  \<open>dec n\<close> is the text \<^verbatim>\<open>n.to_string()\<close> (or \<^verbatim>\<open>format!("{}", n)\<close>) gives for an
  unsigned integer, most significant digit first; \<open>dec_int\<close> the one for a
  signed integer. \<open>undec\<close> reads a digit string back.
\<close>

fun dec :: "nat \<Rightarrow> bytes" where
  "dec n = (if n < 10 then [48 + of_nat n] else dec (n div 10) @ [48 + of_nat (n mod 10)])"

declare dec.simps [simp del]

definition dec_int :: "int \<Rightarrow> bytes" where
  "dec_int i = (if i < 0 then bs ''-'' @ dec (nat (- i)) else dec (nat i))"

definition undec :: "bytes \<Rightarrow> nat" where
  "undec ds = foldl (\<lambda>acc b. acc * 10 + digit_val b) 0 ds"

lemma unat_digit: "n < 10 \<Longrightarrow> unat (48 + of_nat n :: u8) = 48 + n"
  by (simp add: unat_word_ariths unat_of_nat)

lemma is_ascii_digit_digit [simp]: "n < 10 \<Longrightarrow> is_ascii_digit (48 + of_nat n)"
  by (simp add: is_ascii_digit_def word_le_nat_alt unat_digit)

lemma digit_val_digit [simp]: "n < 10 \<Longrightarrow> digit_val (48 + of_nat n) = n"
  by (simp add: digit_val_def unat_of_nat)

lemma digit_val_less_10: "is_ascii_digit b \<Longrightarrow> digit_val b < 10"
  by (auto simp: is_ascii_digit_def digit_val_def word_le_nat_alt unat_sub_if')

lemma digit_val_unat: "is_ascii_digit b \<Longrightarrow> digit_val b = unat b - 48"
  by (simp add: is_ascii_digit_def digit_val_def word_le_nat_alt unat_sub_if')

lemma not_is_ascii_digit_special [simp]:
  "\<not> is_ascii_digit 13" "\<not> is_ascii_digit 10" "\<not> is_ascii_digit 45"
  "\<not> is_ascii_digit 42" "\<not> is_ascii_digit 36"
  by (simp_all add: is_ascii_digit_def)

lemma undec_Nil [simp]: "undec [] = 0"
  by (simp add: undec_def)

lemma undec_snoc [simp]: "undec (ds @ [b]) = undec ds * 10 + digit_val b"
  by (simp add: undec_def)

lemma dec_digits: "b \<in> set (dec n) \<Longrightarrow> is_ascii_digit b"
proof (induction n rule: dec.induct)
  case (1 n)
  then show ?case
    by (subst (asm) (2) dec.simps) (auto split: if_splits)
qed

lemma dec_nonempty [simp]: "dec n \<noteq> []"
  by (subst dec.simps) simp

lemma undec_dec [simp]: "undec (dec n) = n"
proof (induction n rule: dec.induct)
  case (1 n)
  show ?case
  proof (cases "n < 10")
    case True
    then show ?thesis
      by (subst dec.simps) (simp add: undec_def)
  next
    case False
    with "1.IH" show ?thesis
      by (subst dec.simps) simp
  qed
qed

lemma length_dec: "0 < k \<Longrightarrow> n < 10 ^ k \<Longrightarrow> length (dec n) \<le> k"
proof (induction n arbitrary: k rule: dec.induct)
  case (1 n)
  show ?case
  proof (cases "n < 10")
    case True
    with "1.prems" show ?thesis
      by (subst dec.simps) simp
  next
    case False
    then obtain j where k: "k = Suc j" and j: "0 < j"
      using "1.prems" by (cases k; cases "k - 1") auto
    with "1.prems" have "n div 10 < 10 ^ j"
      by (simp add: less_mult_imp_div_less mult.commute)
    with "1.IH" [OF False j] False k show ?thesis
      by (subst dec.simps) simp
  qed
qed

lemma undec_take_le: "undec (take k ds) \<le> undec ds"
proof (induction ds rule: rev_induct)
  case (snoc b ds)
  then show ?case
    by (cases "k \<le> length ds") (auto intro: le_trans)
qed simp

end
