(* ===== verification/Protocol.thy ===== *)
theory Protocol
  imports Prelude
begin

text \<open>
  The RESP protocol module, \<^verbatim>\<open>src/src/protocol.rs\<close>: the incremental request parser
  \<^verbatim>\<open>RespParser\<close>, the reply writer \<^verbatim>\<open>RespWriter\<close>, the integer parsers and the
  case-insensitive comparisons used by the command dispatch.
\<close>

section \<open>Request parser\<close>

definition MAX_ARRAY_LEN :: nat where "MAX_ARRAY_LEN = 1000000"
definition MAX_STRING_LEN :: nat where "MAX_STRING_LEN = 512000000"
definition MAX_BUFFER_SIZE :: nat where "MAX_BUFFER_SIZE = 1073741824"

record resp_parser =
  buffer :: bytes

definition has_buffered_data :: "resp_parser \<Rightarrow> bool" where
  "has_buffered_data p \<longleftrightarrow> buffer p \<noteq> []"

text \<open>
  The result type \<^verbatim>\<open>Result<Option<_>, ()>\<close>: \<open>Inl ()\<close> is a protocol error,
  \<open>Inr None\<close> asks for more input, \<open>Inr (Some _)\<close> is a complete item.
  The two digit loops of \<^verbatim>\<open>try_parse\<close> differ only in the limit they enforce.
  The accumulator stays below ten times the limit, so \<^verbatim>\<open>usize\<close> never wraps.
\<close>

type_synonym 'a presult = "unit + 'a option"

function parse_len :: "nat \<Rightarrow> bytes \<Rightarrow> nat \<Rightarrow> nat \<Rightarrow> (nat \<times> nat) presult" where
  "parse_len limit buf cursor acc =
     (if cursor \<ge> length buf then Inr None
      else let byte = buf ! cursor in
        if byte = CR then Inr (Some (acc, cursor))
        else if \<not> is_ascii_digit byte then Inl ()
        else let acc' = acc * 10 + digit_val byte in
          if acc' > limit then Inl ()
          else parse_len limit buf (cursor + 1) acc')"
  by pat_completeness auto
termination
  by (relation "measure (\<lambda>(limit, buf, cursor, acc). length buf - cursor)") auto

declare parse_len.simps [simp del]

fun parse_bulks :: "nat \<Rightarrow> bytes \<Rightarrow> nat \<Rightarrow> bytes list \<Rightarrow> (bytes list \<times> nat) presult" where
  "parse_bulks 0 buf cursor result = Inr (Some (result, cursor))"
| "parse_bulks (Suc n) buf cursor result =
     (if cursor \<ge> length buf \<or> buf ! cursor \<noteq> 36 then Inr None
      else (case parse_len MAX_STRING_LEN buf (cursor + 1) 0 of
          Inl e \<Rightarrow> Inl e
        | Inr None \<Rightarrow> Inr None
        | Inr (Some (str_len, cursor)) \<Rightarrow>
            if cursor + 1 \<ge> length buf \<or> buf ! (cursor + 1) \<noteq> LF then Inr None
            else if cursor + 2 + str_len + 2 > length buf then Inr None
            else parse_bulks n buf (cursor + 2 + str_len + 2)
                   (result @ [take str_len (drop (cursor + 2) buf)])))"

definition parse_frame :: "bytes \<Rightarrow> (bytes list \<times> nat) presult" where
  "parse_frame buf =
     (if length buf < 4 then Inr None
      else if buf ! 0 \<noteq> 42 then Inl ()
      else (case parse_len MAX_ARRAY_LEN buf 1 0 of
          Inl e \<Rightarrow> Inl e
        | Inr None \<Rightarrow> Inr None
        | Inr (Some (array_len, cursor)) \<Rightarrow>
            if cursor + 1 \<ge> length buf \<or> buf ! (cursor + 1) \<noteq> LF then Inr None
            else parse_bulks array_len buf (cursor + 2) []))"

definition try_parse :: "resp_parser \<Rightarrow> bytes list presult \<times> resp_parser" where
  "try_parse p =
     (case parse_frame (buffer p) of
        Inl e \<Rightarrow> (Inl e, p)
      | Inr None \<Rightarrow> (Inr None, p)
      | Inr (Some (result, cursor)) \<Rightarrow>
          (Inr (Some result), p\<lparr>buffer := drop cursor (buffer p)\<rparr>))"

text \<open>
  \<^verbatim>\<open>parse_command\<close> alternates parsing and \<^verbatim>\<open>read_buf\<close> on the connection. The stream is
  not part of the sources: what its successive reads deliver is the argument
  \<open>reads\<close>, \<open>i\<close> counting the reads made. \<^verbatim>\<open>read_buf\<close> appends what it read to the
  buffer and reports the end of the stream as a successful read of no bytes.
\<close>

datatype read_result = ReadErr | ReadOk bytes

partial_function (option) parse_command ::
  "(nat \<Rightarrow> read_result) \<Rightarrow> nat \<Rightarrow> resp_parser \<Rightarrow> ((unit + bytes list) \<times> resp_parser \<times> nat) option" where
  "parse_command reads i p =
     (case try_parse p of
        (Inr (Some cmd), p') \<Rightarrow> Some (Inr cmd, p', i)
      | (Inr None, p') \<Rightarrow>
          (if length (buffer p') > MAX_BUFFER_SIZE then Some (Inl (), p', i)
           else (case reads i of
               ReadErr \<Rightarrow> Some (Inl (), p', i + 1)
             | ReadOk chunk \<Rightarrow>
                 (let p'' = p'\<lparr>buffer := buffer p' @ chunk\<rparr> in
                  if buffer p'' = [] then Some (Inl (), p'', i + 1)
                  else parse_command reads (i + 1) p'')))
      | (Inl e, p') \<Rightarrow> Some (Inl (), p', i))"

section \<open>Reply writer\<close>

record resp_writer =
  wbuf :: bytes

definition put :: "resp_writer \<Rightarrow> bytes \<Rightarrow> resp_writer" where
  "put w out = w\<lparr>wbuf := wbuf w @ out\<rparr>"

definition writer_clear :: "resp_writer \<Rightarrow> resp_writer" where
  "writer_clear w = w\<lparr>wbuf := []\<rparr>"

text \<open>
  The digit loop of \<^verbatim>\<open>write_u64\<close> fills a 20-byte scratch array from its end;
  \<open>None\<close> is the panic of decrementing the index below zero.
\<close>

function write_u64_loop :: "u64 \<Rightarrow> nat \<Rightarrow> bytes \<Rightarrow> (nat \<times> bytes) option" where
  "write_u64_loop n i buf =
     (if n > 0 then
        (if i = 0 then None
         else write_u64_loop (n div 10) (i - 1) (buf[i - 1 := 48 + ucast (n mod 10)]))
      else Some (i, buf))"
  by pat_completeness auto
termination
  by (relation "measure (\<lambda>(n, i, buf). unat n)")
    (auto simp: word_gt_0 unat_div unat_gt_0 intro!: div_less_dividend)

declare write_u64_loop.simps [simp del]

definition write_u64 :: "resp_writer \<Rightarrow> u64 \<Rightarrow> resp_writer" where
  "write_u64 w n =
     (if n = 0 then put w (bs ''0'')
      else (case write_u64_loop n 20 (replicate 20 0) of
          None \<Rightarrow> w \<comment> \<open>panic; unreachable by \<open>write_u64_loop_total\<close>\<close>
        | Some (i, buf) \<Rightarrow> put w (drop i buf)))"

definition write_simple_string :: "resp_writer \<Rightarrow> bytes \<Rightarrow> resp_writer" where
  "write_simple_string w s = put (put (put w (bs ''+'')) s) CRLF"

definition write_bulk_string :: "resp_writer \<Rightarrow> bytes \<Rightarrow> resp_writer" where
  "write_bulk_string w s =
     put (put (put (write_u64 (put w (bs ''$'')) (of_nat (length s))) CRLF) s) CRLF"

definition write_null :: "resp_writer \<Rightarrow> resp_writer" where
  "write_null w = put w (bs ''$-1'' @ CRLF)"

definition write_integer :: "resp_writer \<Rightarrow> u64 \<Rightarrow> resp_writer" where
  "write_integer w i = put (write_u64 (put w (bs '':'')) i) CRLF"

text \<open>
  \<^verbatim>\<open>(-i) as u64\<close>: the negation wraps on \<^verbatim>\<open>i64::MIN\<close> in a release build
  (\<^verbatim>\<open>overflow-checks = false\<close>), and the cast reads the same 64 bits.
\<close>

definition write_signed_integer :: "resp_writer \<Rightarrow> int \<Rightarrow> resp_writer" where
  "write_signed_integer w i =
     put (if i < 0 then write_u64 (put (put w (bs '':'')) (bs ''-'')) (of_int (- i))
          else write_u64 (put w (bs '':'')) (of_int i)) CRLF"

definition write_error :: "resp_writer \<Rightarrow> bytes \<Rightarrow> resp_writer" where
  "write_error w s = put (put (put w (bs ''-ERR '')) s) CRLF"

definition write_array_header :: "resp_writer \<Rightarrow> u64 \<Rightarrow> resp_writer" where
  "write_array_header w len = put (write_u64 (put w (bs ''*'')) len) CRLF"

definition write_array :: "resp_writer \<Rightarrow> bytes list \<Rightarrow> resp_writer" where
  "write_array w arr =
     foldl write_bulk_string
       (put (write_u64 (put w (bs ''*'')) (of_nat (length arr))) CRLF) arr"

definition should_flush :: "resp_writer \<Rightarrow> bool" where
  "should_flush w \<longleftrightarrow> length (wbuf w) \<ge> 8192"

text \<open>
  \<^verbatim>\<open>flush\<close> hands the whole buffer to the stream. \<open>ok\<close> is the outcome of the
  stream's \<^verbatim>\<open>write_all\<close>; the result carries the bytes handed over.
\<close>

definition writer_flush :: "bool \<Rightarrow> resp_writer \<Rightarrow> (unit + bytes) \<times> resp_writer" where
  "writer_flush ok w =
     (if wbuf w = [] then (Inr [], w)
      else if ok then (Inr (wbuf w), w\<lparr>wbuf := []\<rparr>)
      else (Inl (), w))"

section \<open>Parsing helpers\<close>

fun parse_u64_loop :: "u64 \<Rightarrow> bytes \<Rightarrow> u64 option" where
  "parse_u64_loop val [] = Some val"
| "parse_u64_loop val (b # rest) =
     (if \<not> is_ascii_digit b then None
      else (case u64_checked_mul val 10 of
          None \<Rightarrow> None
        | Some v \<Rightarrow> (case u64_checked_add v (of_nat (digit_val b)) of
            None \<Rightarrow> None
          | Some val' \<Rightarrow> parse_u64_loop val' rest)))"

definition parse_u64 :: "bytes \<Rightarrow> u64 option" where
  "parse_u64 bytes = (if bytes = [] then None else parse_u64_loop 0 bytes)"

fun parse_i64_loop :: "int \<Rightarrow> bytes \<Rightarrow> int option" where
  "parse_i64_loop val [] = Some val"
| "parse_i64_loop val (b # rest) =
     (if \<not> is_ascii_digit b then None
      else (case i64_checked_mul val 10 of
          None \<Rightarrow> None
        | Some v \<Rightarrow> (case i64_checked_add v (int (digit_val b)) of
            None \<Rightarrow> None
          | Some val' \<Rightarrow> parse_i64_loop val' rest)))"

definition parse_i64 :: "bytes \<Rightarrow> int option" where
  "parse_i64 bytes =
     (if bytes = [] then None
      else let (negative, start) = (if bytes ! 0 = 45 then (True, 1) else (False, 0)) in
        if start \<ge> length bytes then None
        else (case parse_i64_loop 0 (drop start bytes) of
            None \<Rightarrow> None
          | Some val \<Rightarrow> if negative then Some (- val) else Some val))"

unbundle bit_operations_syntax

definition eq_ignore_case_3 :: "bytes \<Rightarrow> bytes \<Rightarrow> bool" where
  "eq_ignore_case_3 a b \<longleftrightarrow>
     length a = 3 \<and> (a ! 0 OR 0x20) = b ! 0 \<and> (a ! 1 OR 0x20) = b ! 1
     \<and> (a ! 2 OR 0x20) = b ! 2"

definition eq_ignore_case_6 :: "bytes \<Rightarrow> bytes \<Rightarrow> bool" where
  "eq_ignore_case_6 a b \<longleftrightarrow>
     length a = 6
     \<and> (a ! 0 OR 0x20) = b ! 0
     \<and> (a ! 1 OR 0x20) = b ! 1
     \<and> (a ! 2 OR 0x20) = b ! 2
     \<and> (a ! 3 OR 0x20) = b ! 3
     \<and> (a ! 4 OR 0x20) = b ! 4
     \<and> (a ! 5 OR 0x20) = b ! 5"

section \<open>Reference notions\<close>

text \<open>
  The frame a client sends for a command: an array header and one bulk string
  per argument. \<open>within_limits\<close> are the parser's own limits.
\<close>

definition bulk :: "bytes \<Rightarrow> bytes" where
  "bulk s = bs ''$'' @ dec (length s) @ CRLF @ s @ CRLF"

definition frame :: "bytes list \<Rightarrow> bytes" where
  "frame cmd = bs ''*'' @ dec (length cmd) @ CRLF @ concat (map bulk cmd)"

definition within_limits :: "bytes list \<Rightarrow> bool" where
  "within_limits cmd \<longleftrightarrow>
     length cmd \<le> MAX_ARRAY_LEN \<and> (\<forall>s\<in>set cmd. length s \<le> MAX_STRING_LEN)"

text \<open>The bytes that \<open>k\<close> successful reads starting at read \<open>i\<close> deliver.\<close>

fun received :: "(nat \<Rightarrow> read_result) \<Rightarrow> nat \<Rightarrow> nat \<Rightarrow> bytes option" where
  "received reads i 0 = Some []"
| "received reads i (Suc k) =
     (case reads i of
        ReadErr \<Rightarrow> None
      | ReadOk chunk \<Rightarrow> map_option ((@) chunk) (received reads (i + 1) k))"

text \<open>\<open>ascii_lower\<close> is \<^verbatim>\<open>u8::to_ascii_lowercase\<close>, the reference the bit trick is compared with.\<close>

definition ascii_lower :: "u8 \<Rightarrow> u8" where
  "ascii_lower b = (if 65 \<le> b \<and> b \<le> 90 then b + 32 else b)"

definition lower_letter :: "u8 \<Rightarrow> bool" where
  "lower_letter b \<longleftrightarrow> 97 \<le> b \<and> b \<le> 122"

section \<open>Facts about the parser\<close>

lemma undec_acc_mono: "acc \<le> foldl (\<lambda>acc b. acc * 10 + digit_val b) acc ds"
proof (induction ds arbitrary: acc)
  case (Cons b ds)
  have "acc \<le> acc * 10 + digit_val b" by simp
  also have "\<dots> \<le> foldl (\<lambda>acc b. acc * 10 + digit_val b) (acc * 10 + digit_val b) ds"
    by (rule Cons.IH)
  finally show ?case by simp
qed simp

lemma parse_len_digits:
  assumes "\<forall>b\<in>set ds. is_ascii_digit b"
    and "foldl (\<lambda>acc b. acc * 10 + digit_val b) acc ds \<le> limit"
  shows "parse_len limit (pre @ ds @ CR # rest) (length pre) acc =
    Inr (Some (foldl (\<lambda>acc b. acc * 10 + digit_val b) acc ds, length pre + length ds))"
  using assms
proof (induction ds arbitrary: pre acc)
  case Nil
  then show ?case
    by (subst parse_len.simps) (simp add: nth_append)
next
  case (Cons d ds)
  let ?acc = "acc * 10 + digit_val d"
  have "d \<noteq> CR" using Cons.prems(1) by auto
  moreover have "?acc \<le> limit"
    using Cons.prems(2) undec_acc_mono [of ?acc ds] by simp
  moreover have "parse_len limit ((pre @ [d]) @ ds @ CR # rest) (length (pre @ [d])) ?acc =
      Inr (Some (foldl (\<lambda>acc b. acc * 10 + digit_val b) ?acc ds, length (pre @ [d]) + length ds))"
    using Cons.prems by (intro Cons.IH) auto
  ultimately show ?case
    using Cons.prems(1) by (subst parse_len.simps) (simp add: nth_append Let_def)
qed

lemma parse_len_dec:
  assumes "n \<le> limit" and "c = length pre"
  shows "parse_len limit (pre @ dec n @ CR # rest) c 0 =
    Inr (Some (n, length pre + length (dec n)))"
  using parse_len_digits [of "dec n" 0 limit pre rest] assms undec_dec [of n, unfolded undec_def]
  by (simp add: dec_digits)

text \<open>More input never changes a verdict the parser has already reached.\<close>

lemma parse_len_append:
  assumes "parse_len limit buf cursor acc = r" and "r \<noteq> Inr None"
  shows "parse_len limit (buf @ tail) cursor acc = r"
  using assms
proof (induction limit buf cursor acc rule: parse_len.induct)
  case (1 limit buf cursor acc)
  then show ?case
    by (subst parse_len.simps, subst (asm) (3) parse_len.simps)
      (auto simp: Let_def nth_append split: if_splits)
qed

lemma parse_len_cursor:
  assumes "parse_len limit buf cursor acc = Inr (Some (n, c))" and "acc \<le> limit"
  shows "cursor \<le> c \<and> c < length buf \<and> n \<le> limit"
  using assms
proof (induction limit buf cursor acc rule: parse_len.induct)
  case (1 limit buf cursor acc)
  from "1.prems"(1) [unfolded parse_len.simps [of limit buf cursor acc]] "1.prems"(2) "1.IH"
  show ?case
    by (fastforce simp: Let_def split: if_splits)
qed

lemma parse_bulks_append:
  assumes "parse_bulks n buf cursor acc = r" and "r \<noteq> Inr None"
  shows "parse_bulks n (buf @ tail) cursor acc = r"
  using assms
proof (induction n buf cursor acc rule: parse_bulks.induct)
  case (2 n buf cursor acc)
  from "2.prems" have c: "cursor < length buf" and d: "buf ! cursor = 36"
    by (auto split: if_splits)
  show ?case
  proof (cases "parse_len MAX_STRING_LEN buf (cursor + 1) 0")
    case (Inl e)
    then show ?thesis
      using "2.prems" c d parse_len_append [OF Inl, of tail] by (simp add: nth_append)
  next
    case (Inr o')
    then obtain str_len c' where
      len: "parse_len MAX_STRING_LEN buf (cursor + 1) 0 = Inr (Some (str_len, c'))"
      using "2.prems" c d by (cases o') auto
    then have len': "parse_len MAX_STRING_LEN (buf @ tail) (cursor + 1) 0 = Inr (Some (str_len, c'))"
      by (auto intro: parse_len_append)
    have fits: "c' + 1 < length buf" "buf ! (c' + 1) = LF" "c' + 2 + str_len + 2 \<le> length buf"
      using "2.prems" c d len by (auto split: if_splits)
    have "parse_bulks n (buf @ tail) (c' + 2 + str_len + 2)
        (acc @ [take str_len (drop (c' + 2) buf)]) = r"
      using "2.prems" "2.IH" [of "Some (str_len, c')"] c d len fits by (auto simp: not_le)
    then show ?thesis
      using c d len' fits by (simp add: nth_append)
  qed
qed simp

lemma parse_bulks_sound:
  assumes "parse_bulks n buf cursor acc = Inr (Some (cmd, c))" and "cursor \<le> length buf"
  shows "c \<le> length buf \<and> cursor \<le> c \<and> length cmd = length acc + n
    \<and> (\<exists>strs. cmd = acc @ strs \<and> (\<forall>s\<in>set strs. length s \<le> MAX_STRING_LEN))"
  using assms
proof (induction n buf cursor acc rule: parse_bulks.induct)
  case (2 n buf cursor acc)
  from "2.prems" obtain str_len c' where
    len: "parse_len MAX_STRING_LEN buf (cursor + 1) 0 = Inr (Some (str_len, c'))"
    and c: "cursor < length buf" "buf ! cursor = 36"
    and fits: "c' + 1 < length buf" "buf ! (c' + 1) = LF" "c' + 2 + str_len + 2 \<le> length buf"
    by (auto split: if_splits sum.splits option.splits)
  let ?s = "take str_len (drop (c' + 2) buf)"
  have bounds: "cursor + 1 \<le> c'" "str_len \<le> MAX_STRING_LEN"
    using parse_len_cursor [OF len] by auto
  have "parse_bulks n buf (c' + 2 + str_len + 2) (acc @ [?s]) = Inr (Some (cmd, c))"
    using "2.prems" c len fits by (auto simp: not_le)
  with "2.IH" [of "Some (str_len, c')"] c len fits
  have IH: "c \<le> length buf \<and> c' + 2 + str_len + 2 \<le> c \<and> length cmd = length (acc @ [?s]) + n
      \<and> (\<exists>strs. cmd = (acc @ [?s]) @ strs \<and> (\<forall>s\<in>set strs. length s \<le> MAX_STRING_LEN))"
    by (auto simp: not_le)
  then obtain strs where "cmd = acc @ (?s # strs)" "\<forall>s\<in>set (?s # strs). length s \<le> MAX_STRING_LEN"
    using bounds by auto
  with IH bounds show ?case by fastforce
qed simp

lemma parse_frame_append:
  assumes "parse_frame buf = r" and "r \<noteq> Inr None"
  shows "parse_frame (buf @ tail) = r"
proof -
  from assms have 4: "4 \<le> length buf"
    by (auto simp: parse_frame_def split: if_splits)
  show ?thesis
  proof (cases "buf ! 0 = 42")
    case False
    then show ?thesis
      using assms 4 by (auto simp: parse_frame_def nth_append)
  next
    case star: True
    show ?thesis
    proof (cases "parse_len MAX_ARRAY_LEN buf 1 0")
      case (Inl e)
      then show ?thesis
        using assms 4 star parse_len_append [OF Inl, of tail]
        by (auto simp: parse_frame_def nth_append)
    next
      case (Inr o')
      then obtain n c where len: "parse_len MAX_ARRAY_LEN buf 1 0 = Inr (Some (n, c))"
        using assms 4 star by (cases o') (auto simp: parse_frame_def)
      moreover from this have "parse_len MAX_ARRAY_LEN (buf @ tail) 1 0 = Inr (Some (n, c))"
        by (auto intro: parse_len_append)
      moreover have "c + 1 < length buf" "buf ! (c + 1) = LF"
        "parse_bulks n buf (c + 2) [] = r"
        using assms 4 star len by (auto simp: parse_frame_def split: if_splits)
      ultimately show ?thesis
        using assms 4 star parse_bulks_append [of n buf "c + 2" "[]" r tail]
        by (auto simp: parse_frame_def nth_append)
    qed
  qed
qed


lemma parse_frame_sound:
  assumes "parse_frame buf = Inr (Some (cmd, c))"
  shows "c \<le> length buf \<and> 3 \<le> c \<and> length cmd \<le> MAX_ARRAY_LEN
    \<and> (\<forall>s\<in>set cmd. length s \<le> MAX_STRING_LEN)"
proof -
  from assms obtain n c' where
    len: "parse_len MAX_ARRAY_LEN buf 1 0 = Inr (Some (n, c'))"
    and fits: "c' + 1 < length buf"
    and bulks: "parse_bulks n buf (c' + 2) [] = Inr (Some (cmd, c))"
    by (auto simp: parse_frame_def split: if_splits sum.splits option.splits)
  have "1 \<le> c'" "n \<le> MAX_ARRAY_LEN"
    using parse_len_cursor [OF len] by auto
  with parse_bulks_sound [OF bulks] fits show ?thesis by fastforce
qed

section \<open>Well-formed request frames\<close>

lemma take_drop_middle:
  "ws = xs @ ys @ zs \<Longrightarrow> n = length xs \<Longrightarrow> m = length ys \<Longrightarrow> take m (drop n ws) = ys"
  by simp

lemma parse_bulks_step:
  assumes "cursor < length buf" and "buf ! cursor = 36"
    and "parse_len MAX_STRING_LEN buf (cursor + 1) 0 = Inr (Some (l, c))"
    and "c + 1 < length buf" and "buf ! (c + 1) = LF" and "c + 2 + l + 2 \<le> length buf"
  shows "parse_bulks (Suc n) buf cursor acc =
    parse_bulks n buf (c + 2 + l + 2) (acc @ [take l (drop (c + 2) buf)])"
  using assms by simp

lemma parse_bulks_frame:
  assumes "\<forall>s\<in>set cmd. length s \<le> MAX_STRING_LEN"
  shows "parse_bulks (length cmd) (pre @ concat (map bulk cmd) @ rest) (length pre) acc =
    Inr (Some (acc @ cmd, length pre + length (concat (map bulk cmd))))"
  using assms
proof (induction cmd arbitrary: pre acc)
  case (Cons s cmd)
  let ?buf = "pre @ concat (map bulk (s # cmd)) @ rest"
  let ?c = "length pre + 1 + length (dec (length s))"
  have buf: "?buf = (pre @ bs ''$'') @ dec (length s) @ CR # LF # s @ CRLF
      @ concat (map bulk cmd) @ rest"
    by (simp add: bulk_def)
  have "parse_len MAX_STRING_LEN ?buf (length pre + 1) 0 = Inr (Some (length s, ?c))"
    unfolding buf using Cons.prems by (subst parse_len_dec) auto
  moreover have "?buf ! length pre = 36" "length pre < length ?buf"
    by (simp_all add: bulk_def nth_append byte_simps)
  moreover have "?buf ! (?c + 1) = LF" "?c + 1 < length ?buf"
    by (simp_all add: bulk_def nth_append byte_simps)
  moreover have end_: "?c + 2 + length s + 2 = length (pre @ bulk s)"
    by (simp add: bulk_def)
  moreover have "length (pre @ bulk s) \<le> length ?buf"
    by simp
  ultimately have "parse_bulks (length (s # cmd)) ?buf (length pre) acc =
      parse_bulks (length cmd) ?buf (length (pre @ bulk s))
        (acc @ [take (length s) (drop (?c + 2) ?buf)])"
    by (metis parse_bulks_step length_Cons)
  also have "take (length s) (drop (?c + 2) ?buf) = s"
    by (rule take_drop_middle [where xs = "pre @ bs ''$'' @ dec (length s) @ CRLF"
          and zs = "CRLF @ concat (map bulk cmd) @ rest"]) (simp_all add: bulk_def)
  also have "?buf = (pre @ bulk s) @ concat (map bulk cmd) @ rest"
    by simp
  also have "parse_bulks (length cmd) ((pre @ bulk s) @ concat (map bulk cmd) @ rest)
      (length (pre @ bulk s)) (acc @ [s]) =
      Inr (Some ((acc @ [s]) @ cmd, length (pre @ bulk s) + length (concat (map bulk cmd))))"
    using Cons.prems by (intro Cons.IH) simp
  finally show ?case
    by simp
qed simp

lemma length_frame: "4 \<le> length (frame cmd)"
proof -
  have "1 \<le> length (dec (length cmd))"
    by (metis dec_nonempty length_greater_0_conv less_eq_Suc_le One_nat_def)
  then show ?thesis by (simp add: frame_def)
qed

lemma parse_frame_frame:
  assumes "within_limits cmd"
  shows "parse_frame (frame cmd @ rest) = Inr (Some (cmd, length (frame cmd)))"
proof -
  let ?buf = "frame cmd @ rest"
  let ?c = "1 + length (dec (length cmd))"
  have buf: "?buf = bs ''*'' @ dec (length cmd) @ CR # LF # concat (map bulk cmd) @ rest"
    by (simp add: frame_def)
  have "parse_len MAX_ARRAY_LEN ?buf 1 0 = Inr (Some (length cmd, ?c))"
    unfolding buf using assms by (subst parse_len_dec) (auto simp: within_limits_def)
  moreover have "?buf ! 0 = 42"
    by (simp add: frame_def nth_append byte_simps)
  moreover have "?buf ! (?c + 1) = LF"
    by (simp add: frame_def nth_append byte_simps)
  moreover have "?c + 2 = length (bs ''*'' @ dec (length cmd) @ CRLF)"
    by simp
  moreover have "parse_bulks (length cmd) ((bs ''*'' @ dec (length cmd) @ CRLF)
      @ concat (map bulk cmd) @ rest) (length (bs ''*'' @ dec (length cmd) @ CRLF)) [] =
      Inr (Some ([] @ cmd, length (bs ''*'' @ dec (length cmd) @ CRLF)
        + length (concat (map bulk cmd))))"
    using assms by (intro parse_bulks_frame) (simp add: within_limits_def)
  ultimately show ?thesis
    using length_frame [of cmd] by (simp add: parse_frame_def frame_def)
qed

lemma parse_frame_prefix:
  assumes "within_limits cmd" and "k < length (frame cmd)"
  shows "parse_frame (take k (frame cmd)) = Inr None"
proof (rule ccontr)
  let ?buf = "take k (frame cmd)"
  assume "parse_frame ?buf \<noteq> Inr None"
  then have eq: "parse_frame (?buf @ drop k (frame cmd)) = parse_frame ?buf"
    by (rule parse_frame_append [OF refl])
  then have full: "parse_frame ?buf = Inr (Some (cmd, length (frame cmd)))"
    using parse_frame_frame [OF assms(1), of "[]"] by simp
  then have "length (frame cmd) \<le> length ?buf"
    using parse_frame_sound by blast
  with assms(2) show False by simp
qed

section \<open>Facts about the writer\<close>

lemma ucast_u8_of_nat: "ucast (w :: u64) = (of_nat (unat w) :: u8)"
  by simp

lemma write_u64_loop_dec:
  assumes "n \<noteq> 0" and "length (dec (unat n)) \<le> i" and "i \<le> length buf"
  shows "write_u64_loop n i buf =
    Some (i - length (dec (unat n)),
          take (i - length (dec (unat n))) buf @ dec (unat n) @ drop i buf)"
  using assms
proof (induction n i buf rule: write_u64_loop.induct)
  case (1 n i buf)
  let ?d = "48 + of_nat (unat n mod 10) :: u8"
  let ?buf = "buf[i - 1 := ?d]"
  have d: "48 + ucast (n mod 10) = ?d"
    by (simp add: ucast_u8_of_nat [symmetric] unat_mod [symmetric, of n 10, simplified])
  have "0 < length (dec (unat n))"
    by simp
  with "1.prems"(2) have i: "0 < i" by linarith
  have pos: "0 < n" using "1.prems"(1) by (simp add: word_gt_0)
  have upd: "?buf = take (i - 1) buf @ ?d # drop i buf"
    using "1.prems" i by (simp add: upd_conv_take_nth_drop)
  have step: "write_u64_loop n i buf = write_u64_loop (n div 10) (i - 1) ?buf"
    using i pos d by (subst write_u64_loop.simps) simp
  show ?case
  proof (cases "unat n < 10")
    case True
    then have "n div 10 = 0"
      by (simp add: word_unat_eq_iff unat_div)
    moreover have "dec (unat n) = [?d]"
      using True by (subst dec.simps) simp
    ultimately show ?thesis
      using step upd i by (simp add: write_u64_loop.simps [of 0])
  next
    case False
    then have nz: "n div 10 \<noteq> 0"
      by (simp add: word_unat_eq_iff unat_div)
    have dec: "dec (unat n) = dec (unat (n div 10)) @ [?d]"
      using False by (subst dec.simps) (simp add: unat_div)
    have "write_u64_loop (n div 10) (i - 1) (buf[i - 1 := 48 + ucast (n mod 10)]) =
      Some (i - 1 - length (dec (unat (n div 10))),
        take (i - 1 - length (dec (unat (n div 10)))) (buf[i - 1 := 48 + ucast (n mod 10)])
          @ dec (unat (n div 10)) @ drop (i - 1) (buf[i - 1 := 48 + ucast (n mod 10)]))"
      using "1.prems" i pos nz dec by (intro "1.IH") auto
    then show ?thesis
      using step upd i dec "1.prems" unfolding d by simp
  qed
qed

lemma length_dec_u64: "length (dec (unat (n :: u64))) \<le> 20"
proof -
  have "unat n < 2 ^ 64" using unsigned_less [of n] by simp
  also have "\<dots> < 10 ^ 20" by simp
  finally show ?thesis by (intro length_dec) auto
qed

lemma write_u64_loop_total: "write_u64_loop n 20 (replicate 20 0) \<noteq> None"
proof (cases "n = 0")
  case True
  then show ?thesis by (subst write_u64_loop.simps) simp
next
  case False
  then show ?thesis by (subst write_u64_loop_dec) (auto simp: length_dec_u64)
qed

lemma put_put [simp]: "put (put w a) b = put w (a @ b)"
  by (simp add: put_def)

lemma wbuf_put [simp]: "wbuf (put w a) = wbuf w @ a"
  by (simp add: put_def)

lemma put_Nil [simp]: "put w [] = w"
  by (simp add: put_def)

lemma write_u64_put: "write_u64 w n = put w (dec (unat n))"
proof (cases "n = 0")
  case True
  then show ?thesis
    by (subst dec.simps) (simp add: write_u64_def byte_simps)
next
  case False
  then show ?thesis
    by (simp add: write_u64_def write_u64_loop_dec length_dec_u64)
qed

lemma write_bulk_string_put:
  "length s < 2 ^ 64 \<Longrightarrow> write_bulk_string w s = put w (bulk s)"
  by (simp add: write_bulk_string_def write_u64_put bulk_def)

lemma foldl_write_bulk_string:
  "\<forall>s\<in>set arr. length s < 2 ^ 64 \<Longrightarrow>
   foldl write_bulk_string w arr = put w (concat (map bulk arr))"
  by (induction arr arbitrary: w) (simp_all add: write_bulk_string_put)

lemma write_array_put:
  "length arr < 2 ^ 64 \<Longrightarrow> \<forall>s\<in>set arr. length s < 2 ^ 64 \<Longrightarrow>
   write_array w arr = put w (frame arr)"
  by (simp add: write_array_def write_u64_put foldl_write_bulk_string frame_def)

lemma within_limits_u64:
  assumes "within_limits cmd"
  shows "length cmd < 2 ^ 64" "\<forall>s\<in>set cmd. length s < 2 ^ 64"
  using assms by (force simp: within_limits_def MAX_ARRAY_LEN_def MAX_STRING_LEN_def)+

section \<open>Facts about the integer parsers\<close>

lemma parse_u64_loop_Some:
  "parse_u64_loop val ds = Some v \<longleftrightarrow>
     (\<forall>b\<in>set ds. is_ascii_digit b) \<and>
     foldl (\<lambda>acc b. acc * 10 + digit_val b) (unat val) ds < 2 ^ 64 \<and>
     unat v = foldl (\<lambda>acc b. acc * 10 + digit_val b) (unat val) ds"
proof (induction ds arbitrary: val)
  case Nil
  then show ?case
    using unsigned_less [of val] by (auto simp: word_unat_eq_iff)
next
  case (Cons b ds)
  let ?f = "foldl (\<lambda>acc b. acc * 10 + digit_val b)"
  let ?acc = "unat val * 10 + digit_val b"
  show ?case
  proof (cases "is_ascii_digit b")
    case digit: True
    then have small: "unat (of_nat (digit_val b) :: u64) = digit_val b"
      using digit_val_less_10 [of b] by simp
    show ?thesis
    proof (cases "?acc < 2 ^ 64")
      case True
      define val' where "val' = val * 10 + of_nat (digit_val b)"
      have m: "u64_checked_mul val 10 = Some (val * 10)" and
        a: "u64_checked_add (val * 10) (of_nat (digit_val b)) = Some val'"
        and v: "unat val' = ?acc"
        using True small
        by (auto simp: u64_checked_mul_def u64_checked_add_def val'_def unat_word_ariths)
      then have "parse_u64_loop val (b # ds) = parse_u64_loop val' ds"
        using digit by simp
      with Cons.IH [of val'] v digit show ?thesis by simp
    next
      case False
      then have "parse_u64_loop val (b # ds) = None"
        using digit small
        by (auto simp: u64_checked_mul_def u64_checked_add_def unat_word_ariths)
      moreover have "?acc \<le> ?f ?acc ds"
        by (rule undec_acc_mono)
      ultimately show ?thesis using False by auto
    qed
  qed simp
qed

lemma parse_u64_Some:
  "parse_u64 ds = Some v \<longleftrightarrow>
     ds \<noteq> [] \<and> (\<forall>b\<in>set ds. is_ascii_digit b) \<and> undec ds < 2 ^ 64 \<and> unat v = undec ds"
  by (simp add: parse_u64_def parse_u64_loop_Some undec_def)

lemma parse_i64_loop_Some:
  assumes "a < 2 ^ 63"
  shows "parse_i64_loop (int a) ds = Some v \<longleftrightarrow>
     (\<forall>b\<in>set ds. is_ascii_digit b) \<and>
     foldl (\<lambda>acc b. acc * 10 + digit_val b) a ds < 2 ^ 63 \<and>
     v = int (foldl (\<lambda>acc b. acc * 10 + digit_val b) a ds)"
  using assms
proof (induction ds arbitrary: a)
  case Nil
  then show ?case by simp (rule eq_commute)
next
  case (Cons b ds)
  let ?acc = "a * 10 + digit_val b"
  show ?case
  proof (cases "is_ascii_digit b")
    case digit: True
    show ?thesis
    proof (cases "?acc < 2 ^ 63")
      case True
      then have "parse_i64_loop (int a) (b # ds) = parse_i64_loop (int ?acc) ds"
        using digit by (auto simp: i64_checked_mul_def i64_checked_add_def in_i64_def)
      with Cons.IH [OF True] digit show ?thesis by simp
    next
      case False
      then have "parse_i64_loop (int a) (b # ds) = None"
        using digit by (auto simp: i64_checked_mul_def i64_checked_add_def in_i64_def)
      moreover have "?acc \<le> foldl (\<lambda>acc b. acc * 10 + digit_val b) ?acc ds"
        by (rule undec_acc_mono)
      ultimately show ?thesis using False by auto
    qed
  qed simp
qed

lemmas parse_i64_loop_0 = parse_i64_loop_Some [of 0, simplified, folded undec_def]

lemma parse_i64_neg:
  "parse_i64 (45 # ds) = Some v \<longleftrightarrow>
     ds \<noteq> [] \<and> (\<forall>b\<in>set ds. is_ascii_digit b) \<and> undec ds < 2 ^ 63 \<and> v = - int (undec ds)"
proof -
  have "parse_i64 (45 # ds) = Some v \<longleftrightarrow> ds \<noteq> [] \<and> parse_i64_loop 0 ds = Some (- v)"
    by (cases "parse_i64_loop 0 ds") (auto simp: parse_i64_def)
  then show ?thesis
    by (auto simp: parse_i64_loop_0)
qed

lemma parse_i64_pos:
  assumes "hd inp \<noteq> 45"
  shows "parse_i64 inp = Some v \<longleftrightarrow>
     inp \<noteq> [] \<and> (\<forall>b\<in>set inp. is_ascii_digit b) \<and> undec inp < 2 ^ 63 \<and> v = int (undec inp)"
proof -
  have "parse_i64 inp = Some v \<longleftrightarrow> inp \<noteq> [] \<and> parse_i64_loop 0 inp = Some v"
    using assms by (cases inp; cases "parse_i64_loop 0 inp") (auto simp: parse_i64_def)
  then show ?thesis
    by (simp add: parse_i64_loop_0)
qed

lemma parse_i64_Nil [simp]: "parse_i64 [] = None"
  by (simp add: parse_i64_def)

lemma parse_i64_cases:
  obtains (neg) ds where "inp = 45 # ds" | (pos) "hd inp \<noteq> 45" | (empty) "inp = []"
  by (cases inp) auto

lemma parse_i64_range:
  "parse_i64 inp = Some v \<Longrightarrow> - (2 ^ 63) < v \<and> v < 2 ^ 63"
  by (cases inp rule: parse_i64_cases)
    (auto simp: parse_i64_neg parse_i64_pos parse_i64_Nil)

lemma hd_dec: "hd (dec n) \<noteq> 45"
  using dec_digits [of "hd (dec n)" n] hd_in_set [OF dec_nonempty [of n]]
  by (metis not_is_ascii_digit_special(3))

lemma parse_i64_dec_int:
  "parse_i64 (dec_int i) = (if - (2 ^ 63) < i \<and> i < 2 ^ 63 then Some i else None)"
proof (cases "i < 0")
  case True
  have "parse_i64 (dec_int i) = Some v \<longleftrightarrow> - (2 ^ 63) < i \<and> v = i" for v
    using True by (auto simp: dec_int_def byte_simps parse_i64_neg dec_digits)
  then show ?thesis
    using True by (cases "parse_i64 (dec_int i)") auto
next
  case False
  have "parse_i64 (dec_int i) = Some v \<longleftrightarrow> i < 2 ^ 63 \<and> v = i" for v
    using False by (auto simp: dec_int_def parse_i64_pos hd_dec dec_digits nat_less_iff)
  then show ?thesis
    using False by (cases "parse_i64 (dec_int i)") auto
qed

section \<open>Case folding\<close>

lemma bit_5_u8: "bit (a :: u8) 5 \<longleftrightarrow> odd (unat a div 32)"
proof -
  have "bit a 5 = bit (unat a) 5"
    by (simp add: bit_unsigned_iff)
  then show ?thesis by (simp add: bit_iff_odd)
qed

lemma bit_5_upper: "65 \<le> unat a \<Longrightarrow> unat a \<le> 90 \<Longrightarrow> \<not> bit (a :: u8) 5"
proof -
  assume "65 \<le> unat a" "unat a \<le> 90"
  then have "unat a div 32 = 2" by (intro div_nat_eqI) auto
  then show ?thesis by (simp add: bit_5_u8)
qed

lemma bit_5_lower: "97 \<le> unat a \<Longrightarrow> unat a \<le> 122 \<Longrightarrow> bit (a :: u8) 5"
proof -
  assume "97 \<le> unat a" "unat a \<le> 122"
  then have "unat a div 32 = 3" by (intro div_nat_eqI) auto
  then show ?thesis by (simp add: bit_5_u8)
qed

lemma or_0x20: "(a :: u8) OR 0x20 = (if bit a 5 then a else a + 32)"
proof -
  have b: "bit (32 :: u8) n \<longleftrightarrow> n = 5" for n
    using bit_exp_iff [of 5 n, where 'a = u8] by (auto simp: possible_bit_word)
  show ?thesis
  proof (cases "bit a 5")
    case True
    have "a OR 32 = a"
      by (rule bit_eqI) (use True b in \<open>auto simp only: bit_or_iff\<close>)
    with True show ?thesis by simp
  next
    case False
    have "bit (a AND 32) n = bit 0 n" for n
      using False b [of n] by (cases "n = 5") (simp_all add: bit_and_iff)
    then have "a AND 32 = 0" by (simp add: bit_eq_iff)
    then have "a + 32 = a OR 32" by (rule disjunctive_add_eq_or)
    with False show ?thesis by simp
  qed
qed

lemma or_0x20_lower:
  assumes "lower_letter b"
  shows "(a OR 0x20) = b \<longleftrightarrow> ascii_lower a = b"
proof -
  have a: "unat a < 256" using unsigned_less [of a] by simp
  have ab: "97 \<le> unat b" "unat b \<le> 122"
    using assms by (simp_all add: lower_letter_def word_le_nat_alt)
  show ?thesis
  proof (cases "bit a 5")
    case True
    then have "\<not> (65 \<le> a \<and> a \<le> 90)"
      by (auto simp: word_le_nat_alt dest: bit_5_upper)
    with True show ?thesis
      by (auto simp: or_0x20 ascii_lower_def)
  next
    case False
    have "65 \<le> unat a \<and> unat a \<le> 90" if "a + 32 = b"
    proof -
      from that have "a = b - 32" by (simp add: algebra_simps)
      then show ?thesis using ab by (simp add: unat_sub_if' word_le_nat_alt) linarith
    qed
    moreover have "a \<noteq> b" if "\<not> (65 \<le> unat a \<and> unat a \<le> 90)"
      using ab False bit_5_lower [of b] by auto
    ultimately show ?thesis
      using False by (auto simp: or_0x20 ascii_lower_def word_le_nat_alt)
  qed
qed

lemma eq_ignore_case_3_lower:
  assumes "length b = 3" and "\<forall>c\<in>set b. lower_letter c"
  shows "eq_ignore_case_3 a b \<longleftrightarrow> map ascii_lower a = b"
proof -
  have "lower_letter (b ! 0)" "lower_letter (b ! 1)" "lower_letter (b ! 2)"
    using assms by auto
  then show ?thesis
    using assms(1)
    by (auto simp: eq_ignore_case_3_def or_0x20_lower list_eq_iff_nth_eq less_Suc_eq numeral_eq_Suc)
qed

lemma eq_ignore_case_6_lower:
  assumes "length b = 6" and "\<forall>c\<in>set b. lower_letter c"
  shows "eq_ignore_case_6 a b \<longleftrightarrow> map ascii_lower a = b"
proof -
  have "lower_letter (b ! 0)" "lower_letter (b ! 1)" "lower_letter (b ! 2)"
    "lower_letter (b ! 3)" "lower_letter (b ! 4)" "lower_letter (b ! 5)"
    using assms by auto
  then show ?thesis
    using assms(1)
    by (auto simp: eq_ignore_case_6_def or_0x20_lower list_eq_iff_nth_eq less_Suc_eq numeral_eq_Suc)
qed

section \<open>Driving the parser from a stream\<close>

lemma try_parse_frame:
  assumes "within_limits cmd"
  shows "try_parse \<lparr>buffer = frame cmd @ rest\<rparr> = (Inr (Some cmd), \<lparr>buffer = rest\<rparr>)"
  using parse_frame_frame [OF assms, of rest] by (simp add: try_parse_def)

lemma try_parse_incomplete:
  "parse_frame (buffer p) = Inr None \<Longrightarrow> try_parse p = (Inr None, p)"
  by (simp add: try_parse_def)

lemma parse_command_delivers:
  assumes "within_limits cmd" and "length (frame cmd) \<le> MAX_BUFFER_SIZE"
    and "received reads i k = Some inp"
    and "buffer p @ inp = frame cmd @ rest"
    and "buffer p \<noteq> [] \<or> (\<exists>c. reads i = ReadOk c \<and> c \<noteq> [])"
  shows "\<exists>rest' j. parse_command reads i p = Some (Inr cmd, p\<lparr>buffer := rest'\<rparr>, j)
    \<and> i \<le> j \<and> j \<le> i + k \<and> (\<exists>unread. rest = rest' @ unread)"
  using assms(3-)
proof (induction k arbitrary: i p inp)
  case 0
  then have buf: "buffer p = frame cmd @ rest" by simp
  then have "try_parse p = (Inr (Some cmd), p\<lparr>buffer := rest\<rparr>)"
    using parse_frame_frame [OF assms(1), of rest] by (simp add: try_parse_def)
  then show ?case
    by (subst parse_command.simps) auto
next
  case (Suc k)
  from Suc.prems(1) obtain chunk inp' where
    r: "reads i = ReadOk chunk" "received reads (i + 1) k = Some inp'" "inp = chunk @ inp'"
    by (auto split: read_result.splits)
  show ?case
  proof (cases "length (buffer p) < length (frame cmd)")
    case True
    then have "buffer p = take (length (buffer p)) (frame cmd)"
      using Suc.prems(2) by (metis append_eq_append_conv_if less_imp_le_nat not_less)
    then have "parse_frame (buffer p) = Inr None"
      using parse_frame_prefix [OF assms(1) True] by simp
    then have tp: "try_parse p = (Inr None, p)" by (rule try_parse_incomplete)
    let ?p = "p\<lparr>buffer := buffer p @ chunk\<rparr>"
    have ne: "buffer ?p \<noteq> []" using Suc.prems(3) r(1) by auto
    have step: "parse_command reads i p = parse_command reads (i + 1) ?p"
      using tp True assms(2) r(1) ne by (subst parse_command.simps) (auto simp: Let_def)
    have "buffer ?p @ inp' = frame cmd @ rest"
      using Suc.prems(2) r(3) by simp
    from Suc.IH [OF r(2) this] ne obtain rest' j where
      "parse_command reads (i + 1) ?p = Some (Inr cmd, ?p\<lparr>buffer := rest'\<rparr>, j)"
      "i + 1 \<le> j" "j \<le> i + 1 + k" "\<exists>unread. rest = rest' @ unread" by blast
    then show ?thesis
      using step by (intro exI [of _ rest'] exI [of _ j]) auto
  next
    case False
    define rest' where "rest' = drop (length (frame cmd)) (buffer p)"
    have "take (length (frame cmd)) (buffer p @ inp) = frame cmd"
      using Suc.prems(2) by simp
    with False have b: "buffer p = frame cmd @ rest'"
      by (simp add: rest'_def) (metis append_take_drop_id)
    then have "try_parse p = (Inr (Some cmd), p\<lparr>buffer := rest'\<rparr>)"
      using parse_frame_frame [OF assms(1), of rest'] by (simp add: try_parse_def)
    moreover have "rest = rest' @ inp" using b Suc.prems(2) by simp
    ultimately show ?thesis
      by (subst parse_command.simps) auto
  qed
qed

lemma parse_command_eof_diverges:
  assumes "parse_frame (buffer p) = Inr None" and "buffer p \<noteq> []"
    and "length (buffer p) \<le> MAX_BUFFER_SIZE" and "\<forall>j\<ge>i. reads j = ReadOk []"
  shows "parse_command reads i p = None"
proof (rule ccontr)
  assume "parse_command reads i p \<noteq> None"
  then obtain r where ret: "parse_command reads i p = Some r" by blast
  have "\<not> (parse_frame (buffer p) = Inr None \<and> buffer p \<noteq> [] \<and>
      length (buffer p) \<le> MAX_BUFFER_SIZE \<and> (\<forall>j\<ge>i. reads j = ReadOk []))"
  proof (rule parse_command.raw_induct [where P = "\<lambda>reads i p r.
      \<not> (parse_frame (buffer p) = Inr None \<and> buffer p \<noteq> [] \<and>
      length (buffer p) \<le> MAX_BUFFER_SIZE \<and> (\<forall>j\<ge>i. reads j = ReadOk []))", OF _ ret])
    fix f :: "(nat \<Rightarrow> read_result) \<Rightarrow> nat \<Rightarrow> resp_parser \<Rightarrow> ((unit + bytes list) \<times> resp_parser \<times> nat) option"
      and reads i r p
    assume IH: "\<And>reads i p r. f reads i p = Some r \<Longrightarrow>
        \<not> (parse_frame (buffer p) = Inr None \<and> buffer p \<noteq> [] \<and>
        length (buffer p) \<le> MAX_BUFFER_SIZE \<and> (\<forall>j\<ge>i. reads j = ReadOk []))"
    assume eq: "(case try_parse p of
        (Inr (Some cmd), p') \<Rightarrow> Some (Inr cmd, p', i)
      | (Inr None, p') \<Rightarrow>
          (if length (buffer p') > MAX_BUFFER_SIZE then Some (Inl (), p', i)
           else (case reads i of
               ReadErr \<Rightarrow> Some (Inl (), p', i + 1)
             | ReadOk chunk \<Rightarrow>
                 (let p'' = p'\<lparr>buffer := buffer p' @ chunk\<rparr> in
                  if buffer p'' = [] then Some (Inl (), p'', i + 1)
                  else f reads (i + 1) p'')))
      | (Inl e, p') \<Rightarrow> Some (Inl (), p', i)) = Some r"
    show "\<not> (parse_frame (buffer p) = Inr None \<and> buffer p \<noteq> [] \<and>
        length (buffer p) \<le> MAX_BUFFER_SIZE \<and> (\<forall>j\<ge>i. reads j = ReadOk []))"
    proof
      assume h: "parse_frame (buffer p) = Inr None \<and> buffer p \<noteq> [] \<and>
        length (buffer p) \<le> MAX_BUFFER_SIZE \<and> (\<forall>j\<ge>i. reads j = ReadOk [])"
      then have "f reads (i + 1) p = Some r"
        using eq by (simp add: try_parse_incomplete Let_def)
      from IH [OF this] h show False by auto
    qed
  qed
  with assms show False by blast
qed

section \<open>Properties\<close>

text \<open>C17: A command that respects the parser's limits, written as a RESP array by the
  writer and followed by any further bytes, is parsed back exactly: the parser
  returns the command, consumes exactly its frame and leaves the rest buffered.\<close>

theorem try_parse_write_array:
  assumes "within_limits cmd"
  shows "try_parse \<lparr>buffer = wbuf (write_array \<lparr>wbuf = []\<rparr> cmd) @ rest\<rparr>
    = (Inr (Some cmd), \<lparr>buffer = rest\<rparr>)"
  using try_parse_frame [OF assms, of rest] write_array_put [OF within_limits_u64 [OF assms]]
  by simp

theorem try_parse_write_array_witness:
  "try_parse \<lparr>buffer = wbuf (write_array \<lparr>wbuf = []\<rparr> [bs ''GET'', bs ''k'']) @ [42]\<rparr>
    = (Inr (Some [bs ''GET'', bs ''k'']), \<lparr>buffer = [42]\<rparr>)"
  by (rule try_parse_write_array)
    (simp add: within_limits_def MAX_ARRAY_LEN_def MAX_STRING_LEN_def)

text \<open>C18: Incremental parsing is safe: on every proper prefix of a well-formed frame the
  parser neither reports a protocol error nor consumes input; it asks for more.\<close>

theorem try_parse_proper_prefix:
  assumes "within_limits cmd" and "k < length (frame cmd)"
  shows "try_parse \<lparr>buffer = take k (frame cmd)\<rparr> = (Inr None, \<lparr>buffer = take k (frame cmd)\<rparr>)"
  by (rule try_parse_incomplete) (use parse_frame_prefix [OF assms] in simp)

theorem try_parse_proper_prefix_witness:
  "try_parse \<lparr>buffer = take 5 (frame [bs ''GET''])\<rparr>
    = (Inr None, \<lparr>buffer = take 5 (frame [bs ''GET''])\<rparr>)"
  by (rule try_parse_proper_prefix)
    (simp_all add: within_limits_def MAX_ARRAY_LEN_def MAX_STRING_LEN_def frame_def bulk_def)

text \<open>A verdict is final: once the parser has accepted a command or rejected the
  input, bytes that arrive later change neither the verdict nor the frame consumed.\<close>

theorem try_parse_verdict_stable:
  assumes "try_parse p = (r, p')" and "r \<noteq> Inr None"
  shows "try_parse (p\<lparr>buffer := buffer p @ later\<rparr>) =
    (r, case r of Inl e \<Rightarrow> p\<lparr>buffer := buffer p @ later\<rparr>
                | Inr c \<Rightarrow> p'\<lparr>buffer := buffer p' @ later\<rparr>)"
proof -
  have "parse_frame (buffer p) \<noteq> Inr None"
    using assms by (auto simp: try_parse_def)
  from parse_frame_append [OF refl this] show ?thesis
    using assms by (auto simp: try_parse_def dest: parse_frame_sound split: sum.splits option.splits)
qed

theorem try_parse_verdict_stable_witness:
  "try_parse (\<lparr>buffer = [1, 2, 3, 4]\<rparr>\<lparr>buffer := [1, 2, 3, 4] @ [5]\<rparr>) =
    (Inl (), \<lparr>buffer = [1, 2, 3, 4]\<rparr>\<lparr>buffer := [1, 2, 3, 4] @ [5]\<rparr>)"
  using try_parse_verdict_stable [of "\<lparr>buffer = [1, 2, 3, 4]\<rparr>" "Inl ()" "\<lparr>buffer = [1, 2, 3, 4]\<rparr>" "[5]"]
  by (simp add: try_parse_def parse_frame_def)

text \<open>C19: Reading a command from a connection terminates with that command: when the
  reads of the stream deliver a well-formed frame in chunks of any size, the parse
  loop returns exactly that command after at most those reads.\<close>

theorem parse_command_returns:
  assumes "within_limits cmd" and "length (frame cmd) \<le> MAX_BUFFER_SIZE"
    and "received reads i k = Some (frame cmd @ rest)" and "\<forall>j. reads j \<noteq> ReadOk []"
  shows "\<exists>rest' j. parse_command reads i \<lparr>buffer = []\<rparr> = Some (Inr cmd, \<lparr>buffer = rest'\<rparr>, j)
    \<and> j \<le> i + k"
proof -
  have "frame cmd \<noteq> []" using length_frame [of cmd] by auto
  then obtain k' where "k = Suc k'"
    using assms(3) by (cases k) auto
  then obtain c where "reads i = ReadOk c" "c \<noteq> []"
    using assms(3) assms(4) [rule_format, of i] by (cases "reads i") auto
  then show ?thesis
    using parse_command_delivers [OF assms(1-3), of "\<lparr>buffer = []\<rparr>" rest] by fastforce
qed

theorem parse_command_returns_witness:
  "\<exists>rest' j. parse_command (\<lambda>n. ReadOk (frame [bs ''PING''])) 0 \<lparr>buffer = []\<rparr>
     = Some (Inr [bs ''PING''], \<lparr>buffer = rest'\<rparr>, j) \<and> j \<le> 0 + 1"
  by (rule parse_command_returns [where rest = "[]"])
    (simp_all add: within_limits_def MAX_ARRAY_LEN_def MAX_STRING_LEN_def MAX_BUFFER_SIZE_def
      frame_def bulk_def byte_simps dec.simps)

text \<open>C37: A peer that closes its connection in the middle of a frame is never noticed:
  the end of the stream is a successful read of no bytes, the loop only tests
  whether the buffer is empty, and so it goes round for ever without returning.\<close>

theorem parse_command_spins_at_eof:
  assumes "within_limits cmd" and "0 < k" and "k < length (frame cmd)"
    and "k \<le> MAX_BUFFER_SIZE" and "\<forall>j\<ge>i. reads j = ReadOk []"
  shows "parse_command reads i \<lparr>buffer = take k (frame cmd)\<rparr> = None"
  using assms parse_frame_prefix [OF assms(1,3)]
  by (intro parse_command_eof_diverges) auto

theorem parse_command_spins_at_eof_witness:
  "parse_command (\<lambda>n. ReadOk []) 0 \<lparr>buffer = take 1 (frame [bs ''PING''])\<rparr> = None"
  by (rule parse_command_spins_at_eof)
    (simp_all add: within_limits_def MAX_ARRAY_LEN_def MAX_STRING_LEN_def MAX_BUFFER_SIZE_def
      frame_def bulk_def)

text \<open>C34: The writer's integer printing is exact and stays inside its 20-byte scratch
  array for every 64-bit value, and the integer parser reads it back.\<close>

theorem write_u64_parse_u64:
  "write_u64_loop n 20 (replicate 20 0) \<noteq> None
   \<and> wbuf (write_u64 w n) = wbuf w @ dec (unat n)
   \<and> parse_u64 (dec (unat n)) = Some n"
  using unsigned_less [of n]
  by (simp add: write_u64_loop_total write_u64_put parse_u64_Some dec_digits)

text \<open>C35: \<^verbatim>\<open>parse_i64\<close> reads back the decimal text of exactly the integers strictly
  between \<open>-2^63\<close> and \<open>2^63\<close>: the text of \<^verbatim>\<open>i64::MIN\<close>, which \<^verbatim>\<open>DECR\<close> can store, is rejected.\<close>

theorem parse_i64_of_dec_int:
  "parse_i64 (dec_int i) = (if - (2 ^ 63) < i \<and> i < 2 ^ 63 then Some i else None)"
  by (rule parse_i64_dec_int)

text \<open>The dispatch's bit trick \<^verbatim>\<open>x | 0x20\<close> is exactly ASCII case folding for the
  command names compared: against lower-case letters it accepts a byte string iff
  folding the string's ASCII letters to lower case gives the name.\<close>

theorem eq_ignore_case_correct:
  assumes "\<forall>c\<in>set name. lower_letter c"
  shows "(length name = 3 \<longrightarrow> (eq_ignore_case_3 a name \<longleftrightarrow> map ascii_lower a = name))
    \<and> (length name = 6 \<longrightarrow> (eq_ignore_case_6 a name \<longleftrightarrow> map ascii_lower a = name))"
  using assms by (simp add: eq_ignore_case_3_lower eq_ignore_case_6_lower)

theorem eq_ignore_case_correct_witness:
  "eq_ignore_case_3 (bs ''SeT'') (bs ''set'') \<longleftrightarrow> map ascii_lower (bs ''SeT'') = bs ''set''"
  using eq_ignore_case_correct [of "bs ''set''" "bs ''SeT''"]
  by (simp add: byte_simps lower_letter_def)

end
