(* ===== verification/Glob.thy ===== *)
theory Glob
  imports Prelude
begin

text \<open>
  Glob matching for \<^verbatim>\<open>SCAN ... MATCH\<close>: \<^verbatim>\<open>matches_pattern\<close> of \<^verbatim>\<open>src/src/store.rs\<close>, its
  backtracking loop written out over the same four indices, and the recursive
  reference \<open>glob\<close> it is compared with.
\<close>

section \<open>The matching loop\<close>

abbreviation STAR :: u8 where "STAR \<equiv> 42"
abbreviation QUERY :: u8 where "QUERY \<equiv> 63"

function skip_stars :: "bytes \<Rightarrow> nat \<Rightarrow> nat" where
  "skip_stars pattern pat_idx =
     (if pat_idx < length pattern \<and> pattern ! pat_idx = STAR
      then skip_stars pattern (pat_idx + 1) else pat_idx)"
  by pat_completeness auto
termination
  by (relation "measure (\<lambda>(pattern, pat_idx). length pattern - pat_idx)") auto

declare skip_stars.simps [simp del]

text \<open>\<open>Some\<close> is the value the function returns; \<open>None\<close> would be a loop that never ends.\<close>

partial_function (option) match_loop ::
  "bytes \<Rightarrow> bytes \<Rightarrow> nat \<Rightarrow> nat \<Rightarrow> nat option \<Rightarrow> nat \<Rightarrow> bool option" where
  "match_loop key pattern key_idx pat_idx star_pos key_backup =
     (if key_idx < length key then
        (if pat_idx < length pattern \<and> pattern ! pat_idx = STAR
         then match_loop key pattern key_idx (pat_idx + 1) (Some pat_idx) key_idx
         else if pat_idx < length pattern
             \<and> (pattern ! pat_idx = QUERY \<or> pattern ! pat_idx = key ! key_idx)
         then match_loop key pattern (key_idx + 1) (pat_idx + 1) star_pos key_backup
         else (case star_pos of
             Some star \<Rightarrow> match_loop key pattern (key_backup + 1) (star + 1) star_pos (key_backup + 1)
           | None \<Rightarrow> Some False))
      else Some (skip_stars pattern pat_idx = length pattern))"

definition matches_pattern :: "bytes \<Rightarrow> bytes \<Rightarrow> bool option" where
  "matches_pattern key pattern = match_loop key pattern 0 0 None 0"

section \<open>Reference matcher\<close>

text \<open>The documented meaning: a star stands for any sequence, a question mark for one byte.\<close>

fun glob :: "bytes \<Rightarrow> bytes \<Rightarrow> bool" where
  "glob [] [] = True"
| "glob (c # cs) [] = False"
| "glob [] (p # ps) = (p = STAR \<and> glob [] ps)"
| "glob (c # cs) (p # ps) =
     (if p = STAR then glob (c # cs) ps \<or> glob cs (p # ps)
      else (p = QUERY \<or> p = c) \<and> glob cs ps)"

section \<open>Loop invariant and loop specification\<close>

text \<open>\<open>matches_from key pat i j\<close>: the rest of the key from \<open>i\<close> matches the rest of the pattern from \<open>j\<close>.\<close>

definition matches_from :: "bytes \<Rightarrow> bytes \<Rightarrow> nat \<Rightarrow> nat \<Rightarrow> bool" where
  "matches_from key pat i j \<longleftrightarrow> glob (drop i key) (drop j pat)"

definition loop_inv :: "bytes \<Rightarrow> bytes \<Rightarrow> nat \<Rightarrow> nat \<Rightarrow> nat option \<Rightarrow> nat \<Rightarrow> bool" where
  "loop_inv key pat ki pi star kb \<longleftrightarrow>
     ki \<le> length key \<and> pi \<le> length pat \<and>
     (case star of None \<Rightarrow> True
      | Some s \<Rightarrow> s < pi \<and> pat ! s = STAR \<and> (\<forall>x. s + 1 \<le> x \<and> x < pi \<longrightarrow> pat ! x \<noteq> STAR)
          \<and> ki = kb + (pi - (s + 1)))"

definition loop_spec :: "bytes \<Rightarrow> bytes \<Rightarrow> nat \<Rightarrow> nat \<Rightarrow> nat option \<Rightarrow> nat \<Rightarrow> bool" where
  "loop_spec key pat ki pi star kb \<longleftrightarrow>
     matches_from key pat ki pi \<or>
     (case star of None \<Rightarrow> False
      | Some s \<Rightarrow> \<exists>k'. kb < k' \<and> k' \<le> length key \<and> matches_from key pat k' (s + 1))"

section \<open>Facts about the reference\<close>

lemma glob_Nil: "glob k [] \<longleftrightarrow> k = []"
  by (cases k) auto

lemma glob_star: "glob k (STAR # ps) \<longleftrightarrow> (\<exists>j\<le>length k. glob (drop j k) ps)"
proof (induction k)
  case (Cons c k)
  have "glob (c # k) (STAR # ps) \<longleftrightarrow> glob (c # k) ps \<or> (\<exists>j\<le>length k. glob (drop j k) ps)"
    using Cons.IH by simp
  also have "\<dots> \<longleftrightarrow> (\<exists>j\<le>length (c # k). glob (drop j (c # k)) ps)"
  proof
    assume "glob (c # k) ps \<or> (\<exists>j\<le>length k. glob (drop j k) ps)"
    then show "\<exists>j\<le>length (c # k). glob (drop j (c # k)) ps"
      by (metis drop0 drop_Suc_Cons le0 length_Cons not_less_eq_eq)
  next
    assume "\<exists>j\<le>length (c # k). glob (drop j (c # k)) ps"
    then obtain j where "j \<le> length (c # k)" "glob (drop j (c # k)) ps" by blast
    then show "glob (c # k) ps \<or> (\<exists>j\<le>length k. glob (drop j k) ps)"
      by (cases j) auto
  qed
  finally show ?case .
qed simp

lemma matches_from_star:
  assumes "j < length pat" and "pat ! j = STAR" and "i \<le> length key"
  shows "matches_from key pat i j \<longleftrightarrow> (\<exists>i'\<ge>i. i' \<le> length key \<and> matches_from key pat i' (j + 1))"
proof -
  have "drop j pat = STAR # drop (j + 1) pat"
    using assms by (metis Cons_nth_drop_Suc Suc_eq_plus1)
  then have "matches_from key pat i j \<longleftrightarrow>
      (\<exists>d\<le>length key - i. matches_from key pat (i + d) (j + 1))"
    by (simp add: matches_from_def glob_star add.commute)
  also have "\<dots> \<longleftrightarrow> (\<exists>i'\<ge>i. i' \<le> length key \<and> matches_from key pat i' (j + 1))"
  proof
    assume "\<exists>d\<le>length key - i. matches_from key pat (i + d) (j + 1)"
    then obtain d where "d \<le> length key - i" "matches_from key pat (i + d) (j + 1)" by blast
    with assms(3) show "\<exists>i'\<ge>i. i' \<le> length key \<and> matches_from key pat i' (j + 1)"
      by (intro exI [of _ "i + d"]) auto
  next
    assume "\<exists>i'\<ge>i. i' \<le> length key \<and> matches_from key pat i' (j + 1)"
    then obtain i' where "i \<le> i'" "i' \<le> length key" "matches_from key pat i' (j + 1)" by blast
    then show "\<exists>d\<le>length key - i. matches_from key pat (i + d) (j + 1)"
      by (intro exI [of _ "i' - i"]) auto
  qed
  finally show ?thesis .
qed

lemma matches_from_char:
  assumes "j < length pat" and "pat ! j \<noteq> STAR" and "i < length key"
  shows "matches_from key pat i j \<longleftrightarrow>
    (pat ! j = QUERY \<or> pat ! j = key ! i) \<and> matches_from key pat (i + 1) (j + 1)"
proof -
  have "drop j pat = pat ! j # drop (j + 1) pat" "drop i key = key ! i # drop (i + 1) key"
    using assms by (metis Cons_nth_drop_Suc Suc_eq_plus1)+
  with assms(2) show ?thesis by (simp add: matches_from_def)
qed

lemma matches_from_end:
  assumes "j < length pat" and "pat ! j \<noteq> STAR"
  shows "\<not> matches_from key pat (length key) j"
proof -
  have "drop j pat = pat ! j # drop (j + 1) pat"
    using assms by (metis Cons_nth_drop_Suc Suc_eq_plus1)
  with assms(2) show ?thesis by (simp add: matches_from_def)
qed

lemma matches_from_no_pattern:
  "i < length key \<Longrightarrow> \<not> matches_from key pat i (length pat)"
  by (simp add: matches_from_def glob_Nil)

lemma skip_stars_matches:
  "j \<le> length pat \<Longrightarrow>
   (skip_stars pat j = length pat) \<longleftrightarrow> matches_from key pat (length key) j"
proof (induction pat j rule: skip_stars.induct)
  case (1 pat j)
  show ?case
  proof (cases "j < length pat \<and> pat ! j = STAR")
    case True
    then have "matches_from key pat (length key) j = matches_from key pat (length key) (j + 1)"
      using matches_from_star [of j pat "length key" key] by auto
    with True "1.IH" show ?thesis by (subst skip_stars.simps) simp
  next
    case False
    then show ?thesis
      using "1.prems" matches_from_end [of j pat key]
      by (subst skip_stars.simps) (auto simp: matches_from_def le_less)
  qed
qed

text \<open>A star-free stretch of the pattern consumes exactly as many bytes of the key.\<close>

lemma matches_from_segment:
  assumes "matches_from key pat i j" and "i \<le> length key" and "j + d \<le> length pat"
    and "\<forall>x. j \<le> x \<and> x < j + d \<longrightarrow> pat ! x \<noteq> STAR"
  shows "i + d \<le> length key \<and> matches_from key pat (i + d) (j + d)"
  using assms
proof (induction d)
  case (Suc d)
  then have IH: "i + d \<le> length key" "matches_from key pat (i + d) (j + d)" by auto
  have p: "j + d < length pat" "pat ! (j + d) \<noteq> STAR" using Suc.prems by auto
  have "i + d < length key"
    using IH p matches_from_end [OF p] by (metis le_less)
  with IH p matches_from_char [OF p] show ?case by auto
qed simp

section \<open>Correctness of the loop\<close>

text \<open>
  Once the pattern has advanced past the last star, restarting from that star at
  a later key position can only succeed further right than the current position.
\<close>

lemma restart_advances:
  assumes "loop_inv key pat ki pi (Some s) kb" and "kb < k'" and "k' \<le> length key"
    and "matches_from key pat k' (s + 1)"
  shows "\<exists>i>ki. i \<le> length key \<and> matches_from key pat i pi"
proof -
  let ?d = "pi - (s + 1)"
  have inv: "s + 1 + ?d = pi" "pi \<le> length pat" "ki = kb + ?d"
    "\<forall>x. s + 1 \<le> x \<and> x < s + 1 + ?d \<longrightarrow> pat ! x \<noteq> STAR"
    using assms(1) by (auto simp: loop_inv_def)
  have "k' + ?d \<le> length key \<and> matches_from key pat (k' + ?d) (s + 1 + ?d)"
    using inv assms(3,4) by (intro matches_from_segment) auto
  with inv assms(2) show ?thesis by (intro exI [of _ "k' + ?d"]) auto
qed

lemma loop_spec_star:
  assumes "loop_inv key pat ki pi star kb" and "pi < length pat" and "pat ! pi = STAR"
  shows "loop_spec key pat ki pi star kb = loop_spec key pat ki (pi + 1) (Some pi) ki"
proof -
  have ki: "ki \<le> length key" using assms(1) by (simp add: loop_inv_def)
  note star = matches_from_star [OF assms(2,3)]
  have "matches_from key pat ki pi" if "star = Some s" "kb < k'" "k' \<le> length key"
    "matches_from key pat k' (s + 1)" for s k'
    using restart_advances [of key pat ki pi s kb k'] assms(1) that star [of ki key] star
    by (metis ki le_trans less_imp_le_nat)
  then have "loop_spec key pat ki pi star kb = matches_from key pat ki pi"
    by (auto simp: loop_spec_def split: option.splits)
  also have "\<dots> = loop_spec key pat ki (pi + 1) (Some pi) ki"
    using star [OF ki] ki by (auto simp: loop_spec_def le_less)
  finally show ?thesis .
qed

lemma loop_spec_restart:
  assumes "loop_inv key pat ki pi (Some s) kb" and "ki < length key"
    and "\<not> matches_from key pat ki pi"
  shows "loop_spec key pat ki pi (Some s) kb = loop_spec key pat (kb + 1) (s + 1) (Some s) (kb + 1)"
proof -
  have "kb + 1 \<le> length key"
    using assms(1,2) by (auto simp: loop_inv_def)
  then have "(\<exists>k'. kb < k' \<and> k' \<le> length key \<and> matches_from key pat k' (s + 1)) \<longleftrightarrow>
      matches_from key pat (kb + 1) (s + 1) \<or>
      (\<exists>k'. kb + 1 < k' \<and> k' \<le> length key \<and> matches_from key pat k' (s + 1))"
    by (metis Suc_eq_plus1 Suc_lessD Suc_lessI lessI)
  with assms(3) show ?thesis by (simp add: loop_spec_def)
qed

lemma loop_spec_end:
  assumes "loop_inv key pat (length key) pi star kb"
  shows "loop_spec key pat (length key) pi star kb = matches_from key pat (length key) pi"
proof (cases star)
  case (Some s)
  have "\<not> (kb < k' \<and> k' \<le> length key \<and> matches_from key pat k' (s + 1))" for k'
    using restart_advances [of key pat "length key" pi s kb k'] assms Some by auto
  with Some show ?thesis
    by (auto simp: loop_spec_def)
qed (simp add: loop_spec_def)

lemma match_loop_correct:
  assumes "loop_inv key pat ki pi star kb"
  shows "match_loop key pat ki pi star kb = Some (loop_spec key pat ki pi star kb)"
  using assms
proof (induction "(ki, pi, star, kb)" arbitrary: ki pi star kb
    rule: wf_induct_rule [OF wf_measures [of "[
      \<lambda>(ki, pi, star, kb). case star of None \<Rightarrow> length pat + 1 | Some s \<Rightarrow> length pat - s,
      \<lambda>(ki, pi, star, kb). length key - kb,
      \<lambda>(ki, pi, star, kb). length key - ki]"]])
  case 1
  note inv = "1.prems"
  have le: "ki \<le> length key" "pi \<le> length pat" using inv by (auto simp: loop_inv_def)
  consider (fin) "ki = length key"
    | (star) "ki < length key" "pi < length pat" "pat ! pi = STAR"
    | (char) "ki < length key" "pi < length pat" "pat ! pi \<noteq> STAR"
        "pat ! pi = QUERY \<or> pat ! pi = key ! ki"
    | (fail) "ki < length key"
        "\<not> (pi < length pat \<and> (pat ! pi = STAR \<or> pat ! pi = QUERY \<or> pat ! pi = key ! ki))"
    using le by linarith
  then show ?case
  proof cases
    case fin
    then show ?thesis
      using inv skip_stars_matches [OF le(2), of key]
      by (subst match_loop.simps) (simp add: loop_spec_end)
  next
    case star
    have "loop_inv key pat ki (pi + 1) (Some pi) ki"
      using star le by (auto simp: loop_inv_def)
    then have "match_loop key pat ki (pi + 1) (Some pi) ki = Some (loop_spec key pat ki (pi + 1) (Some pi) ki)"
      using inv star by (intro "1.hyps") (auto simp: loop_inv_def split: option.splits)
    then show ?thesis
      using star loop_spec_star [OF inv star(2,3)] by (subst match_loop.simps) simp
  next
    case char
    have "loop_inv key pat (ki + 1) (pi + 1) star kb"
      using inv char by (auto simp: loop_inv_def less_Suc_eq split: option.splits)
    then have "match_loop key pat (ki + 1) (pi + 1) star kb = Some (loop_spec key pat (ki + 1) (pi + 1) star kb)"
      using char by (intro "1.hyps") auto
    moreover have "loop_spec key pat (ki + 1) (pi + 1) star kb = loop_spec key pat ki pi star kb"
      using matches_from_char [of pi pat ki key] char by (simp add: loop_spec_def)
    ultimately show ?thesis
      using char by (subst match_loop.simps) simp
  next
    case fail
    then have no: "\<not> matches_from key pat ki pi"
      using le matches_from_char [of pi pat ki key] matches_from_no_pattern [of ki key pat]
      by (cases "pi < length pat") auto
    show ?thesis
    proof (cases star)
      case None
      then show ?thesis
        using fail no by (subst match_loop.simps) (auto simp: loop_spec_def)
    next
      case (Some s)
      have "loop_inv key pat (kb + 1) (s + 1) (Some s) (kb + 1)"
        using inv Some fail by (auto simp: loop_inv_def)
      then have "match_loop key pat (kb + 1) (s + 1) (Some s) (kb + 1) =
          Some (loop_spec key pat (kb + 1) (s + 1) (Some s) (kb + 1))"
        using inv Some fail by (intro "1.hyps") (auto simp: loop_inv_def)
      then show ?thesis
        using Some fail loop_spec_restart [OF inv [unfolded Some] fail(1) no]
        by (subst match_loop.simps) auto
    qed
  qed
qed

lemma matches_pattern_glob: "matches_pattern key pat = Some (glob key pat)"
  using match_loop_correct [of key pat 0 0 None 0]
  by (simp add: matches_pattern_def loop_inv_def loop_spec_def matches_from_def)

section \<open>Properties\<close>

text \<open>C20: The backtracking matcher terminates on every key and pattern and decides exactly
  the documented glob language: its verdict is the one of the recursive reference.\<close>

theorem matches_pattern_correct:
  "matches_pattern key pat = Some (glob key pat)"
  by (rule matches_pattern_glob)

end
