(* ===== verification/Config.thy ===== *)
theory Config
  imports Prelude
begin

text \<open>
  Configuration: the structs, defaults, environment overrides and validation of
  \<^verbatim>\<open>src/src/config.rs\<close>, and the eviction policy names. The process environment and
  the configuration file are arguments of \<open>load\<close>; decoding TOML is the \<^verbatim>\<open>toml\<close> crate,
  so the file argument already carries the decoded configuration or the error.
\<close>

section \<open>Configuration structures\<close>

text \<open>An \<^verbatim>\<open>f64\<close> is kept as its IEEE 754 bit pattern; no code computes with these fields.\<close>

type_synonym f64_bits = u64

record server_config =
  bind :: string
  port :: u16
  num_shards :: nat
  batch_size :: nat
  buffer_size :: nat
  buffer_pool_size :: nat
  max_connections :: nat
  connection_timeout :: u64
  connection_rate_limit :: u64
  health_check_port :: u16
  shutdown_grace_period_secs :: u64

record security_config =
  password :: string
  tls_enabled :: bool
  tls_cert_path :: string
  tls_key_path :: string

record logging_config =
  level :: string
  format :: string

record performance_config =
  tcp_nodelay :: bool
  tcp_keepalive :: u64

record memory_config =
  max_memory :: u64
  eviction_policy :: string
  eviction_sample_size :: nat
  s3fifo_small_ratio :: f64_bits
  s3fifo_ghost_ratio :: f64_bits

record persistence_config =
  enabled :: bool
  snapshot_path :: string
  save_on_shutdown :: bool
  snapshot_interval :: u64
  aof_enabled :: bool
  aof_path :: string
  aof_fsync :: string
  aof_rewrite_min_size :: u64
  aof_rewrite_percentage :: u64

record config =
  server :: server_config
  security :: security_config
  logging :: logging_config
  performance :: performance_config
  memory :: memory_config
  persistence :: persistence_config

section \<open>Defaults\<close>

definition default_bind :: string where [simp]: "default_bind = ''0.0.0.0''"
definition default_port :: u16 where [simp]: "default_port = 6379"
definition default_num_shards :: nat where [simp]: "default_num_shards = 2048"
definition default_batch_size :: nat where [simp]: "default_batch_size = 16"
definition default_buffer_size :: nat where [simp]: "default_buffer_size = 16 * 1024"
definition default_buffer_pool_size :: nat where [simp]: "default_buffer_pool_size = 1024"
definition default_max_connections :: nat where [simp]: "default_max_connections = 10000"
definition default_connection_timeout :: u64 where [simp]: "default_connection_timeout = 300"
definition default_shutdown_grace_period_secs :: u64 where [simp]: "default_shutdown_grace_period_secs = 30"
definition default_log_level :: string where [simp]: "default_log_level = ''info''"
definition default_log_format :: string where [simp]: "default_log_format = ''text''"
definition default_true :: bool where [simp]: "default_true = True"
definition default_tcp_keepalive :: u64 where [simp]: "default_tcp_keepalive = 60"
definition default_eviction_policy :: string where [simp]: "default_eviction_policy = ''allkeys-lru''"
definition default_eviction_sample_size :: nat where [simp]: "default_eviction_sample_size = 5"
definition default_s3fifo_small_ratio :: u64 where [simp]: "default_s3fifo_small_ratio = 0x3FB999999999999A"
definition default_s3fifo_ghost_ratio :: u64 where [simp]: "default_s3fifo_ghost_ratio = 0x3FB999999999999A"
definition default_snapshot_path :: string where [simp]: "default_snapshot_path = ''redistill.rdb''"
definition default_snapshot_interval :: u64 where [simp]: "default_snapshot_interval = 300"
definition default_aof_path :: string where [simp]: "default_aof_path = ''redistill.aof''"
definition default_aof_fsync :: string where [simp]: "default_aof_fsync = ''everysec''"
definition default_aof_rewrite_min_size :: u64 where [simp]: "default_aof_rewrite_min_size = 64 * 1024 * 1024"
definition default_aof_rewrite_percentage :: u64 where [simp]: "default_aof_rewrite_percentage = 100"

definition default_server :: server_config where
  "default_server =
     \<lparr>bind = default_bind, port = default_port, num_shards = default_num_shards,
      batch_size = default_batch_size, buffer_size = default_buffer_size,
      buffer_pool_size = default_buffer_pool_size, max_connections = default_max_connections,
      connection_timeout = default_connection_timeout, connection_rate_limit = 0,
      health_check_port = 0, shutdown_grace_period_secs = default_shutdown_grace_period_secs\<rparr>"

definition default_security :: security_config where
  "default_security =
     \<lparr>password = '''', tls_enabled = False, tls_cert_path = '''', tls_key_path = ''''\<rparr>"

definition default_logging :: logging_config where
  "default_logging = \<lparr>level = default_log_level, format = default_log_format\<rparr>"

definition default_performance :: performance_config where
  "default_performance = \<lparr>tcp_nodelay = default_true, tcp_keepalive = default_tcp_keepalive\<rparr>"

definition default_memory :: memory_config where
  "default_memory =
     \<lparr>max_memory = 0, eviction_policy = default_eviction_policy,
      eviction_sample_size = default_eviction_sample_size,
      s3fifo_small_ratio = default_s3fifo_small_ratio, s3fifo_ghost_ratio = default_s3fifo_ghost_ratio\<rparr>"

definition default_persistence :: persistence_config where
  "default_persistence =
     \<lparr>enabled = False, snapshot_path = default_snapshot_path, save_on_shutdown = True,
      snapshot_interval = default_snapshot_interval, aof_enabled = False, aof_path = default_aof_path,
      aof_fsync = default_aof_fsync, aof_rewrite_min_size = default_aof_rewrite_min_size,
      aof_rewrite_percentage = default_aof_rewrite_percentage\<rparr>"

definition default_config :: config where
  "default_config =
     \<lparr>server = default_server, security = default_security, logging = default_logging,
      performance = default_performance, memory = default_memory,
      persistence = default_persistence\<rparr>"

section \<open>Eviction policy\<close>

datatype evict_policy = NoEviction | AllKeysLru | AllKeysRandom | AllKeysS3Fifo

text \<open>
  \<^verbatim>\<open>str::to_lowercase\<close> as far as a comparison with an ASCII name can see it: ASCII
  letters are folded, and the Kelvin sign (UTF-8 \<^verbatim>\<open>E2 84 AA\<close>) is the one other
  character that Unicode folds to an ASCII letter.
\<close>

definition to_ascii_lowercase_char :: "char \<Rightarrow> char" where
  "to_ascii_lowercase_char c =
     (if 65 \<le> (of_char c :: nat) \<and> (of_char c :: nat) \<le> 90 then char_of ((of_char c :: nat) + 32) else c)"

definition to_ascii_lowercase :: "string \<Rightarrow> string" where
  "to_ascii_lowercase s = map to_ascii_lowercase_char s"

fun fold_kelvin :: "string \<Rightarrow> string" where
  "fold_kelvin (a # b # c # s) =
     (if a = char_of (0xE2 :: nat) \<and> b = char_of (0x84 :: nat) \<and> c = char_of (0xAA :: nat)
      then CHR ''k'' # fold_kelvin s else a # fold_kelvin (b # c # s))"
| "fold_kelvin s = s"

definition to_lowercase :: "string \<Rightarrow> string" where
  "to_lowercase s = fold_kelvin (to_ascii_lowercase s)"

definition policy_from_str :: "string \<Rightarrow> evict_policy" where
  "policy_from_str s =
     (let l = to_lowercase s in
      if l = ''allkeys-lru'' then AllKeysLru
      else if l = ''allkeys-random'' then AllKeysRandom
      else if l = ''allkeys-s3fifo'' then AllKeysS3Fifo
      else if l = ''noeviction'' then NoEviction
      else AllKeysLru)"

definition policy_as_str :: "evict_policy \<Rightarrow> string" where
  "policy_as_str p =
     (case p of
        NoEviction \<Rightarrow> ''noeviction''
      | AllKeysLru \<Rightarrow> ''allkeys-lru''
      | AllKeysRandom \<Rightarrow> ''allkeys-random''
      | AllKeysS3Fifo \<Rightarrow> ''allkeys-s3fifo'')"

text \<open>The policy static \<^verbatim>\<open>EVICTION_POLICY\<close> of \<^verbatim>\<open>src/src/store.rs\<close>, parsed once from the configuration.\<close>

definition policy_of :: "config \<Rightarrow> evict_policy" where
  "policy_of c = policy_from_str (eviction_policy (memory c))"

section \<open>Validation and loading\<close>

definition validate :: "config \<Rightarrow> string + unit" where
  "validate c =
     (if num_shards (server c) = 0 then Inl ''num_shards must be greater than 0''
      else if buffer_size (server c) = 0 then Inl ''buffer_size must be greater than 0''
      else if port (server c) = 0 then Inl ''port must be greater than 0''
      else if max_memory (memory c) > 0 \<and> eviction_sample_size (memory c) = 0
      then Inl ''eviction_sample_size must be > 0 when max_memory is set''
      else Inr ())"

text \<open>
  \<^verbatim>\<open>str::parse\<close> for an unsigned type of the given width: an optional plus sign and
  at least one decimal digit, with a value that fits. For \<^verbatim>\<open>bool\<close>: the two words.
\<close>

definition char_digit :: "char \<Rightarrow> bool" where
  "char_digit c \<longleftrightarrow> 48 \<le> (of_char c :: nat) \<and> (of_char c :: nat) \<le> 57"

definition parse_uint :: "nat \<Rightarrow> string \<Rightarrow> nat option" where
  "parse_uint width s =
     (let ds = (case s of c # rest \<Rightarrow> if c = CHR ''+'' then rest else s | [] \<Rightarrow> []);
          n = foldl (\<lambda>acc c. acc * 10 + ((of_char c :: nat) - 48)) 0 ds
      in if ds \<noteq> [] \<and> list_all char_digit ds \<and> n < 2 ^ width then Some n else None)"

definition parse_bool :: "string \<Rightarrow> bool option" where
  "parse_bool s = (if s = ''true'' then Some True else if s = ''false'' then Some False else None)"

text \<open>
  The three shapes of an environment override: take the text as it is, take the
  parsed number if it parses and keep the field otherwise, take the parsed truth
  value or the given default.
\<close>

type_synonym getenv = "string \<Rightarrow> string option"

definition env_text :: "getenv \<Rightarrow> string \<Rightarrow> (string \<Rightarrow> config \<Rightarrow> config) \<Rightarrow> config \<Rightarrow> config" where
  "env_text env var set_field c = (case env var of Some s \<Rightarrow> set_field s c | None \<Rightarrow> c)"

definition env_uint :: "getenv \<Rightarrow> string \<Rightarrow> nat \<Rightarrow> (nat \<Rightarrow> config \<Rightarrow> config) \<Rightarrow> config \<Rightarrow> config" where
  "env_uint env var width set_field c =
     (case env var of
        Some s \<Rightarrow> (case parse_uint width s of Some n \<Rightarrow> set_field n c | None \<Rightarrow> c)
      | None \<Rightarrow> c)"

definition env_bool :: "getenv \<Rightarrow> string \<Rightarrow> bool \<Rightarrow> (bool \<Rightarrow> config \<Rightarrow> config) \<Rightarrow> config \<Rightarrow> config" where
  "env_bool env var dflt set_field c =
     (case env var of
        Some s \<Rightarrow> set_field (case parse_bool s of Some b \<Rightarrow> b | None \<Rightarrow> dflt) c
      | None \<Rightarrow> c)"

definition env_overrides :: "getenv \<Rightarrow> config \<Rightarrow> config" where
  "env_overrides env c = fold (\<lambda>f. f)
    [env_text env ''REDIS_PASSWORD'' (\<lambda>s. security_update (password_update (\<lambda>_. s))),
     env_uint env ''REDIS_PORT'' 16 (\<lambda>n. server_update (port_update (\<lambda>_. of_nat n))),
     env_text env ''REDIS_BIND'' (\<lambda>s. server_update (bind_update (\<lambda>_. s))),
     env_uint env ''REDIS_HEALTH_CHECK_PORT'' 16
       (\<lambda>n. server_update (health_check_port_update (\<lambda>_. of_nat n))),
     env_uint env ''REDIS_NUM_SHARDS'' 64 (\<lambda>n. server_update (num_shards_update (\<lambda>_. n))),
     env_uint env ''REDIS_BATCH_SIZE'' 64 (\<lambda>n. server_update (batch_size_update (\<lambda>_. n))),
     env_uint env ''REDIS_BUFFER_SIZE'' 64 (\<lambda>n. server_update (buffer_size_update (\<lambda>_. n))),
     env_uint env ''REDIS_BUFFER_POOL_SIZE'' 64
       (\<lambda>n. server_update (buffer_pool_size_update (\<lambda>_. n))),
     env_uint env ''REDIS_MAX_CONNECTIONS'' 64
       (\<lambda>n. server_update (max_connections_update (\<lambda>_. n))),
     env_uint env ''REDIS_MAX_MEMORY'' 64 (\<lambda>n. memory_update (max_memory_update (\<lambda>_. of_nat n))),
     env_text env ''REDIS_EVICTION_POLICY'' (\<lambda>s. memory_update (eviction_policy_update (\<lambda>_. s))),
     env_bool env ''REDIS_TCP_NODELAY'' True (\<lambda>b. performance_update (tcp_nodelay_update (\<lambda>_. b))),
     env_uint env ''REDIS_TCP_KEEPALIVE'' 64
       (\<lambda>n. performance_update (tcp_keepalive_update (\<lambda>_. of_nat n))),
     env_bool env ''REDIS_PERSISTENCE_ENABLED'' False
       (\<lambda>b. persistence_update (enabled_update (\<lambda>_. b))),
     env_text env ''REDIS_SNAPSHOT_PATH'' (\<lambda>s. persistence_update (snapshot_path_update (\<lambda>_. s))),
     env_uint env ''REDIS_SNAPSHOT_INTERVAL'' 64
       (\<lambda>n. persistence_update (snapshot_interval_update (\<lambda>_. of_nat n))),
     env_bool env ''REDIS_SAVE_ON_SHUTDOWN'' True
       (\<lambda>b. persistence_update (save_on_shutdown_update (\<lambda>_. b))),
     env_uint env ''REDIS_SHUTDOWN_GRACE_SECS'' 64
       (\<lambda>n. server_update (shutdown_grace_period_secs_update (\<lambda>_. of_nat n))),
     env_bool env ''REDIS_AOF_ENABLED'' False
       (\<lambda>b. persistence_update (aof_enabled_update (\<lambda>_. b))),
     env_text env ''REDIS_AOF_PATH'' (\<lambda>s. persistence_update (aof_path_update (\<lambda>_. s))),
     env_text env ''REDIS_AOF_FSYNC'' (\<lambda>s. persistence_update (aof_fsync_update (\<lambda>_. s))),
     env_uint env ''REDIS_AOF_REWRITE_MIN_SIZE'' 64
       (\<lambda>n. persistence_update (aof_rewrite_min_size_update (\<lambda>_. of_nat n))),
     env_uint env ''REDIS_AOF_REWRITE_PERCENTAGE'' 64
       (\<lambda>n. persistence_update (aof_rewrite_percentage_update (\<lambda>_. of_nat n)))] c"

text \<open>
  \<open>file path\<close> is \<open>None\<close> when no such file exists; otherwise what reading and
  decoding it gave, \<open>Inl\<close> the error that \<^verbatim>\<open>load\<close> propagates.
\<close>

definition load :: "getenv \<Rightarrow> (string \<Rightarrow> (string + config) option) \<Rightarrow> string + config" where
  "load env file =
     (let config_path = (case env ''REDISTILL_CONFIG'' of Some p \<Rightarrow> p | None \<Rightarrow> ''redistill.toml'') in
      case (case file config_path of None \<Rightarrow> Inr default_config | Some r \<Rightarrow> r) of
        Inl e \<Rightarrow> Inl e
      | Inr c \<Rightarrow>
          (let c = env_overrides env c in
           case validate c of Inl e \<Rightarrow> Inl e | Inr _ \<Rightarrow> Inr c))"

section \<open>Overrides touch one field each\<close>

lemma env_text_frame:
  "(\<And>s c. field (set_field s c) = field c) \<Longrightarrow> field (env_text env var set_field c) = field c"
  by (simp add: env_text_def split: option.split)

lemma env_uint_frame:
  "(\<And>n c. field (set_field n c) = field c) \<Longrightarrow> field (env_uint env var w set_field c) = field c"
  by (simp add: env_uint_def split: option.split)

lemma env_bool_frame:
  "(\<And>b c. field (set_field b c) = field c) \<Longrightarrow> field (env_bool env var d set_field c) = field c"
  by (simp add: env_bool_def split: option.split)

lemma env_text_None: "env var = None \<Longrightarrow> env_text env var set_field c = c"
  by (simp add: env_text_def)

lemma env_uint_None: "env var = None \<Longrightarrow> env_uint env var w set_field c = c"
  by (simp add: env_uint_def)

lemma env_bool_None: "env var = None \<Longrightarrow> env_bool env var d set_field c = c"
  by (simp add: env_bool_def)

lemma env_overrides_max_memory:
  "max_memory (memory (env_overrides env c)) =
     (case env ''REDIS_MAX_MEMORY'' of
        Some s \<Rightarrow> (case parse_uint 64 s of Some n \<Rightarrow> of_nat n | None \<Rightarrow> max_memory (memory c))
      | None \<Rightarrow> max_memory (memory c))"
proof -
  let ?field = "\<lambda>c. max_memory (memory c)"
  have own: "?field (env_uint env ''REDIS_MAX_MEMORY'' 64 (\<lambda>n. memory_update (max_memory_update (\<lambda>_. of_nat n))) c) =
     (case env ''REDIS_MAX_MEMORY'' of
        Some s \<Rightarrow> (case parse_uint 64 s of Some n \<Rightarrow> of_nat n | None \<Rightarrow> ?field c)
      | None \<Rightarrow> ?field c)" for c
    by (simp add: env_uint_def split: option.split)
  note frame = env_text_frame [where field = ?field] env_uint_frame [where field = ?field]
    env_bool_frame [where field = ?field]
  show ?thesis
    by (simp add: env_overrides_def frame own split: option.split)
qed

section \<open>Properties\<close>

text \<open>Every policy name the server prints is read back as that policy, in any mix of
  ASCII upper and lower case, and an unknown name means \<^verbatim>\<open>allkeys-lru\<close>.\<close>

theorem policy_names:
  "policy_from_str (policy_as_str p) = p
   \<and> (to_lowercase s = policy_as_str p \<longrightarrow> policy_from_str s = p)
   \<and> ((\<forall>p. to_lowercase s \<noteq> policy_as_str p) \<longrightarrow> policy_from_str s = AllKeysLru)"
proof (intro conjI impI)
  show "policy_from_str (policy_as_str p) = p"
  proof (cases p)
    case NoEviction
    have "policy_from_str (policy_as_str NoEviction) = NoEviction" by code_simp
    with NoEviction show ?thesis by simp
  next
    case AllKeysLru
    have "policy_from_str (policy_as_str AllKeysLru) = AllKeysLru" by code_simp
    with AllKeysLru show ?thesis by simp
  next
    case AllKeysRandom
    have "policy_from_str (policy_as_str AllKeysRandom) = AllKeysRandom" by code_simp
    with AllKeysRandom show ?thesis by simp
  next
    case AllKeysS3Fifo
    have "policy_from_str (policy_as_str AllKeysS3Fifo) = AllKeysS3Fifo" by code_simp
    with AllKeysS3Fifo show ?thesis by simp
  qed
next
  assume "to_lowercase s = policy_as_str p"
  then show "policy_from_str s = p"
    by (cases p) (simp_all add: policy_from_str_def policy_as_str_def)
next
  assume other: "\<forall>p. to_lowercase s \<noteq> policy_as_str p"
  show "policy_from_str s = AllKeysLru"
    using other [rule_format, of AllKeysRandom] other [rule_format, of AllKeysS3Fifo]
      other [rule_format, of NoEviction]
    by (simp add: policy_from_str_def policy_as_str_def Let_def)
qed

theorem policy_names_witness:
  "policy_from_str ''AllKeys-Random'' = AllKeysRandom"
proof -
  have "to_lowercase ''AllKeys-Random'' = policy_as_str AllKeysRandom" by code_simp
  with policy_names [of AllKeysRandom "''AllKeys-Random''"] show ?thesis by blast
qed

text \<open>C36: A configuration the server starts with is usable: \<^verbatim>\<open>load\<close> only returns
  configurations with at least one shard, a non-empty buffer, a port, and a positive
  eviction sample whenever a memory limit is set.\<close>

theorem load_valid:
  assumes "load env file = Inr c"
  shows "0 < num_shards (server c) \<and> 0 < buffer_size (server c) \<and> port (server c) \<noteq> 0
    \<and> (max_memory (memory c) = 0 \<or> 0 < eviction_sample_size (memory c))"
  using assms
  by (auto simp: load_def validate_def Let_def word_gt_0 split: sum.splits option.splits if_splits)

theorem load_valid_witness:
  "load (\<lambda>_. None) (\<lambda>_. None) = Inr default_config \<and> 0 < num_shards (server default_config)"
proof -
  have l: "load (\<lambda>_. None) (\<lambda>_. None) = Inr default_config"
    by (simp add: load_def env_overrides_def env_text_def env_uint_def env_bool_def validate_def
        default_config_def default_server_def default_memory_def)
  show ?thesis using l load_valid [OF l] by simp
qed

text \<open>The environment wins over the file: when \<^verbatim>\<open>REDIS_MAX_MEMORY\<close> holds a number that
  fits 64 bits, the loaded memory limit is that number; when it is unset or
  unreadable, it is the file's limit, or 0 (no limit) without a file.\<close>

theorem load_max_memory:
  assumes "load env file = Inr c" and "env ''REDISTILL_CONFIG'' = None"
  shows "max_memory (memory c) =
    (case Option.bind (env ''REDIS_MAX_MEMORY'') (parse_uint 64) of
       Some n \<Rightarrow> of_nat n
     | None \<Rightarrow> (case file ''redistill.toml'' of
          Some (Inr fc) \<Rightarrow> max_memory (memory fc)
        | _ \<Rightarrow> 0))"
proof -
  obtain fc where fc: "(case file ''redistill.toml'' of None \<Rightarrow> Inr default_config | Some r \<Rightarrow> r) = Inr fc"
    and c: "c = env_overrides env fc"
    using assms by (auto simp: load_def Let_def split: sum.splits)
  have "max_memory (memory default_config) = 0"
    by (simp add: default_config_def default_memory_def)
  with fc show ?thesis
    unfolding c env_overrides_max_memory
    by (auto split: option.splits sum.splits)
qed

theorem load_max_memory_witness:
  "\<exists>c. load [''REDIS_MAX_MEMORY'' \<mapsto> ''1024''] (\<lambda>_. None) = Inr c \<and> max_memory (memory c) = 1024"
proof -
  let ?env = "[''REDIS_MAX_MEMORY'' \<mapsto> ''1024'']"
  let ?c = "memory_update (max_memory_update (\<lambda>_. 1024)) default_config"
  have p: "parse_uint 64 ''1024'' = Some 1024"
    by (simp add: parse_uint_def char_digit_def)
  have none: "?env ''REDISTILL_CONFIG'' = None" by simp
  have "env_overrides ?env default_config = ?c"
    by (simp add: env_overrides_def env_text_None env_uint_None env_bool_None p
        env_uint_def [of _ "''REDIS_MAX_MEMORY''"])
  moreover have "validate ?c = Inr ()"
    by (simp add: validate_def default_config_def default_server_def default_memory_def)
  ultimately have c: "load ?env (\<lambda>_. None) = Inr ?c"
    unfolding load_def none by simp
  have "max_memory (memory ?c) = 1024"
    unfolding load_max_memory [OF c none] by (simp add: p)
  with c show ?thesis by blast
qed

end
