(* ===== verification/Dash_Map.thy ===== *)
theory Dash_Map
  imports Prelude
begin

text \<open>
  The two map types of the store. \<^verbatim>\<open>std::collections::HashMap\<close>, which holds the fields
  of a hash value, is an association list with distinct keys; its list order is
  the iteration order. \<^verbatim>\<open>DashMap\<close>, which holds the entries of a shard, is a
  third-party crate: it is a parameter of the model, a record of the operations
  the code calls, and the locale \<open>dashmap\<close> states the documented behaviour the
  code relies on. The order in which it iterates is left open.
\<close>

section \<open>HashMap\<close>

type_synonym ('k, 'v) hash_map = "('k \<times> 'v) list"

definition hm_ok :: "('k, 'v) hash_map \<Rightarrow> bool" where
  "hm_ok m \<longleftrightarrow> distinct (map fst m)"

definition hm_get :: "('k, 'v) hash_map \<Rightarrow> 'k \<Rightarrow> 'v option" where
  "hm_get m k = map_of m k"

definition hm_insert :: "('k, 'v) hash_map \<Rightarrow> 'k \<Rightarrow> 'v \<Rightarrow> ('k, 'v) hash_map" where
  "hm_insert m k v = AList.update k v m"

definition hm_remove :: "('k, 'v) hash_map \<Rightarrow> 'k \<Rightarrow> ('k, 'v) hash_map" where
  "hm_remove m k = AList.delete k m"

definition hm_modify :: "('k, 'v) hash_map \<Rightarrow> 'k \<Rightarrow> ('v \<Rightarrow> 'v) \<Rightarrow> ('k, 'v) hash_map" where
  "hm_modify m k f = map (\<lambda>(k', v). (k', if k' = k then f v else v)) m"

lemma hm_ok_Nil [simp]: "hm_ok []"
  by (simp add: hm_ok_def)

lemma hm_ok_insert [simp]: "hm_ok m \<Longrightarrow> hm_ok (hm_insert m k v)"
  by (simp add: hm_ok_def hm_insert_def distinct_update)

lemma hm_ok_remove [simp]: "hm_ok m \<Longrightarrow> hm_ok (hm_remove m k)"
  by (simp add: hm_ok_def hm_remove_def distinct_delete)

lemma hm_get_Nil [simp]: "hm_get [] k = None"
  by (simp add: hm_get_def)

lemma hm_get_insert [simp]: "hm_get (hm_insert m k v) = (hm_get m)(k \<mapsto> v)"
  by (rule ext) (simp add: hm_get_def hm_insert_def update_conv')

lemma hm_get_remove [simp]: "hm_get (hm_remove m k) = (hm_get m)(k := None)"
  by (rule ext) (simp add: hm_get_def hm_remove_def delete_conv')

lemma fst_hm_modify: "map fst (hm_modify m k f) = map fst m"
  by (induction m) (auto simp: hm_modify_def)

lemma hm_get_modify: "hm_get (hm_modify m k f) = (hm_get m)(k := map_option f (hm_get m k))"
  by (rule ext, induction m) (auto simp: hm_modify_def hm_get_def)

section \<open>DashMap\<close>

text \<open>
  \<^verbatim>\<open>insert\<close> and \<^verbatim>\<open>remove\<close> of the crate also return the previous value: sequentially,
  what \<open>dm_get\<close> returns just before. \<open>dm_modify\<close> is an update through a reference
  obtained from \<^verbatim>\<open>get\<close> or \<^verbatim>\<open>get_mut\<close>. \<open>dm_ok\<close> is the crate's own representation
  invariant.
\<close>

record ('m, 'v) dashmap_ops =
  dm_ok :: "'m \<Rightarrow> bool"
  dm_new :: 'm
  dm_get :: "'m \<Rightarrow> bytes \<Rightarrow> 'v option"
  dm_insert :: "'m \<Rightarrow> bytes \<Rightarrow> 'v \<Rightarrow> 'm"
  dm_remove :: "'m \<Rightarrow> bytes \<Rightarrow> 'm"
  dm_modify :: "'m \<Rightarrow> bytes \<Rightarrow> ('v \<Rightarrow> 'v) \<Rightarrow> 'm"
  dm_iter :: "'m \<Rightarrow> (bytes \<times> 'v) list"
  dm_len :: "'m \<Rightarrow> nat"
  dm_clear :: "'m \<Rightarrow> 'm"

text \<open>\<^verbatim>\<open>remove_if\<close>: removes the entry when it exists and satisfies the test; returns what it removed.\<close>

definition dm_remove_if :: "('m, 'v) dashmap_ops \<Rightarrow> 'm \<Rightarrow> bytes \<Rightarrow> ('v \<Rightarrow> bool) \<Rightarrow> 'v option \<times> 'm" where
  "dm_remove_if D m k test =
     (case dm_get D m k of
        Some v \<Rightarrow> if test v then (Some v, dm_remove D m k) else (None, m)
      | None \<Rightarrow> (None, m))"

locale dashmap =
  fixes D :: "('m, 'v) dashmap_ops"
  assumes ok_new [simp]: "dm_ok D (dm_new D)"
    and ok_insert [simp]: "dm_ok D m \<Longrightarrow> dm_ok D (dm_insert D m k v)"
    and ok_remove [simp]: "dm_ok D m \<Longrightarrow> dm_ok D (dm_remove D m k)"
    and ok_modify [simp]: "dm_ok D m \<Longrightarrow> dm_ok D (dm_modify D m k f)"
    and ok_clear [simp]: "dm_ok D m \<Longrightarrow> dm_ok D (dm_clear D m)"
    and get_new [simp]: "dm_get D (dm_new D) k = None"
    and get_insert [simp]: "dm_ok D m \<Longrightarrow> dm_get D (dm_insert D m k v) = (dm_get D m)(k \<mapsto> v)"
    and get_remove [simp]: "dm_ok D m \<Longrightarrow> dm_get D (dm_remove D m k) = (dm_get D m)(k := None)"
    and get_modify [simp]: "dm_ok D m \<Longrightarrow>
      dm_get D (dm_modify D m k f) = (dm_get D m)(k := map_option f (dm_get D m k))"
    and get_clear [simp]: "dm_ok D m \<Longrightarrow> dm_get D (dm_clear D m) k = None"
    and iter_get: "dm_ok D m \<Longrightarrow> map_of (dm_iter D m) = dm_get D m"
    and iter_distinct: "dm_ok D m \<Longrightarrow> distinct (map fst (dm_iter D m))"
    and len_iter [simp]: "dm_ok D m \<Longrightarrow> dm_len D m = length (dm_iter D m)"
begin

lemma iter_mem: "dm_ok D m \<Longrightarrow> (k, v) \<in> set (dm_iter D m) \<longleftrightarrow> dm_get D m k = Some v"
  using iter_get [of m] iter_distinct [of m] by (metis map_of_eq_Some_iff)

lemma finite_dom [simp]: "dm_ok D m \<Longrightarrow> finite (dom (dm_get D m))"
  using iter_get [of m] by (metis finite_dom_map_of)

lemma iter_keys: "dm_ok D m \<Longrightarrow> fst ` set (dm_iter D m) = dom (dm_get D m)"
  using iter_get [of m] by (metis dom_map_of_conv_image_fst)

lemma iter_clear: "dm_ok D m \<Longrightarrow> dm_iter D (dm_clear D m) = []"
  using iter_mem [of "dm_clear D m"] by (metis get_clear list.set_intros(1) neq_Nil_conv
      ok_clear option.distinct(1) surj_pair)

text \<open>A sum over the iteration depends only on the contents, not on the order.\<close>

lemma sum_iter:
  assumes "dm_ok D m"
  shows "(\<Sum>(k, v)\<leftarrow>dm_iter D m. f k v) = (\<Sum>k\<in>dom (dm_get D m). f k (the (dm_get D m k)))"
proof -
  let ?ps = "dm_iter D m"
  have d: "distinct (map fst ?ps)" using assms by (rule iter_distinct)
  have "(\<Sum>(k, v)\<leftarrow>?ps. f k v) = (\<Sum>p\<in>set ?ps. f (fst p) (snd p))"
    using d by (simp add: sum_list_distinct_conv_sum_set distinct_map case_prod_beta)
  also have "\<dots> = (\<Sum>p\<in>set ?ps. f (fst p) (the (dm_get D m (fst p))))"
    using assms by (intro sum.cong) (auto simp: iter_mem)
  also have "\<dots> = (\<Sum>k\<in>fst ` set ?ps. f k (the (dm_get D m k)))"
    using d by (simp add: sum.reindex distinct_map)
  finally show ?thesis using assms by (simp add: iter_keys)
qed

lemma sum_iter_remove:
  fixes f :: "bytes \<Rightarrow> 'v \<Rightarrow> nat"
  assumes "dm_ok D m" and "dm_get D m k = Some v"
  shows "(\<Sum>(k, v)\<leftarrow>dm_iter D m. f k v) = (\<Sum>(k, v)\<leftarrow>dm_iter D (dm_remove D m k). f k v) + f k (v :: 'v)"
proof -
  have dom: "dom (dm_get D m) = insert k (dom (dm_get D m) - {k})"
    using assms(2) by auto
  show ?thesis
    using assms
    by (simp add: sum_iter, subst dom, subst sum.insert) (auto intro!: sum.cong)
qed

lemma sum_iter_insert:
  fixes f :: "bytes \<Rightarrow> 'v \<Rightarrow> nat"
  assumes "dm_ok D m"
  shows "(\<Sum>(k, v)\<leftarrow>dm_iter D (dm_insert D m k v). f k v)
      + (case dm_get D m k of None \<Rightarrow> 0 | Some v' \<Rightarrow> f k v')
    = (\<Sum>(k, v)\<leftarrow>dm_iter D m. f k v) + f k (v :: 'v)"
proof -
  have ins: "(\<Sum>(k, v)\<leftarrow>dm_iter D (dm_insert D m k v). f k v) =
      (\<Sum>k\<in>dom (dm_get D m) - {k}. f k (the (dm_get D m k))) + f k v"
    using assms by (simp add: sum_iter sum.insert_remove)
  show ?thesis
  proof (cases "dm_get D m k")
    case None
    then have "dom (dm_get D m) - {k} = dom (dm_get D m)" by auto
    with None ins assms show ?thesis by (simp add: sum_iter)
  next
    case (Some v')
    with ins sum_iter_remove [OF assms Some, of f] assms show ?thesis
      by (simp add: sum_iter)
  qed
qed

end

text \<open>\<^verbatim>\<open>HashMap\<close> satisfies the contract, so it is consistent.\<close>

definition hash_dashmap :: "((bytes, 'v) hash_map, 'v) dashmap_ops" where
  "hash_dashmap = \<lparr>dm_ok = hm_ok, dm_new = [], dm_get = hm_get, dm_insert = hm_insert,
     dm_remove = hm_remove, dm_modify = hm_modify, dm_iter = (\<lambda>m. m), dm_len = length,
     dm_clear = (\<lambda>_. [])\<rparr>"

interpretation hm: dashmap hash_dashmap
  by unfold_locales
    (simp_all add: hash_dashmap_def hm_get_modify, simp_all add: hm_ok_def fst_hm_modify
      hm_get_def [abs_def])

end
