(* ===== verification/S3Fifo.thy ===== *)
theory S3Fifo
  imports Prelude
begin

text \<open>
  The S3-FIFO bookkeeping of one shard: \<^verbatim>\<open>S3FifoQueues\<close> of \<^verbatim>\<open>src/src/store.rs\<close>. Two key
  queues (small and main), each mirrored by a hash set for constant-time
  membership, and a ghost queue of hashes of keys evicted from the small queue.
  A \<^verbatim>\<open>VecDeque\<close> is a list with its front first, a hash set is a set.
\<close>

section \<open>State\<close>

datatype queue_kind = Small | Main

definition queue_kind_from :: "u8 \<Rightarrow> queue_kind" where
  "queue_kind_from v = (if v = 0 then Small else if v = 1 then Main else Small)"

definition queue_kind_u8 :: "queue_kind \<Rightarrow> u8" where
  "queue_kind_u8 q = (case q of Small \<Rightarrow> 0 | Main \<Rightarrow> 1)"

record ghost_entry =
  key_hash :: u64
  evicted_at :: u64

record s3fifo =
  small_queue :: "bytes list"
  main_queue :: "bytes list"
  ghost_queue :: "ghost_entry list"
  ghost_set :: "u64 set"
  small_set :: "bytes set"
  main_set :: "bytes set"
  small_capacity :: nat
  main_capacity :: nat
  ghost_capacity :: nat

definition s3fifo_new :: "nat \<Rightarrow> nat \<Rightarrow> nat \<Rightarrow> s3fifo" where
  "s3fifo_new small_cap main_cap ghost_cap =
     \<lparr>small_queue = [], main_queue = [], ghost_queue = [], ghost_set = {},
      small_set = {}, main_set = {}, small_capacity = small_cap,
      main_capacity = main_cap, ghost_capacity = ghost_cap\<rparr>"

section \<open>Operations\<close>

definition remove_from_small :: "s3fifo \<Rightarrow> bytes \<Rightarrow> bool \<times> s3fifo" where
  "remove_from_small q key =
     (if key \<in> small_set q
      then (True, q\<lparr>small_set := small_set q - {key},
                    small_queue := filter (\<lambda>k. k \<noteq> key) (small_queue q)\<rparr>)
      else (False, q))"

definition remove_from_main :: "s3fifo \<Rightarrow> bytes \<Rightarrow> bool \<times> s3fifo" where
  "remove_from_main q key =
     (if key \<in> main_set q
      then (True, q\<lparr>main_set := main_set q - {key},
                    main_queue := filter (\<lambda>k. k \<noteq> key) (main_queue q)\<rparr>)
      else (False, q))"

definition is_main_tail :: "s3fifo \<Rightarrow> bytes \<Rightarrow> bool" where
  "is_main_tail q key \<longleftrightarrow> main_queue q \<noteq> [] \<and> last (main_queue q) = key"

text \<open>The loop that pops the oldest keys while the queue is at capacity.\<close>

fun pop_oldest :: "nat \<Rightarrow> bytes list \<Rightarrow> bytes set \<Rightarrow> bytes list \<times> bytes set" where
  "pop_oldest cap [] keys = ([], keys)"
| "pop_oldest cap (oldest # rest) keys =
     (if length (oldest # rest) \<ge> cap then pop_oldest cap rest (keys - {oldest})
      else (oldest # rest, keys))"

definition add_to_small :: "s3fifo \<Rightarrow> bytes \<Rightarrow> s3fifo" where
  "add_to_small q key =
     (if key \<in> small_set q then q
      else let (queue, keys) = pop_oldest (small_capacity q) (small_queue q) (small_set q)
        in q\<lparr>small_set := insert key keys, small_queue := queue @ [key]\<rparr>)"

definition add_to_main :: "s3fifo \<Rightarrow> bytes \<Rightarrow> s3fifo" where
  "add_to_main q key =
     (if key \<in> main_set q then q
      else let (queue, keys) = pop_oldest (main_capacity q) (main_queue q) (main_set q)
        in q\<lparr>main_set := insert key keys, main_queue := queue @ [key]\<rparr>)"

definition reinsert_main_tail :: "s3fifo \<Rightarrow> bytes \<Rightarrow> s3fifo" where
  "reinsert_main_tail q key =
     (if is_main_tail q key then q
      else add_to_main (if key \<in> main_set q then snd (remove_from_main q key) else q) key)"

definition is_in_ghost :: "s3fifo \<Rightarrow> u64 \<Rightarrow> bool" where
  "is_in_ghost q h \<longleftrightarrow> h \<in> ghost_set q"

definition add_to_ghost :: "s3fifo \<Rightarrow> u64 \<Rightarrow> u64 \<Rightarrow> s3fifo" where
  "add_to_ghost q h now =
     (let q = (if length (ghost_queue q) \<ge> ghost_capacity q
               then (case ghost_queue q of
                   [] \<Rightarrow> q
                 | oldest # rest \<Rightarrow> q\<lparr>ghost_queue := rest,
                                      ghost_set := ghost_set q - {key_hash oldest}\<rparr>)
               else q)
      in q\<lparr>ghost_queue := ghost_queue q @ [\<lparr>key_hash = h, evicted_at = now\<rparr>],
           ghost_set := insert h (ghost_set q)\<rparr>)"

definition remove_from_ghost :: "s3fifo \<Rightarrow> u64 \<Rightarrow> s3fifo" where
  "remove_from_ghost q h =
     (if h \<in> ghost_set q
      then q\<lparr>ghost_set := ghost_set q - {h},
             ghost_queue := filter (\<lambda>e. key_hash e \<noteq> h) (ghost_queue q)\<rparr>
      else q)"

section \<open>Invariants\<close>

text \<open>
  \<open>queues_ok\<close>: each set is exactly the set of keys of its queue, no key is queued
  twice, and no queue exceeds its capacity. \<open>ghosts_ok\<close>: the same for the ghost
  queue over the hashes; \<open>queues_ok\<close> keeps only the part that survives a hash
  queued twice.
\<close>

definition queue_ok :: "nat \<Rightarrow> bytes list \<Rightarrow> bytes set \<Rightarrow> bool" where
  "queue_ok cap queue keys \<longleftrightarrow> distinct queue \<and> keys = set queue \<and> length queue \<le> cap"

definition queues_ok :: "s3fifo \<Rightarrow> bool" where
  "queues_ok q \<longleftrightarrow>
     0 < small_capacity q \<and> 0 < main_capacity q \<and> 0 < ghost_capacity q
     \<and> queue_ok (small_capacity q) (small_queue q) (small_set q)
     \<and> queue_ok (main_capacity q) (main_queue q) (main_set q)
     \<and> length (ghost_queue q) \<le> ghost_capacity q
     \<and> ghost_set q \<subseteq> key_hash ` set (ghost_queue q)"

definition ghosts_ok :: "s3fifo \<Rightarrow> bool" where
  "ghosts_ok q \<longleftrightarrow> distinct (map key_hash (ghost_queue q))
     \<and> ghost_set q = key_hash ` set (ghost_queue q)"

section \<open>The contract of an indexed queue\<close>

text \<open>
  The small and the main queue offer the same interface: a bounded first-in
  first-out queue with a membership index. The laws say what adding and removing
  a key do to the queue and to the index; the lemmas below hold for both queues.
\<close>

locale indexed_queue =
  fixes qlist :: "'s \<Rightarrow> bytes list" and qset :: "'s \<Rightarrow> bytes set" and qcap :: "'s \<Rightarrow> nat"
    and qadd :: "'s \<Rightarrow> bytes \<Rightarrow> 's" and qdel :: "'s \<Rightarrow> bytes \<Rightarrow> 's"
  assumes add_known: "k \<in> qset s \<Longrightarrow> qadd s k = s"
    and add_list: "k \<notin> qset s \<Longrightarrow> 0 < qcap s \<Longrightarrow>
      qlist (qadd s k) = drop (length (qlist s) + 1 - qcap s) (qlist s) @ [k]"
    and add_set: "k \<notin> qset s \<Longrightarrow> 0 < qcap s \<Longrightarrow>
      qset (qadd s k) = insert k (qset s - set (take (length (qlist s) + 1 - qcap s) (qlist s)))"
    and add_cap [simp]: "qcap (qadd s k) = qcap s"
    and del_list: "k \<in> qset s \<Longrightarrow> qlist (qdel s k) = filter (\<lambda>x. x \<noteq> k) (qlist s)"
    and del_set: "qset (qdel s k) = qset s - {k}"
    and del_unknown: "k \<notin> qset s \<Longrightarrow> qdel s k = s"
    and del_cap [simp]: "qcap (qdel s k) = qcap s"
begin

abbreviation ok :: "'s \<Rightarrow> bool" where
  "ok s \<equiv> queue_ok (qcap s) (qlist s) (qset s)"

lemma ok_add:
  assumes "ok s" and "0 < qcap s"
  shows "ok (qadd s k)"
proof (cases "k \<in> qset s")
  case True
  with assms show ?thesis by (simp add: add_known)
next
  case False
  let ?n = "length (qlist s) + 1 - qcap s"
  have q: "distinct (qlist s)" "qset s = set (qlist s)" "length (qlist s) \<le> qcap s"
    using assms by (auto simp: queue_ok_def)
  then have "set (take ?n (qlist s)) \<inter> set (drop ?n (qlist s)) = {}"
    by (simp add: set_take_disj_set_drop_if_distinct)
  moreover have "set (qlist s) = set (take ?n (qlist s)) \<union> set (drop ?n (qlist s))"
    by (metis append_take_drop_id set_append)
  ultimately have "qset s - set (take ?n (qlist s)) = set (drop ?n (qlist s))"
    using q(2) by blast
  moreover have "k \<notin> set (drop ?n (qlist s))"
    using False q(2) by (auto dest: in_set_dropD)
  ultimately show ?thesis
    using False assms(2) q by (simp add: queue_ok_def add_list add_set)
qed

lemma ok_del: "ok s \<Longrightarrow> ok (qdel s k)"
  by (cases "k \<in> qset s")
    (auto simp: queue_ok_def del_list del_set del_unknown intro: le_trans [OF length_filter_le])

lemma add_member: "ok s \<Longrightarrow> 0 < qcap s \<Longrightarrow> k \<in> set (qlist (qadd s k))"
  by (cases "k \<in> qset s") (auto simp: queue_ok_def add_known add_list)

lemma del_member: "ok s \<Longrightarrow> k \<notin> set (qlist (qdel s k))"
  by (cases "k \<in> qset s") (auto simp: queue_ok_def del_list del_unknown)

lemma add_evicts_oldest:
  assumes "ok s" and "0 < qcap s" and "k \<notin> qset s"
  shows "qlist (qadd s k) =
    (if length (qlist s) = qcap s then tl (qlist s) else qlist s) @ [k]"
proof (cases "length (qlist s) = qcap s")
  case True
  then show ?thesis using assms by (simp add: add_list drop_Suc)
next
  case False
  then have "length (qlist s) + 1 - qcap s = 0"
    using assms(1) by (auto simp: queue_ok_def)
  with False assms show ?thesis by (simp add: add_list)
qed

end

section \<open>Both queues meet the contract\<close>

lemma pop_oldest_drop:
  "0 < cap \<Longrightarrow> pop_oldest cap queue keys =
    (drop (length queue + 1 - cap) queue, keys - set (take (length queue + 1 - cap) queue))"
proof (induction cap queue keys rule: pop_oldest.induct)
  case (2 cap oldest rest keys)
  then show ?case
    by (cases "cap \<le> length (oldest # rest)") (auto simp: Suc_diff_le)
qed simp

interpretation small: indexed_queue small_queue small_set small_capacity add_to_small
  "\<lambda>q k. snd (remove_from_small q k)"
  by unfold_locales (auto simp: add_to_small_def remove_from_small_def pop_oldest_drop split: prod.splits)

interpretation main: indexed_queue main_queue main_set main_capacity add_to_main
  "\<lambda>q k. snd (remove_from_main q k)"
  by unfold_locales (auto simp: add_to_main_def remove_from_main_def pop_oldest_drop split: prod.splits)

text \<open>An operation on one queue leaves the other queues alone.\<close>

lemma add_to_small_frame [simp]:
  "main_queue (add_to_small q k) = main_queue q" "main_set (add_to_small q k) = main_set q"
  "ghost_queue (add_to_small q k) = ghost_queue q" "ghost_set (add_to_small q k) = ghost_set q"
  "main_capacity (add_to_small q k) = main_capacity q"
  "ghost_capacity (add_to_small q k) = ghost_capacity q"
  by (simp_all add: add_to_small_def split: prod.splits)

lemma add_to_main_frame [simp]:
  "small_queue (add_to_main q k) = small_queue q" "small_set (add_to_main q k) = small_set q"
  "ghost_queue (add_to_main q k) = ghost_queue q" "ghost_set (add_to_main q k) = ghost_set q"
  "small_capacity (add_to_main q k) = small_capacity q"
  "ghost_capacity (add_to_main q k) = ghost_capacity q"
  by (simp_all add: add_to_main_def split: prod.splits)

lemma remove_from_small_frame [simp]:
  "main_queue (snd (remove_from_small q k)) = main_queue q"
  "main_set (snd (remove_from_small q k)) = main_set q"
  "ghost_queue (snd (remove_from_small q k)) = ghost_queue q"
  "ghost_set (snd (remove_from_small q k)) = ghost_set q"
  "main_capacity (snd (remove_from_small q k)) = main_capacity q"
  "ghost_capacity (snd (remove_from_small q k)) = ghost_capacity q"
  by (simp_all add: remove_from_small_def)

lemma remove_from_main_frame [simp]:
  "small_queue (snd (remove_from_main q k)) = small_queue q"
  "small_set (snd (remove_from_main q k)) = small_set q"
  "ghost_queue (snd (remove_from_main q k)) = ghost_queue q"
  "ghost_set (snd (remove_from_main q k)) = ghost_set q"
  "small_capacity (snd (remove_from_main q k)) = small_capacity q"
  "ghost_capacity (snd (remove_from_main q k)) = ghost_capacity q"
  by (simp_all add: remove_from_main_def)

section \<open>Every operation keeps the invariant\<close>

named_theorems queue_intros "preservation of the queue invariant"

lemma queues_ok_new:
  "0 < a \<Longrightarrow> 0 < b \<Longrightarrow> 0 < c \<Longrightarrow> queues_ok (s3fifo_new a b c)"
  by (simp add: s3fifo_new_def queues_ok_def queue_ok_def)

lemma queues_ok_add_to_small [queue_intros]: "queues_ok q \<Longrightarrow> queues_ok (add_to_small q k)"
  using small.ok_add [of q k] by (simp add: queues_ok_def)

lemma queues_ok_add_to_main [queue_intros]: "queues_ok q \<Longrightarrow> queues_ok (add_to_main q k)"
  using main.ok_add [of q k] by (simp add: queues_ok_def)

lemma queues_ok_remove_from_small [queue_intros]:
  "queues_ok q \<Longrightarrow> queues_ok (snd (remove_from_small q k))"
  using small.ok_del [of q k] by (simp add: queues_ok_def)

lemma queues_ok_remove_from_main [queue_intros]:
  "queues_ok q \<Longrightarrow> queues_ok (snd (remove_from_main q k))"
  using main.ok_del [of q k] by (simp add: queues_ok_def)

lemma queues_ok_reinsert_main_tail [queue_intros]:
  "queues_ok q \<Longrightarrow> queues_ok (reinsert_main_tail q k)"
  by (simp add: reinsert_main_tail_def queue_intros)

lemma queues_ok_add_to_ghost [queue_intros]:
  "queues_ok q \<Longrightarrow> queues_ok (add_to_ghost q h now)"
  by (cases "ghost_queue q") (auto simp: queues_ok_def add_to_ghost_def Let_def)

lemma queues_ok_remove_from_ghost [queue_intros]:
  "queues_ok q \<Longrightarrow> queues_ok (remove_from_ghost q h)"
  by (auto simp: queues_ok_def remove_from_ghost_def intro: le_trans [OF length_filter_le])

lemma ghosts_ok_add_to_ghost:
  "ghosts_ok q \<Longrightarrow> h \<notin> ghost_set q \<Longrightarrow> ghosts_ok (add_to_ghost q h now)"
  by (cases "ghost_queue q") (auto simp: ghosts_ok_def add_to_ghost_def Let_def)

lemma ghosts_ok_remove_from_ghost:
  "ghosts_ok q \<Longrightarrow> ghosts_ok (remove_from_ghost q h)"
  by (auto simp: ghosts_ok_def remove_from_ghost_def distinct_map inj_on_def)

lemma reinsert_main_tail_list:
  assumes "queues_ok q" and "k \<in> main_set q"
  shows "main_queue (reinsert_main_tail q k) = filter (\<lambda>x. x \<noteq> k) (main_queue q) @ [k]"
proof -
  have q: "distinct (main_queue q)" "main_set q = set (main_queue q)"
    "length (main_queue q) \<le> main_capacity q" "0 < main_capacity q"
    using assms(1) by (auto simp: queues_ok_def queue_ok_def)
  show ?thesis
  proof (cases "is_main_tail q k")
    case True
    then obtain xs where xs: "main_queue q = xs @ [k]"
      by (metis append_butlast_last_id is_main_tail_def)
    with q(1) have "filter (\<lambda>x. x \<noteq> k) xs = xs"
      by (auto simp: filter_id_conv)
    with True xs show ?thesis by (simp add: reinsert_main_tail_def)
  next
    case False
    let ?q = "snd (remove_from_main q k)"
    have "queues_ok ?q" using assms(1) by (rule queues_ok_remove_from_main)
    then have "main.ok ?q" "0 < main_capacity ?q" by (auto simp: queues_ok_def)
    moreover have "k \<notin> main_set ?q" by (simp add: main.del_set)
    moreover have l: "main_queue ?q = filter (\<lambda>x. x \<noteq> k) (main_queue q)"
      using assms(2) by (rule main.del_list)
    moreover have "length (main_queue ?q) < main_capacity ?q"
      using q assms(2) l length_filter_less [of k "main_queue q" "\<lambda>x. x \<noteq> k"] by simp
    ultimately show ?thesis
      using False assms(2) main.add_evicts_oldest [of ?q k] by (simp add: reinsert_main_tail_def)
  qed
qed

section \<open>Properties\<close>



text \<open>Both key queues are first-in first-out within their capacity: a new key goes to
  the tail and pushes out exactly the oldest key of a full queue, a key already
  queued keeps its place, and a hit on the main queue moves its key to the tail.\<close>

theorem s3fifo_queue_order:
  assumes "queues_ok q"
  shows "(key \<notin> small_set q \<longrightarrow> small_queue (add_to_small q key) =
        (if length (small_queue q) = small_capacity q then tl (small_queue q) else small_queue q) @ [key])
    \<and> (key \<notin> main_set q \<longrightarrow> main_queue (add_to_main q key) =
        (if length (main_queue q) = main_capacity q then tl (main_queue q) else main_queue q) @ [key])
    \<and> (key \<in> small_set q \<longrightarrow> add_to_small q key = q)
    \<and> (key \<in> main_set q \<longrightarrow> add_to_main q key = q)
    \<and> (key \<in> main_set q \<longrightarrow>
        main_queue (reinsert_main_tail q key) = filter (\<lambda>k. k \<noteq> key) (main_queue q) @ [key])"
  using assms reinsert_main_tail_list [OF assms, of key]
    small.add_evicts_oldest [of q key] main.add_evicts_oldest [of q key]
    small.add_known [of key q] main.add_known [of key q]
  by (auto simp: queues_ok_def)

theorem s3fifo_queue_order_witness:
  "small_queue (add_to_small ((s3fifo_new 2 2 2)\<lparr>small_queue := [[1], [2]], small_set := {[1], [2]}\<rparr>) [3])
    = [[2], [3]]"
  using s3fifo_queue_order [of "(s3fifo_new 2 2 2)\<lparr>small_queue := [[1], [2]], small_set := {[1], [2]}\<rparr>" "[3]"]
  by (simp add: queues_ok_def queue_ok_def s3fifo_new_def)

end
