(* ===== verification/Store.thy ===== *)
theory Store
  imports Dash_Map S3Fifo Config
begin

text \<open>
  The sharded store, \<^verbatim>\<open>ShardedStore\<close> of \<^verbatim>\<open>src/src/store.rs\<close>: entries, their sizes, the
  shards, and the operations on string values. One value of \<open>'m db\<close> is the store
  together with the process-wide counters \<^verbatim>\<open>MEMORY_USED\<close> and \<^verbatim>\<open>EVICTED_KEYS\<close>, the
  readings the system clock will give and the numbers \<^verbatim>\<open>fastrand\<close> will draw. What
  does not change after startup is the environment \<open>'m env\<close>: the \<^verbatim>\<open>DashMap\<close>
  implementation, the \<^verbatim>\<open>AHasher\<close> digest, the configuration and the start time.
\<close>

section \<open>Entries\<close>

datatype entry_value = StringV bytes | HashV "(bytes, bytes) hash_map"

record entry =
  val :: entry_value
  expiry :: "u64 option"
  last_accessed :: u32
  queue_type :: u8
  access_count :: u8

definition entry_size :: "nat \<Rightarrow> nat \<Rightarrow> nat" where
  "entry_size key_len value_len = key_len + value_len + 64"

definition calculate_entry_size :: "nat \<Rightarrow> entry_value \<Rightarrow> nat" where
  "calculate_entry_size key_len v =
     (case v of
        StringV b \<Rightarrow> entry_size key_len (length b)
      | HashV h \<Rightarrow> foldl (\<lambda>size (f, x). size + (length f + length x)) (key_len + 64 + 128) h)"

text \<open>\<^verbatim>\<open>expiry.map_or(false, |exp| now >= exp)\<close>: the test written out at every lookup.\<close>

definition expired :: "u64 \<Rightarrow> entry \<Rightarrow> bool" where
  "expired now e = (case expiry e of Some x \<Rightarrow> now \<ge> x | None \<Rightarrow> False)"

section \<open>Environment and state\<close>

record 'm env =
  dash :: "('m, entry) dashmap_ops"
  ahash :: "bytes \<Rightarrow> u64"
  conf :: config
  server_start :: u64

record 'm db =
  shards :: "'m list"
  s3fifo_queues :: "s3fifo list"
  store_num_shards :: nat
  memory_used :: u64
  evicted_keys :: u64
  clock :: "nat \<Rightarrow> u64"
  rng :: "nat \<Rightarrow> u64"

abbreviation memory_limit :: "'m env \<Rightarrow> u64" where
  "memory_limit E \<equiv> max_memory (memory (conf E))"

definition s3fifo_on :: "'m env \<Rightarrow> bool" where
  "s3fifo_on E \<longleftrightarrow> policy_of (conf E) = AllKeysS3Fifo"

text \<open>The next clock reading and the next random numbers.\<close>

definition get_timestamp :: "'m db \<Rightarrow> u64 \<times> 'm db" where
  "get_timestamp s = (clock s 0, s\<lparr>clock := (\<lambda>i. clock s (Suc i))\<rparr>)"

definition get_uptime_seconds :: "'m env \<Rightarrow> 'm db \<Rightarrow> u32 \<times> 'm db" where
  "get_uptime_seconds E s = (let (t, s) = get_timestamp s in (ucast (t - server_start E), s))"

definition draw_u32 :: "'m db \<Rightarrow> u32 \<times> 'm db" where
  "draw_u32 s = (ucast (rng s 0), s\<lparr>rng := (\<lambda>i. rng s (Suc i))\<rparr>)"

definition draw_usize :: "nat \<Rightarrow> 'm db \<Rightarrow> nat \<times> 'm db" where
  "draw_usize n s = (unat (rng s 0) mod n, s\<lparr>rng := (\<lambda>i. rng s (Suc i))\<rparr>)"

text \<open>One access in ten records the uptime; the others record 0 or nothing.\<close>

definition sampled_uptime :: "'m env \<Rightarrow> 'm db \<Rightarrow> u32 option \<times> 'm db" where
  "sampled_uptime E s =
     (let (r, s) = draw_u32 s in
      if r mod 10 = 0 then (let (t, s) = get_uptime_seconds E s in (Some t, s)) else (None, s))"

text \<open>
  \<^verbatim>\<open>(n as f64 * c).ceil() as usize\<close>, where the literal \<open>c\<close> is the double \<open>m / 2 ^ k\<close>. The
  conversion and the product each round to 53 significant bits, ties to even.
\<close>

fun bit_length :: "nat \<Rightarrow> nat" where
  "bit_length n = (if n = 0 then 0 else Suc (bit_length (n div 2)))"

definition round53 :: "nat \<Rightarrow> nat" where
  "round53 p =
     (let sh = bit_length p - 53; q = p div 2 ^ sh; r = p mod 2 ^ sh in
      if 2 * r > 2 ^ sh \<or> (2 * r = 2 ^ sh \<and> odd q) then (q + 1) * 2 ^ sh else q * 2 ^ sh)"

definition f64_mul_ceil :: "nat \<Rightarrow> nat \<Rightarrow> nat \<Rightarrow> nat" where
  "f64_mul_ceil n m k = (round53 (round53 n * m) + 2 ^ k - 1) div 2 ^ k"

definition queue_capacities :: "u64 \<Rightarrow> nat \<Rightarrow> nat \<times> nat \<times> nat" where
  "queue_capacities max_mem n =
     (if max_mem > 0 then
        let per_shard_memory = max_mem div of_nat n;
            estimated_entries = unat (max (per_shard_memory div 256) 100);
            small_cap = f64_mul_ceil estimated_entries 3602879701896397 55;
            main_cap = f64_mul_ceil estimated_entries 8106479329266893 53;
            ghost_cap = f64_mul_ceil estimated_entries 3602879701896397 55
        in (max small_cap 10, max main_cap 10, max ghost_cap 10)
      else (100, 900, 100))"

text \<open>\<^verbatim>\<open>ShardedStore::new\<close>, with the counters at their initial values.\<close>

definition store_new :: "'m env \<Rightarrow> nat \<Rightarrow> (nat \<Rightarrow> u64) \<Rightarrow> (nat \<Rightarrow> u64) \<Rightarrow> 'm db" where
  "store_new E n clk rnd =
     (let (small_cap, main_cap, ghost_cap) = queue_capacities (memory_limit E) n in
      \<lparr>shards = replicate n (dm_new (dash E)),
       s3fifo_queues = replicate n (s3fifo_new small_cap main_cap ghost_cap),
       store_num_shards = n, memory_used = 0, evicted_keys = 0, clock = clk, rng = rnd\<rparr>)"

definition hash :: "'m env \<Rightarrow> 'm db \<Rightarrow> bytes \<Rightarrow> nat" where
  "hash E s key = unat (ahash E key) mod store_num_shards s"

section \<open>Access to one shard\<close>

definition shard_get :: "'m env \<Rightarrow> 'm db \<Rightarrow> bytes \<Rightarrow> entry option" where
  "shard_get E s key = dm_get (dash E) (shards s ! hash E s key) key"

definition shard_insert :: "'m env \<Rightarrow> 'm db \<Rightarrow> bytes \<Rightarrow> entry \<Rightarrow> 'm db" where
  "shard_insert E s key e =
     (let i = hash E s key in s\<lparr>shards := (shards s)[i := dm_insert (dash E) (shards s ! i) key e]\<rparr>)"

definition shard_modify :: "'m env \<Rightarrow> 'm db \<Rightarrow> bytes \<Rightarrow> (entry \<Rightarrow> entry) \<Rightarrow> 'm db" where
  "shard_modify E s key f =
     (let i = hash E s key in s\<lparr>shards := (shards s)[i := dm_modify (dash E) (shards s ! i) key f]\<rparr>)"

text \<open>\<^verbatim>\<open>shard.remove(key)\<close> and \<^verbatim>\<open>shard.remove_if(key, test)\<close> on the shard with a given index.\<close>

definition shard_remove_at :: "'m env \<Rightarrow> 'm db \<Rightarrow> nat \<Rightarrow> bytes \<Rightarrow> entry option \<times> 'm db" where
  "shard_remove_at E s i key =
     (dm_get (dash E) (shards s ! i) key,
      s\<lparr>shards := (shards s)[i := dm_remove (dash E) (shards s ! i) key]\<rparr>)"

definition shard_remove_if_at ::
  "'m env \<Rightarrow> 'm db \<Rightarrow> nat \<Rightarrow> bytes \<Rightarrow> (entry \<Rightarrow> bool) \<Rightarrow> entry option \<times> 'm db" where
  "shard_remove_if_at E s i key test =
     (let (e, m) = dm_remove_if (dash E) (shards s ! i) key test in (e, s\<lparr>shards := (shards s)[i := m]\<rparr>))"

text \<open>An update of the queues of a key's shard under their write lock.\<close>

definition with_queue :: "'m env \<Rightarrow> 'm db \<Rightarrow> bytes \<Rightarrow> (s3fifo \<Rightarrow> s3fifo) \<Rightarrow> 'm db" where
  "with_queue E s key f =
     (let i = hash E s key in s\<lparr>s3fifo_queues := (s3fifo_queues s)[i := f (s3fifo_queues s ! i)]\<rparr>)"

text \<open>\<^verbatim>\<open>if max_memory > 0 { MEMORY_USED.fetch_add / fetch_sub }\<close>: atomics wrap around.\<close>

definition mem_add :: "'m env \<Rightarrow> 'm db \<Rightarrow> nat \<Rightarrow> 'm db" where
  "mem_add E s n = (if memory_limit E > 0 then s\<lparr>memory_used := memory_used s + of_nat n\<rparr> else s)"

definition mem_sub :: "'m env \<Rightarrow> 'm db \<Rightarrow> nat \<Rightarrow> 'm db" where
  "mem_sub E s n = (if memory_limit E > 0 then s\<lparr>memory_used := memory_used s - of_nat n\<rparr> else s)"

section \<open>Queue bookkeeping shared by the operations\<close>

definition unqueue :: "'m env \<Rightarrow> 'm db \<Rightarrow> bytes \<Rightarrow> entry \<Rightarrow> 'm db" where
  "unqueue E s key e =
     with_queue E s key (\<lambda>q.
       case queue_kind_from (queue_type e) of
         Small \<Rightarrow> snd (remove_from_small q key)
       | Main \<Rightarrow> snd (remove_from_main q key))"

text \<open>Before an entry is replaced or deleted, its key leaves its queue.\<close>

definition unqueue_old :: "'m env \<Rightarrow> 'm db \<Rightarrow> bytes \<Rightarrow> 'm db" where
  "unqueue_old E s key =
     (if s3fifo_on E then (case shard_get E s key of Some old \<Rightarrow> unqueue E s key old | None \<Rightarrow> s) else s)"

text \<open>A new key goes to the main queue when its hash is a ghost, to the small queue otherwise.\<close>

definition place_in_queue :: "'m env \<Rightarrow> 'm db \<Rightarrow> bytes \<Rightarrow> u8 \<times> 'm db" where
  "place_in_queue E s key =
     (if s3fifo_on E then
        (let key_hash = ahash E key in
         if is_in_ghost (s3fifo_queues s ! hash E s key) key_hash
         then (queue_kind_u8 Main,
               with_queue E s key (\<lambda>q. add_to_main (remove_from_ghost q key_hash) key))
         else (queue_kind_u8 Small, with_queue E s key (\<lambda>q. add_to_small q key)))
      else (0, s))"

text \<open>
  What a read does to the entry it found: \<^verbatim>\<open>maybe_update_access_time\<close>, then, under
  S3-FIFO, count the access and promote the key from the small to the main queue
  at its second access, or move it to the tail of the main queue.
\<close>

definition maybe_update_access_time :: "'m env \<Rightarrow> 'm db \<Rightarrow> bytes \<Rightarrow> 'm db" where
  "maybe_update_access_time E s key =
     (case sampled_uptime E s of
        (Some t, s) \<Rightarrow> shard_modify E s key (last_accessed_update (\<lambda>_. t))
      | (None, s) \<Rightarrow> s)"

definition track_access :: "'m env \<Rightarrow> 'm db \<Rightarrow> bytes \<Rightarrow> entry \<Rightarrow> 'm db" where
  "track_access E s key e =
     (let s = maybe_update_access_time E s key in
      if s3fifo_on E then
        (case queue_kind_from (queue_type e) of
           Small \<Rightarrow>
             (let s = shard_modify E s key (access_count_update (\<lambda>c. c + 1)) in
              if access_count e + 1 > 1 then
                (let s = with_queue E s key (\<lambda>q. add_to_main (snd (remove_from_small q key)) key)
                 in shard_modify E s key (queue_type_update (\<lambda>_. queue_kind_u8 Main)))
              else s)
         | Main \<Rightarrow> with_queue E s key (\<lambda>q. reinsert_main_tail q key))
      else s)"

text \<open>
  Lazy expiry at a lookup that found an expired entry: remove the entry if it is
  still expired, and give its memory back.
\<close>

definition expire_key :: "'m env \<Rightarrow> 'm db \<Rightarrow> bytes \<Rightarrow> u64 \<Rightarrow> 'm db" where
  "expire_key E s key now =
     (case shard_remove_if_at E s (hash E s key) key (expired now) of
        (Some removed, s) \<Rightarrow> mem_sub E s (calculate_entry_size (length key) (val removed))
      | (None, s) \<Rightarrow> s)"

section \<open>Operations on string values\<close>

definition store_set ::
  "'m env \<Rightarrow> 'm db \<Rightarrow> bytes \<Rightarrow> bytes \<Rightarrow> u64 option \<Rightarrow> u64 \<Rightarrow> nat option \<times> 'm db" where
  "store_set E s key v ttl now =
     (let expiry' = map_option (\<lambda>t. now + t) ttl;
          (sample, s) = sampled_uptime E s;
          timestamp = (case sample of Some t \<Rightarrow> t | None \<Rightarrow> 0);
          s = unqueue_old E s key;
          (qtype, s) = place_in_queue E s key;
          old_entry = shard_get E s key;
          s = shard_insert E s key
                \<lparr>val = StringV v, expiry = expiry', last_accessed = timestamp,
                 queue_type = qtype, access_count = 0\<rparr>
      in (map_option (\<lambda>e. calculate_entry_size (length key) (val e)) old_entry, s))"

definition get_existing_size :: "'m env \<Rightarrow> 'm db \<Rightarrow> bytes \<Rightarrow> u64 \<Rightarrow> nat option" where
  "get_existing_size E s key now =
     (case shard_get E s key of
        Some e \<Rightarrow> if expired now e then None else Some (calculate_entry_size (length key) (val e))
      | None \<Rightarrow> None)"

definition store_get :: "'m env \<Rightarrow> 'm db \<Rightarrow> bytes \<Rightarrow> u64 \<Rightarrow> bytes option \<times> 'm db" where
  "store_get E s key now =
     (case shard_get E s key of
        Some e \<Rightarrow>
          if expired now e then (None, expire_key E s key now)
          else (case val e of StringV v \<Rightarrow> Some v | HashV _ \<Rightarrow> None, track_access E s key e)
      | None \<Rightarrow> (None, s))"

definition key_type :: "'m env \<Rightarrow> 'm db \<Rightarrow> bytes \<Rightarrow> u64 \<Rightarrow> string \<times> 'm db" where
  "key_type E s key now =
     (case shard_get E s key of
        None \<Rightarrow> (''none'', s)
      | Some e \<Rightarrow>
          if expired now e then (''none'', expire_key E s key now)
          else (case val e of StringV _ \<Rightarrow> ''string'' | HashV _ \<Rightarrow> ''hash'', s))"

definition delete_key :: "'m env \<Rightarrow> 'm db \<Rightarrow> bytes \<Rightarrow> u64 \<Rightarrow> bool \<times> 'm db" where
  "delete_key E s key now =
     (let s = unqueue_old E s key in
      case shard_remove_at E s (hash E s key) key of
        (Some e, s) \<Rightarrow> (\<not> expired now e, mem_sub E s (calculate_entry_size (length key) (val e)))
      | (None, s) \<Rightarrow> (False, s))"

fun store_delete :: "'m env \<Rightarrow> 'm db \<Rightarrow> bytes list \<Rightarrow> u64 \<Rightarrow> nat \<times> 'm db" where
  "store_delete E s [] now = (0, s)"
| "store_delete E s (key # ks) now =
     (let (counted, s) = delete_key E s key now;
          (count, s) = store_delete E s ks now
      in (if counted then count + 1 else count, s))"

fun store_exists :: "'m env \<Rightarrow> 'm db \<Rightarrow> bytes list \<Rightarrow> u64 \<Rightarrow> nat" where
  "store_exists E s [] now = 0"
| "store_exists E s (key # ks) now =
     (case shard_get E s key of
        Some e \<Rightarrow> if expired now e then store_exists E s ks now else store_exists E s ks now + 1
      | None \<Rightarrow> store_exists E s ks now)"

definition store_keys :: "'m env \<Rightarrow> 'm db \<Rightarrow> u64 \<Rightarrow> bytes list" where
  "store_keys E s now =
     concat (map (\<lambda>m. map fst (filter (\<lambda>(k, e). \<not> expired now e) (dm_iter (dash E) m))) (shards s))"

definition store_len :: "'m env \<Rightarrow> 'm db \<Rightarrow> nat" where
  "store_len E s = sum_list (map (dm_len (dash E)) (shards s))"

definition store_is_empty :: "'m env \<Rightarrow> 'm db \<Rightarrow> bool" where
  "store_is_empty E s = list_all (\<lambda>m. dm_len (dash E) m = 0) (shards s)"

definition store_clear :: "'m env \<Rightarrow> 'm db \<Rightarrow> 'm db" where
  "store_clear E s = s\<lparr>shards := map (dm_clear (dash E)) (shards s)\<rparr>"

section \<open>Invariant, contents and size\<close>

text \<open>
  \<open>store_ok\<close>: there is one map and one set of queues per shard, all well-formed;
  every key lies in the shard its hash selects; the fields of a hash are distinct.
\<close>

definition entry_ok :: "entry \<Rightarrow> bool" where
  "entry_ok e = (case val e of HashV h \<Rightarrow> hm_ok h | StringV _ \<Rightarrow> True)"

definition shard_ok :: "'m env \<Rightarrow> 'm db \<Rightarrow> nat \<Rightarrow> bool" where
  "shard_ok E s i \<longleftrightarrow> dm_ok (dash E) (shards s ! i)
     \<and> (\<forall>k e. dm_get (dash E) (shards s ! i) k = Some e \<longrightarrow> hash E s k = i \<and> entry_ok e)"

definition store_ok :: "'m env \<Rightarrow> 'm db \<Rightarrow> bool" where
  "store_ok E s \<longleftrightarrow> 0 < store_num_shards s
     \<and> length (shards s) = store_num_shards s \<and> length (s3fifo_queues s) = store_num_shards s
     \<and> (\<forall>i < store_num_shards s. shard_ok E s i)
     \<and> (\<forall>q \<in> set (s3fifo_queues s). queues_ok q)"

text \<open>
  \<open>view\<close>: the stored value and expiry of every key, whether expired or not.
  \<open>keyspace\<close>: what a client can observe at time \<open>now\<close>, with hashes as maps. \<open>total_size\<close>:
  the bytes the entries account for. \<open>drift\<close>: how far \<^verbatim>\<open>MEMORY_USED\<close> is off, modulo
  \<open>2 ^ 64\<close>.
\<close>

definition view :: "'m env \<Rightarrow> 'm db \<Rightarrow> bytes \<rightharpoonup> entry_value \<times> u64 option" where
  "view E s k = map_option (\<lambda>e. (val e, expiry e)) (shard_get E s k)"

datatype content = Str bytes | Fields "bytes \<rightharpoonup> bytes"

definition content_of :: "entry_value \<Rightarrow> content" where
  "content_of v = (case v of StringV b \<Rightarrow> Str b | HashV h \<Rightarrow> Fields (hm_get h))"

definition past :: "u64 \<Rightarrow> u64 option \<Rightarrow> bool" where
  "past now x = (case x of Some t \<Rightarrow> now \<ge> t | None \<Rightarrow> False)"

definition visible :: "u64 \<Rightarrow> entry_value \<times> u64 option \<Rightarrow> (content \<times> u64 option) option" where
  "visible now p = (if past now (snd p) then None else Some (content_of (fst p), snd p))"

definition keyspace :: "'m env \<Rightarrow> 'm db \<Rightarrow> u64 \<Rightarrow> bytes \<rightharpoonup> content \<times> u64 option" where
  "keyspace E s now k = Option.bind (view E s k) (visible now)"

definition size_of :: "bytes \<Rightarrow> entry_value \<Rightarrow> nat" where
  "size_of k v = calculate_entry_size (length k) v"

definition stored_size :: "'m env \<Rightarrow> 'm db \<Rightarrow> bytes \<Rightarrow> nat" where
  "stored_size E s k = (case view E s k of Some (v, _) \<Rightarrow> size_of k v | None \<Rightarrow> 0)"

definition total_size :: "'m env \<Rightarrow> 'm db \<Rightarrow> nat" where
  "total_size E s = sum_list (map (\<lambda>m. \<Sum>(k, e)\<leftarrow>dm_iter (dash E) m. size_of k (val e)) (shards s))"

definition drift :: "'m env \<Rightarrow> 'm db \<Rightarrow> u64" where
  "drift E s = memory_used s - of_nat (total_size E s)"

declare bit_length.simps [simp del]

lemma expired_past: "expired now e = past now (expiry e)"
  by (simp add: expired_def past_def)

lemma calculate_entry_size_simps [simp]:
  "calculate_entry_size n (StringV b) = n + length b + 64"
  "calculate_entry_size n (HashV h) = n + 192 + (\<Sum>(f, x)\<leftarrow>h. length f + length x)"
proof -
  have "foldl (\<lambda>size (f, x). size + (length f + length x)) a h = a + (\<Sum>(f, x)\<leftarrow>h. length f + length x)"
    for a and h :: "(bytes, bytes) hash_map"
    by (induction h arbitrary: a) auto
  then show "calculate_entry_size n (HashV h) = n + 192 + (\<Sum>(f, x)\<leftarrow>h. length f + length x)"
    by (simp add: calculate_entry_size_def)
qed (simp add: calculate_entry_size_def entry_size_def)

lemma stored_size_shard:
  "stored_size E s k = (case shard_get E s k of Some e \<Rightarrow> size_of k (val e) | None \<Rightarrow> 0)"
  by (simp add: stored_size_def view_def split: option.split)

section \<open>Updates that leave the entries alone\<close>

text \<open>
  \<open>same_entries\<close> relates states that differ only in the queues, the clock, the
  random numbers and the counters.
\<close>

definition same_entries :: "'m db \<Rightarrow> 'm db \<Rightarrow> bool" where
  "same_entries s s' \<longleftrightarrow> shards s' = shards s \<and> store_num_shards s' = store_num_shards s"

lemma same_entriesD:
  assumes "same_entries s s'"
  shows "hash E s' = hash E s" and "shard_get E s' = shard_get E s" and "view E s' = view E s"
    and "total_size E s' = total_size E s"
proof -
  show h: "hash E s' = hash E s" using assms by (simp add: same_entries_def hash_def fun_eq_iff)
  show g: "shard_get E s' = shard_get E s"
    using assms h by (simp add: same_entries_def shard_get_def fun_eq_iff)
  show "view E s' = view E s" by (simp add: view_def g fun_eq_iff)
  show "total_size E s' = total_size E s" using assms by (simp add: same_entries_def total_size_def)
qed

lemma same_entries_refl [simp]: "same_entries s s"
  by (simp add: same_entries_def)

lemma same_entries_trans: "same_entries a b \<Longrightarrow> same_entries b c \<Longrightarrow> same_entries a c"
  by (simp add: same_entries_def)

lemma same_entries_with_queue [simp]: "same_entries s (with_queue E s k f)"
  by (simp add: same_entries_def with_queue_def Let_def)

lemma same_entries_sampled_uptime [simp]: "same_entries s (snd (sampled_uptime E s))"
  by (simp add: same_entries_def sampled_uptime_def get_uptime_seconds_def get_timestamp_def draw_u32_def)

lemma same_entries_mem [simp]: "same_entries s (mem_add E s n)" "same_entries s (mem_sub E s n)"
  by (simp_all add: same_entries_def mem_add_def mem_sub_def)

lemma same_entries_unqueue [simp]: "same_entries s (unqueue E s k e)"
  by (simp add: unqueue_def)

lemma same_entries_unqueue_old [simp]: "same_entries s (unqueue_old E s k)"
  by (simp add: unqueue_old_def split: option.split)

lemma same_entries_place [simp]: "same_entries s (snd (place_in_queue E s k))"
  by (simp add: place_in_queue_def Let_def)

lemmas view_simps [simp] =
  same_entriesD [OF same_entries_with_queue] same_entriesD [OF same_entries_sampled_uptime]
  same_entriesD [OF same_entries_mem(1)] same_entriesD [OF same_entries_mem(2)]
  same_entriesD [OF same_entries_unqueue] same_entriesD [OF same_entries_unqueue_old]
  same_entriesD [OF same_entries_place]

lemma counters_with_queue [simp]:
  "memory_used (with_queue E s k f) = memory_used s" "evicted_keys (with_queue E s k f) = evicted_keys s"
  by (simp_all add: with_queue_def Let_def)

lemma counters_sampled_uptime [simp]:
  "memory_used (snd (sampled_uptime E s)) = memory_used s"
  "evicted_keys (snd (sampled_uptime E s)) = evicted_keys s"
  by (simp_all add: sampled_uptime_def get_uptime_seconds_def get_timestamp_def draw_u32_def)

lemma counters_queueing [simp]:
  "memory_used (unqueue E s k e) = memory_used s" "evicted_keys (unqueue E s k e) = evicted_keys s"
  "memory_used (snd (place_in_queue E s k)) = memory_used s"
  "evicted_keys (snd (place_in_queue E s k)) = evicted_keys s"
  "memory_used (unqueue_old E s k) = memory_used s"
  by (simp_all add: unqueue_def unqueue_old_def place_in_queue_def Let_def split: option.split)

lemma counters_shard [simp]:
  "memory_used (shard_insert E s k e) = memory_used s"
  "memory_used (shard_modify E s k g) = memory_used s"
  "memory_used (snd (shard_remove_at E s i k)) = memory_used s"
  "memory_used (snd (shard_remove_if_at E s i k t)) = memory_used s"
  by (simp_all add: shard_insert_def shard_modify_def shard_remove_at_def shard_remove_if_at_def Let_def
      case_prod_beta)

section \<open>The store over a lawful DashMap\<close>

lemma sum_list_update_at:
  fixes f :: "'a \<Rightarrow> nat"
  shows "i < length xs \<Longrightarrow>
    sum_list (map f (xs[i := y])) + f (xs ! i) = sum_list (map f xs) + f y"
  by (induction xs arbitrary: i) (auto split: nat.split)

named_theorems ok_intros "preservation of the store invariant"

lemma queue_capacities_pos:
  "queue_capacities mem n = (a, b, c) \<Longrightarrow> 0 < a \<and> 0 < b \<and> 0 < c"
  by (auto simp: queue_capacities_def Let_def split: if_splits)

locale store_env = dashmap "dash E" for E :: "'m env"
begin

lemma hash_less: "store_ok E s \<Longrightarrow> hash E s k < store_num_shards s"
  by (simp add: store_ok_def hash_def)

lemma shard_ok_at: "store_ok E s \<Longrightarrow> i < store_num_shards s \<Longrightarrow> shard_ok E s i"
  by (simp add: store_ok_def)

lemma dm_ok_at [simp]: "store_ok E s \<Longrightarrow> i < store_num_shards s \<Longrightarrow> dm_ok (dash E) (shards s ! i)"
  using shard_ok_at by (auto simp: shard_ok_def)

lemma dm_ok_hash [simp]: "store_ok E s \<Longrightarrow> dm_ok (dash E) (shards s ! hash E s k)"
  by (simp add: hash_less)

lemma entry_ok_at: "store_ok E s \<Longrightarrow> shard_get E s k = Some e \<Longrightarrow> entry_ok e"
  using shard_ok_at [OF _ hash_less] by (auto simp: shard_ok_def shard_get_def)

lemma get_at: "store_ok E s \<Longrightarrow> i < store_num_shards s \<Longrightarrow>
    dm_get (dash E) (shards s ! i) k = Some e \<longleftrightarrow> shard_get E s k = Some e \<and> hash E s k = i"
  using shard_ok_at [of s i] by (auto simp: shard_ok_def shard_get_def)

text \<open>Replacing one shard by a map that keeps the invariant.\<close>

lemma store_ok_replace:
  assumes "store_ok E s" and "i < store_num_shards s" and "dm_ok (dash E) m"
    and "\<And>k e. dm_get (dash E) m k = Some e \<Longrightarrow> hash E s k = i \<and> entry_ok e"
  shows "store_ok E (s\<lparr>shards := (shards s)[i := m]\<rparr>)"
  using assms by (auto simp: store_ok_def shard_ok_def hash_def nth_list_update)

lemma shard_get_replace:
  assumes "store_ok E s"
  shows "shard_get E (s\<lparr>shards := (shards s)[hash E s k := m]\<rparr>) k' =
    (if hash E s k' = hash E s k then dm_get (dash E) m k' else shard_get E s k')"
  using assms hash_less [of s] by (auto simp: shard_get_def hash_def store_ok_def nth_list_update)

lemma shard_get_insert [simp]:
  "store_ok E s \<Longrightarrow> shard_get E (shard_insert E s k e) = (shard_get E s)(k \<mapsto> e)"
  by (rule ext) (simp add: shard_insert_def Let_def shard_get_replace, simp add: shard_get_def)

lemma shard_get_modify [simp]:
  "store_ok E s \<Longrightarrow> shard_get E (shard_modify E s k f) = (shard_get E s)(k := map_option f (shard_get E s k))"
  by (rule ext) (simp add: shard_modify_def Let_def shard_get_replace, simp add: shard_get_def)

lemma shard_get_remove [simp]:
  "store_ok E s \<Longrightarrow> shard_get E (snd (shard_remove_at E s (hash E s k) k)) = (shard_get E s)(k := None)"
  by (rule ext) (simp add: shard_remove_at_def Let_def shard_get_replace, simp add: shard_get_def)

lemma fst_shard_remove [simp]: "fst (shard_remove_at E s (hash E s k) k) = shard_get E s k"
  by (simp add: shard_remove_at_def shard_get_def)

lemma hash_shard [simp]:
  "hash E (shard_insert E s k e) = hash E s" "hash E (shard_modify E s k f) = hash E s"
  "hash E (snd (shard_remove_at E s i k)) = hash E s"
  by (simp_all add: hash_def fun_eq_iff shard_insert_def shard_modify_def shard_remove_at_def Let_def)

lemma shard_remove_if_conv:
  "store_ok E s \<Longrightarrow> shard_remove_if_at E s (hash E s k) k test =
    (case shard_get E s k of
       Some e \<Rightarrow> if test e then (Some e, snd (shard_remove_at E s (hash E s k) k)) else (None, s)
     | None \<Rightarrow> (None, s))"
  by (simp add: shard_remove_if_at_def dm_remove_if_def shard_get_def shard_remove_at_def split: option.split)

lemma ok_insert_entry [ok_intros]:
  assumes "store_ok E s" and "entry_ok e"
  shows "store_ok E (shard_insert E s k e)"
  unfolding shard_insert_def Let_def
  using assms hash_less [of s k]
  by (intro store_ok_replace) (auto simp: get_at [OF assms(1)] entry_ok_at split: if_splits)

lemma ok_modify_entry [ok_intros]:
  assumes "store_ok E s" and "\<And>e. shard_get E s k = Some e \<Longrightarrow> entry_ok e \<Longrightarrow> entry_ok (f e)"
  shows "store_ok E (shard_modify E s k f)"
  unfolding shard_modify_def Let_def
  using assms hash_less [of s k]
  by (intro store_ok_replace) (auto simp: get_at [OF assms(1)] entry_ok_at split: if_splits)

lemma ok_remove_at [ok_intros]:
  assumes "store_ok E s" and "i < store_num_shards s"
  shows "store_ok E (snd (shard_remove_at E s i k))"
  unfolding shard_remove_at_def snd_conv
  using assms by (intro store_ok_replace) (auto simp: get_at [OF assms(1)] entry_ok_at split: if_splits)

lemma ok_same_entries:
  assumes "store_ok E s" and "same_entries s s'" and "s3fifo_queues s' = s3fifo_queues s"
  shows "store_ok E s'"
  using assms by (simp add: store_ok_def shard_ok_def same_entries_def hash_def)

lemma ok_mem [ok_intros]: "store_ok E s \<Longrightarrow> store_ok E (mem_add E s n)" "store_ok E s \<Longrightarrow> store_ok E (mem_sub E s n)"
  by (rule ok_same_entries, assumption, simp, simp add: mem_add_def mem_sub_def)+

lemma ok_sampled_uptime [ok_intros]: "store_ok E s \<Longrightarrow> store_ok E (snd (sampled_uptime E s))"
  by (rule ok_same_entries, assumption, simp)
    (simp add: sampled_uptime_def get_uptime_seconds_def get_timestamp_def draw_u32_def)

lemma ok_with_queue [ok_intros]:
  assumes "store_ok E s" and "\<And>q. queues_ok q \<Longrightarrow> queues_ok (f q)"
  shows "store_ok E (with_queue E s k f)"
proof -
  have "queues_ok (s3fifo_queues s ! hash E s k)"
    using assms(1) hash_less [of s k] by (simp add: store_ok_def)
  then have "\<forall>q \<in> set ((s3fifo_queues s)[hash E s k := f (s3fifo_queues s ! hash E s k)]). queues_ok q"
    using assms by (auto simp: store_ok_def dest!: set_update_subset_insert [THEN subsetD])
  then show ?thesis
    using assms(1) by (simp add: store_ok_def shard_ok_def with_queue_def Let_def hash_def)
qed

lemma ok_unqueue [ok_intros]: "store_ok E s \<Longrightarrow> store_ok E (unqueue E s k e)"
  unfolding unqueue_def
  by (rule ok_with_queue) (auto intro: queue_intros split: queue_kind.split)

lemma ok_unqueue_old [ok_intros]: "store_ok E s \<Longrightarrow> store_ok E (unqueue_old E s k)"
  by (simp add: unqueue_old_def ok_unqueue split: option.split)

lemma ok_place [ok_intros]: "store_ok E s \<Longrightarrow> store_ok E (snd (place_in_queue E s k))"
  by (auto simp: place_in_queue_def Let_def intro!: ok_with_queue queue_intros)

text \<open>The contents of the store after each update of a shard.\<close>

lemma view_insert [simp]:
  "store_ok E s \<Longrightarrow> view E (shard_insert E s k e) = (view E s)(k \<mapsto> (val e, expiry e))"
  by (simp add: view_def fun_eq_iff)

lemma view_remove [simp]:
  "store_ok E s \<Longrightarrow> view E (snd (shard_remove_at E s (hash E s k) k)) = (view E s)(k := None)"
  by (simp add: view_def fun_eq_iff)

lemma view_modify:
  "store_ok E s \<Longrightarrow> view E (shard_modify E s k f) =
    (view E s)(k := map_option (\<lambda>e. (val (f e), expiry (f e))) (shard_get E s k))"
  by (simp add: view_def fun_eq_iff option.map_comp comp_def)

lemma view_modify_same [simp]:
  "store_ok E s \<Longrightarrow> (\<And>e. val (f e) = val e \<and> expiry (f e) = expiry e) \<Longrightarrow>
    view E (shard_modify E s k f) = view E s"
  by (rule ext) (simp add: view_modify view_def)

lemma dom_view: "store_ok E s \<Longrightarrow> dom (view E s) = (\<Union>i < store_num_shards s. dom (dm_get (dash E) (shards s ! i)))"
  by (auto simp: view_def dom_def get_at) (metis hash_less shard_get_def)

lemma finite_dom_view [simp]: "store_ok E s \<Longrightarrow> finite (dom (view E s))"
  by (simp add: dom_view)

text \<open>The total size is a function of the contents.\<close>

lemma total_view:
  assumes ok: "store_ok E s"
  shows "total_size E s = (\<Sum>k \<in> dom (view E s). size_of k (fst (the (view E s k))))"
proof -
  let ?n = "store_num_shards s" and ?get = "\<lambda>i. dm_get (dash E) (shards s ! i)"
  have "total_size E s = (\<Sum>i<?n. \<Sum>(k, e)\<leftarrow>dm_iter (dash E) (shards s ! i). size_of k (val e))"
    using ok by (simp add: total_size_def store_ok_def sum_list_sum_nth atLeast0LessThan)
  also have "\<dots> = (\<Sum>i<?n. \<Sum>k\<in>dom (?get i). size_of k (val (the (?get i k))))"
    using ok by (intro sum.cong refl sum_iter) simp
  also have "\<dots> = (\<Sum>i<?n. \<Sum>k\<in>dom (?get i). size_of k (fst (the (view E s k))))"
    using ok by (intro sum.cong refl) (auto simp: view_def get_at simp flip: shard_get_def)
  also have "\<dots> = (\<Sum>k\<in>(\<Union>i<?n. dom (?get i)). size_of k (fst (the (view E s k))))"
    using ok by (intro sum.UNION_disjoint [symmetric]) (auto simp: get_at)
  finally show ?thesis by (simp add: dom_view ok)
qed

lemma total_split:
  assumes "store_ok E s"
  shows "total_size E s = (\<Sum>k' \<in> dom (view E s) - {k}. size_of k' (fst (the (view E s k')))) + stored_size E s k"
proof (cases "view E s k")
  case None
  then have "dom (view E s) - {k} = dom (view E s)" by auto
  with None assms show ?thesis by (simp add: total_view stored_size_def)
next
  case (Some p)
  then have "k \<in> dom (view E s)" by auto
  with Some assms show ?thesis
    unfolding total_view [OF assms] by (subst sum.remove [of _ k]) (auto simp: stored_size_def)
qed

lemma total_update:
  assumes "store_ok E s" and "store_ok E s'" and "\<And>k'. k' \<noteq> k \<Longrightarrow> view E s' k' = view E s k'"
  shows "total_size E s' + stored_size E s k = total_size E s + stored_size E s' k"
proof -
  have "dom (view E s') - {k} = dom (view E s) - {k}"
    using assms(3) by (auto simp: dom_def)
  then have "(\<Sum>k' \<in> dom (view E s') - {k}. size_of k' (fst (the (view E s' k'))))
      = (\<Sum>k' \<in> dom (view E s) - {k}. size_of k' (fst (the (view E s k'))))"
    using assms(3) by (auto intro!: sum.cong)
  then show ?thesis
    using total_split [OF assms(1), of k] total_split [OF assms(2), of k] by simp
qed

lemma total_cong: "store_ok E s \<Longrightarrow> store_ok E s' \<Longrightarrow> view E s' = view E s \<Longrightarrow> total_size E s' = total_size E s"
  by (simp add: total_view)

text \<open>
  A step that changes one key keeps the drift if it moves \<^verbatim>\<open>MEMORY_USED\<close> by the
  difference of the sizes.
\<close>

lemma drift_update:
  assumes "store_ok E s" and "store_ok E s'" and "\<And>k'. k' \<noteq> k \<Longrightarrow> view E s' k' = view E s k'"
    and "memory_used s' = memory_used s + of_nat (stored_size E s' k) - of_nat (stored_size E s k)"
  shows "drift E s' = drift E s"
proof -
  have "(of_nat (total_size E s') :: u64) + of_nat (stored_size E s k) = of_nat (total_size E s) + of_nat (stored_size E s' k)"
    using total_update [OF assms(1-3)] by (metis of_nat_add)
  then show ?thesis
    unfolding drift_def assms(4) by (simp add: algebra_simps)
qed

lemma drift_cong:
  "store_ok E s \<Longrightarrow> store_ok E s' \<Longrightarrow> view E s' = view E s \<Longrightarrow> memory_used s' = memory_used s \<Longrightarrow>
    drift E s' = drift E s"
  using total_cong [of s s'] by (simp add: drift_def)

text \<open>Recording an access and lazy expiry.\<close>

lemma maybe_update_conv:
  "maybe_update_access_time E s k =
    (case fst (sampled_uptime E s) of
       Some t \<Rightarrow> shard_modify E (snd (sampled_uptime E s)) k (last_accessed_update (\<lambda>_. t))
     | None \<Rightarrow> snd (sampled_uptime E s))"
  by (simp add: maybe_update_access_time_def case_prod_beta split: option.split)

lemma ok_maybe_update [ok_intros]: "store_ok E s \<Longrightarrow> store_ok E (maybe_update_access_time E s k)"
  by (auto simp: maybe_update_conv entry_ok_def intro!: ok_intros split: option.split)

lemma maybe_update_simps [simp]:
  "store_ok E s \<Longrightarrow> view E (maybe_update_access_time E s k) = view E s"
  "memory_used (maybe_update_access_time E s k) = memory_used s"
  by (simp_all add: maybe_update_conv ok_intros split: option.split)

lemma ok_track_access [ok_intros]: "store_ok E s \<Longrightarrow> store_ok E (track_access E s k e)"
  by (auto simp: track_access_def Let_def entry_ok_def intro!: ok_intros queue_intros split: queue_kind.split)

lemma ok_modify_same [ok_intros]:
  "store_ok E s \<Longrightarrow> (\<And>e. val (f e) = val e) \<Longrightarrow> store_ok E (shard_modify E s k f)"
  by (rule ok_modify_entry) (simp_all add: entry_ok_def)

lemma track_access_simps [simp]:
  "store_ok E s \<Longrightarrow> view E (track_access E s k e) = view E s"
  "memory_used (track_access E s k e) = memory_used s"
proof -
  show "memory_used (track_access E s k e) = memory_used s"
    by (simp add: track_access_def Let_def split: queue_kind.split)
  assume ok: "store_ok E s"
  have promote: "store_ok E s' \<Longrightarrow> store_ok E (with_queue E s' k (\<lambda>q. add_to_main (snd (remove_from_small q k)) k))" for s'
    by (intro ok_intros queue_intros)
  show "view E (track_access E s k e) = view E s"
    using ok by (simp add: track_access_def Let_def promote ok_intros split: queue_kind.split)
qed

lemma expire_key_conv:
  assumes "store_ok E s"
  shows "expire_key E s k now =
    (case shard_get E s k of
       Some e \<Rightarrow> if expired now e
         then mem_sub E (snd (shard_remove_at E s (hash E s k) k)) (size_of k (val e)) else s
     | None \<Rightarrow> s)"
  using assms by (simp add: expire_key_def shard_remove_if_conv size_of_def split: option.split)

lemma ok_expire_key [ok_intros]: "store_ok E s \<Longrightarrow> store_ok E (expire_key E s k now)"
  by (auto simp: expire_key_conv hash_less intro!: ok_intros split: option.split)

lemma view_expire_key:
  "store_ok E s \<Longrightarrow> view E (expire_key E s k now) =
    (view E s)(k := (case view E s k of Some (v, x) \<Rightarrow> if past now x then None else Some (v, x) | None \<Rightarrow> None))"
  by (auto simp: expire_key_conv expired_past view_def fun_eq_iff split: option.split)

lemma keyspace_expire_key [simp]: "store_ok E s \<Longrightarrow> keyspace E (expire_key E s k now) now = keyspace E s now"
  by (auto simp: keyspace_def view_expire_key visible_def fun_eq_iff split: option.split)

lemma drift_expire_key [simp]:
  assumes "store_ok E s" and "memory_limit E > 0"
  shows "drift E (expire_key E s k now) = drift E s"
proof (rule drift_update [OF assms(1) ok_expire_key [OF assms(1)], of k])
  show "view E (expire_key E s k now) k' = view E s k'" if "k' \<noteq> k" for k'
    using assms that by (simp add: view_expire_key)
  show "memory_used (expire_key E s k now) =
      memory_used s + of_nat (stored_size E (expire_key E s k now) k) - of_nat (stored_size E s k)"
    using assms
    by (auto simp: stored_size_def view_expire_key)
      (auto simp: view_def expire_key_conv expired_past mem_sub_def split: option.split)
qed

text \<open>\<^verbatim>\<open>set\<close>: the state before the insertion differs from the first one in bookkeeping only.\<close>

lemma store_set_conv:
  assumes ok: "store_ok E s"
  obtains s1 t q where "store_ok E s1" and "same_entries s s1" and "memory_used s1 = memory_used s"
    and "store_set E s k v ttl now = (map_option (\<lambda>e. size_of k (val e)) (shard_get E s k),
      shard_insert E s1 k \<lparr>val = StringV v, expiry = map_option (\<lambda>t. now + t) ttl, last_accessed = t,
        queue_type = q, access_count = 0\<rparr>)"
proof -
  define s0 where "s0 = snd (sampled_uptime E s)"
  define s1 where "s1 = snd (place_in_queue E (unqueue_old E s0 k) k)"
  have ok1: "store_ok E s1"
    using ok by (simp add: s0_def s1_def ok_intros)
  have same: "same_entries s s1"
    by (rule same_entries_trans [of _ s0], simp add: s0_def,
        rule same_entries_trans [of _ "unqueue_old E s0 k"]) (simp_all add: s1_def)
  have mem: "memory_used s1 = memory_used s"
    by (simp add: s1_def s0_def)
  show ?thesis
    by (rule that [OF ok1 same mem, of "case fst (sampled_uptime E s) of Some t \<Rightarrow> t | None \<Rightarrow> 0"
          "fst (place_in_queue E (unqueue_old E s0 k) k)"])
      (simp add: store_set_def s0_def s1_def case_prod_beta Let_def size_of_def)
qed

lemma ok_store_set [ok_intros]:
  assumes "store_ok E s"
  shows "store_ok E (snd (store_set E s k v ttl now))"
  by (rule store_set_conv [OF assms, of k v ttl now]) (simp add: ok_insert_entry entry_ok_def)

lemma store_set_effect:
  assumes "store_ok E s"
  shows "view E (snd (store_set E s k v ttl now)) =
      (view E s)(k \<mapsto> (StringV v, map_option (\<lambda>t. now + t) ttl))"
    and "memory_used (snd (store_set E s k v ttl now)) = memory_used s"
    and "fst (store_set E s k v ttl now) = map_option (\<lambda>(u, _). size_of k u) (view E s k)"
  by (rule store_set_conv [OF assms, of k v ttl now];
      simp add: same_entriesD view_def option.map_comp comp_def)+

lemma ok_store_get [ok_intros]: "store_ok E s \<Longrightarrow> store_ok E (snd (store_get E s k now))"
  by (simp add: store_get_def ok_intros split: option.split)

lemma store_get_effect:
  assumes "store_ok E s"
  shows "fst (store_get E s k now) = (case keyspace E s now k of Some (Str v, _) \<Rightarrow> Some v | _ \<Rightarrow> None)"
    and "keyspace E (snd (store_get E s k now)) now = keyspace E s now"
    and "memory_limit E > 0 \<Longrightarrow> drift E (snd (store_get E s k now)) = drift E s"
proof -
  show "fst (store_get E s k now) = (case keyspace E s now k of Some (Str v, _) \<Rightarrow> Some v | _ \<Rightarrow> None)"
    by (auto simp: store_get_def keyspace_def view_def visible_def content_of_def expired_past
        split: option.split entry_value.split)
  show "keyspace E (snd (store_get E s k now)) now = keyspace E s now"
    using assms by (auto simp: store_get_def split: option.split) (simp add: keyspace_def fun_eq_iff)
  show "drift E (snd (store_get E s k now)) = drift E s" if "memory_limit E > 0"
    using assms that by (auto simp: store_get_def ok_intros intro!: drift_cong split: option.split)
qed

lemma key_type_effect:
  assumes "store_ok E s"
  shows "fst (key_type E s k now) =
      (case keyspace E s now k of Some (Str _, _) \<Rightarrow> ''string'' | Some (Fields _, _) \<Rightarrow> ''hash'' | None \<Rightarrow> ''none'')"
    and "keyspace E (snd (key_type E s k now)) now = keyspace E s now"
    and "store_ok E (snd (key_type E s k now))"
    and "memory_limit E > 0 \<Longrightarrow> drift E (snd (key_type E s k now)) = drift E s"
  using assms
  by (auto simp: key_type_def keyspace_def view_def visible_def content_of_def expired_past ok_intros
      split: option.split entry_value.split)

text \<open>\<^verbatim>\<open>delete\<close>, one key at a time.\<close>

lemma delete_key_conv:
  "delete_key E s k now =
    (let s' = snd (shard_remove_at E (unqueue_old E s k) (hash E s k) k) in
     case shard_get E s k of
       Some e \<Rightarrow> (\<not> expired now e, mem_sub E s' (size_of k (val e)))
     | None \<Rightarrow> (False, s'))"
  by (simp add: delete_key_def shard_remove_at_def shard_get_def [symmetric] size_of_def Let_def
      split: option.split)

lemma delete_key_effect:
  assumes "store_ok E s"
  shows "store_ok E (snd (delete_key E s k now))"
    and "view E (snd (delete_key E s k now)) = (view E s)(k := None)"
    and "fst (delete_key E s k now) \<longleftrightarrow> keyspace E s now k \<noteq> None"
    and "memory_limit E > 0 \<Longrightarrow> drift E (snd (delete_key E s k now)) = drift E s"
proof -
  let ?s = "unqueue_old E s k"
  have ok': "store_ok E ?s" using assms by (rule ok_unqueue_old)
  show ok: "store_ok E (snd (delete_key E s k now))"
    using ok' hash_less [OF ok', of k]
    by (auto simp: delete_key_conv Let_def intro!: ok_intros split: option.split)
  show v: "view E (snd (delete_key E s k now)) = (view E s)(k := None)"
    using view_remove [OF ok', of k] by (simp add: delete_key_conv Let_def split: option.split)
  show "fst (delete_key E s k now) \<longleftrightarrow> keyspace E s now k \<noteq> None"
    by (auto simp: delete_key_conv keyspace_def view_def visible_def expired_past Let_def split: option.split)
  show "drift E (snd (delete_key E s k now)) = drift E s" if "memory_limit E > 0"
  proof (rule drift_update [OF assms ok, of k])
    show "memory_used (snd (delete_key E s k now)) =
      memory_used s + of_nat (stored_size E (snd (delete_key E s k now)) k) - of_nat (stored_size E s k)"
    proof -
      have "stored_size E (snd (delete_key E s k now)) k = 0"
        by (simp add: stored_size_def v)
      then show ?thesis
        using that
        by (simp add: stored_size_shard delete_key_conv Let_def mem_sub_def split: option.split)
    qed
  qed (simp add: v)
qed

lemma store_delete_effect:
  assumes "store_ok E s"
  shows "store_ok E (snd (store_delete E s ks now))
    \<and> view E (snd (store_delete E s ks now)) = (view E s) |` (- set ks)
    \<and> fst (store_delete E s ks now) = card {k \<in> set ks. keyspace E s now k \<noteq> None}
    \<and> (memory_limit E > 0 \<longrightarrow> drift E (snd (store_delete E s ks now)) = drift E s)"
  using assms
proof (induction ks arbitrary: s)
  case Nil
  then show ?case by (simp add: restrict_map_def)
next
  case (Cons k ks)
  let ?s = "snd (delete_key E s k now)"
  note one = delete_key_effect [OF Cons.prems, of k now]
  note IH = Cons.IH [OF one(1)]
  have ks': "keyspace E ?s now = (keyspace E s now)(k := None)"
    by (simp add: keyspace_def one(2) fun_eq_iff)
  have "{k' \<in> set (k # ks). keyspace E s now k' \<noteq> None} =
      {k' \<in> set ks. keyspace E ?s now k' \<noteq> None} \<union> (if keyspace E s now k \<noteq> None then {k} else {})"
    by (auto simp: ks')
  then have "card {k' \<in> set (k # ks). keyspace E s now k' \<noteq> None} =
      card {k' \<in> set ks. keyspace E ?s now k' \<noteq> None} + (if keyspace E s now k \<noteq> None then 1 else 0)"
    by (simp add: ks')
  then show ?case
    using IH one by (auto simp: Let_def case_prod_beta restrict_map_def fun_eq_iff)
qed

lemma store_exists_effect:
  "store_exists E s ks now = length (filter (\<lambda>k. keyspace E s now k \<noteq> None) ks)"
  by (induction ks) (auto simp: keyspace_def view_def visible_def expired_past split: option.split)

lemma mem_shards: "store_ok E s \<Longrightarrow> m \<in> set (shards s) \<longleftrightarrow> (\<exists>i < store_num_shards s. m = shards s ! i)"
  by (auto simp: store_ok_def in_set_conv_nth)

lemma set_store_keys:
  assumes "store_ok E s"
  shows "set (store_keys E s now) = dom (keyspace E s now)"
proof -
  have "k \<in> set (store_keys E s now) \<longleftrightarrow>
      (\<exists>i < store_num_shards s. \<exists>e. (k, e) \<in> set (dm_iter (dash E) (shards s ! i)) \<and> \<not> expired now e)" for k
    using mem_shards [OF assms] by (force simp: store_keys_def)
  also have "\<dots> k \<longleftrightarrow> (\<exists>e. shard_get E s k = Some e \<and> \<not> expired now e)" for k
    using assms hash_less [OF assms, of k] by (auto simp: iter_mem get_at cong: conj_cong)
  also have "\<dots> k \<longleftrightarrow> k \<in> dom (keyspace E s now)" for k
    by (auto simp: keyspace_def view_def visible_def expired_past split: bind_splits)
  finally show ?thesis by blast
qed

lemma distinct_concat_nth:
  assumes "\<And>i. i < length xss \<Longrightarrow> distinct (xss ! i)"
    and "\<And>i j. i < j \<Longrightarrow> j < length xss \<Longrightarrow> set (xss ! i) \<inter> set (xss ! j) = {}"
  shows "distinct (concat xss)"
  using assms
proof (induction xss)
  case (Cons xs xss)
  have "distinct (concat xss)"
    using Cons.prems by (intro Cons.IH) (metis Suc_less_eq length_Cons nth_Cons_Suc)+
  moreover have "set xs \<inter> set (xss ! j) = {}" if "j < length xss" for j
    using Cons.prems(2) [of 0 "Suc j"] that by simp
  ultimately show ?case
    using Cons.prems(1) [of 0] by (fastforce simp: in_set_conv_nth)
qed simp

lemma distinct_shard_keys:
  assumes "store_ok E s"
  shows "distinct (concat (map (\<lambda>m. map fst (filter P (dm_iter (dash E) m))) (shards s)))"
proof (rule distinct_concat_nth)
  have len: "length (shards s) = store_num_shards s" using assms by (simp add: store_ok_def)
  show "distinct (map (\<lambda>m. map fst (filter P (dm_iter (dash E) m))) (shards s) ! i)"
    if "i < length (map (\<lambda>m. map fst (filter P (dm_iter (dash E) m))) (shards s))" for i
    using that assms iter_distinct [of "shards s ! i"] by (simp add: len distinct_map_filter)
  show "set (map (\<lambda>m. map fst (filter P (dm_iter (dash E) m))) (shards s) ! i)
      \<inter> set (map (\<lambda>m. map fst (filter P (dm_iter (dash E) m))) (shards s) ! j) = {}"
    if "i < j" and "j < length (map (\<lambda>m. map fst (filter P (dm_iter (dash E) m))) (shards s))" for i j
    using that assms by (auto simp: len iter_mem get_at)
qed

text \<open>Iterating over all shards lists every entry once.\<close>

lemma entries_mem:
  assumes "store_ok E s"
  shows "(k, e) \<in> set (concat (map (dm_iter (dash E)) (shards s))) \<longleftrightarrow> shard_get E s k = Some e"
proof -
  have "(k, e) \<in> set (concat (map (dm_iter (dash E)) (shards s))) \<longleftrightarrow>
      (\<exists>i < store_num_shards s. (k, e) \<in> set (dm_iter (dash E) (shards s ! i)))"
    using mem_shards [OF assms] by force
  also have "\<dots> \<longleftrightarrow> shard_get E s k = Some e"
    using assms hash_less [OF assms, of k] by (auto simp: iter_mem get_at cong: conj_cong)
  finally show ?thesis .
qed

lemma entries_distinct: "store_ok E s \<Longrightarrow> distinct (map fst (concat (map (dm_iter (dash E)) (shards s))))"
  using distinct_shard_keys [of s "\<lambda>_. True"] by (simp add: map_concat comp_def)

lemma store_len_card: "store_ok E s \<Longrightarrow> store_len E s = card (dom (view E s))"
proof -
  assume ok: "store_ok E s"
  let ?all = "concat (map (\<lambda>m. map fst (filter (\<lambda>_. True) (dm_iter (dash E) m))) (shards s))"
  have "store_len E s = length ?all"
    using ok mem_shards [OF ok] by (auto simp: store_len_def length_concat comp_def
        intro!: arg_cong [where f = sum_list])
  also have "\<dots> = card (set ?all)"
    by (rule distinct_card [symmetric]) (rule distinct_shard_keys [OF ok])
  also have "set ?all = dom (view E s)"
  proof -
    have "set (shards s) = (!) (shards s) ` {..<store_num_shards s}"
      using mem_shards [OF ok] by auto
    then show ?thesis using ok by (simp add: dom_view iter_keys)
  qed
  finally show ?thesis .
qed

lemma store_new_effect:
  assumes "0 < n"
  shows "store_ok E (store_new E n clk rnd)" and "view E (store_new E n clk rnd) k = None"
    and "total_size E (store_new E n clk rnd) = 0" and "memory_used (store_new E n clk rnd) = 0"
proof -
  obtain a b c where caps: "queue_capacities (memory_limit E) n = (a, b, c)"
    by (cases "queue_capacities (memory_limit E) n") auto
  have q: "queues_ok (s3fifo_new a b c)"
    using queue_capacities_pos [OF caps] by (simp add: queues_ok_def queue_ok_def s3fifo_new_def)
  show ok: "store_ok E (store_new E n clk rnd)"
    using assms q by (auto simp: store_new_def caps store_ok_def shard_ok_def)
  show v: "view E (store_new E n clk rnd) k = None" for k
    using assms by (simp add: store_new_def caps view_def shard_get_def hash_def)
  then have "view E (store_new E n clk rnd) = Map.empty" by (rule ext)
  then show "total_size E (store_new E n clk rnd) = 0" by (simp add: total_view [OF ok])
  show "memory_used (store_new E n clk rnd) = 0" by (simp add: store_new_def caps)
qed

lemma store_clear_effect:
  assumes "store_ok E s"
  shows "store_ok E (store_clear E s)" and "view E (store_clear E s) k = None"
proof -
  have len: "length (shards s) = store_num_shards s" using assms by (simp add: store_ok_def)
  show "store_ok E (store_clear E s)"
    using assms by (auto simp: store_clear_def store_ok_def shard_ok_def hash_def)
  show "view E (store_clear E s) k = None"
    using assms hash_less [OF assms, of k]
    by (simp add: view_def shard_get_def store_clear_def hash_def len)
qed

end

section \<open>An environment over HashMap\<close>

text \<open>The laws of the store hold for shards that are \<^verbatim>\<open>HashMap\<close>s, whatever the hash function and configuration.\<close>

definition hash_env :: "(bytes \<Rightarrow> u64) \<Rightarrow> config \<Rightarrow> u64 \<Rightarrow> (bytes, entry) hash_map env" where
  "hash_env h c t = \<lparr>dash = hash_dashmap, ahash = h, conf = c, server_start = t\<rparr>"

interpretation hash_store: store_env "hash_env h c t" for h c t
proof -
  have "dash (hash_env h c t) = hash_dashmap" by (simp add: hash_env_def)
  then show "store_env (hash_env h c t)"
    using hm.dashmap_axioms by (simp add: store_env_def)
qed

text \<open>A two-shard store with a memory limit, for the concrete instances below.\<close>

definition small_config :: config where
  "small_config = memory_update (max_memory_update (\<lambda>_. 10000)) default_config"

definition small_env :: "(bytes, entry) hash_map env" where
  "small_env = hash_env (\<lambda>k. of_nat (length k)) small_config 0"

definition small_db :: "(bytes, entry) hash_map db" where
  "small_db = store_new small_env 2 (\<lambda>_. 100) (\<lambda>_. 1)"

lemma small_env_dashmap: "dashmap (dash small_env)"
  using hm.dashmap_axioms by (simp add: small_env_def hash_env_def)

lemma small_db_ok: "store_ok small_env small_db"
  unfolding small_db_def small_env_def by (rule hash_store.store_new_effect) simp

lemma small_db_empty: "view small_env small_db = Map.empty"
  unfolding small_db_def small_env_def by (rule ext) (rule hash_store.store_new_effect(2), simp)

text \<open>The same store after \<^verbatim>\<open>SET k v EX 5\<close> at time 100.\<close>

definition small_db_k :: "(bytes, entry) hash_map db" where
  "small_db_k = snd (store_set small_env small_db [107] [118] (Some 5) 100)"

lemma small_db_k_ok: "store_ok small_env small_db_k"
  unfolding small_db_k_def using hash_store.ok_store_set small_db_ok by (simp add: small_env_def)

lemma small_db_k_view: "view small_env small_db_k = [[107] \<mapsto> (StringV [118], Some 105)]"
  using hash_store.store_set_effect(1) [of _ _ _ small_db "[107]" "[118]" "Some 5" 100]
    small_db_ok small_db_empty
  by (simp add: small_db_k_def small_env_def)

lemma small_db_k_keyspace:
  "keyspace small_env small_db_k now = (if now < 105 then [[107] \<mapsto> (Str [118], Some 105)] else Map.empty)"
  by (auto simp: keyspace_def small_db_k_view visible_def past_def content_of_def fun_eq_iff)

lemma small_env_limit: "memory_limit small_env > 0"
  by (simp add: small_env_def hash_env_def small_config_def default_config_def default_memory_def)

section \<open>Properties\<close>

text \<open>C21: \<^verbatim>\<open>SET\<close> at the store: the key then holds the string with its expiry \<open>now + ttl\<close>
  (64-bit, so an overflowing or zero time to live makes the key invisible at
  once), no other key changes, the invariant is kept, and the result is the size
  of the entry it replaced, expired or not.\<close>

theorem store_set_refines:
  assumes "dashmap (dash E)" and "store_ok E s"
  shows "keyspace E (snd (store_set E s k v ttl now)) now =
      (keyspace E s now)(k := (case ttl of
         None \<Rightarrow> Some (Str v, None)
       | Some t \<Rightarrow> if now + t \<le> now then None else Some (Str v, Some (now + t))))
    \<and> store_ok E (snd (store_set E s k v ttl now))
    \<and> fst (store_set E s k v ttl now) = map_option (\<lambda>(u, _). size_of k u) (view E s k)"
proof -
  have env: "store_env E" using assms(1) by (simp add: store_env_def)
  note set = store_env.store_set_effect [OF env assms(2), of k v ttl now]
  have "keyspace E (snd (store_set E s k v ttl now)) now =
      (keyspace E s now)(k := visible now (StringV v, map_option (\<lambda>t. now + t) ttl))"
    by (simp add: keyspace_def set fun_eq_iff)
  then show ?thesis
    using set store_env.ok_store_set [OF env assms(2), of k v ttl now]
    by (auto simp: visible_def content_of_def past_def split: option.split)
qed

theorem store_set_refines_witness:
  "keyspace small_env (snd (store_set small_env small_db [107] [118] (Some 5) 100)) 100 [107]
    = Some (Str [118], Some 105)"
  using store_set_refines [OF small_env_dashmap small_db_ok, of "[107]" "[118]" "Some 5" 100] by simp

text \<open>\<^verbatim>\<open>GET\<close> at the store returns exactly the live string stored under the key, and
  nothing for a missing, expired or hash key; it changes nothing a client can see,
  keeps the invariant, and lazy expiry keeps the memory accounting exact.\<close>

theorem store_get_refines:
  assumes "dashmap (dash E)" and "store_ok E s" and "memory_limit E > 0"
  shows "fst (store_get E s k now) = (case keyspace E s now k of Some (Str v, _) \<Rightarrow> Some v | _ \<Rightarrow> None)
    \<and> keyspace E (snd (store_get E s k now)) now = keyspace E s now
    \<and> store_ok E (snd (store_get E s k now))
    \<and> drift E (snd (store_get E s k now)) = drift E s"
proof -
  have env: "store_env E" using assms(1) by (simp add: store_env_def)
  show ?thesis
    using store_env.store_get_effect [OF env assms(2)] store_env.ok_store_get [OF env assms(2)] assms(3)
    by blast
qed

theorem store_get_refines_witness:
  "fst (store_get small_env small_db_k [107] 104) = Some [118]
   \<and> fst (store_get small_env small_db_k [107] 105) = None"
  using store_get_refines [OF small_env_dashmap small_db_k_ok small_env_limit, of "[107]" 104]
    store_get_refines [OF small_env_dashmap small_db_k_ok small_env_limit, of "[107]" 105]
  by (simp add: small_db_k_keyspace)

text \<open>\<^verbatim>\<open>DEL\<close> at the store removes exactly the named keys, live or expired, returns how
  many distinct live keys it removed, keeps the invariant and keeps the memory
  accounting exact.\<close>

theorem store_delete_refines:
  assumes "dashmap (dash E)" and "store_ok E s" and "memory_limit E > 0"
  shows "view E (snd (store_delete E s ks now)) = (view E s) |` (- set ks)
    \<and> fst (store_delete E s ks now) = card {k \<in> set ks. keyspace E s now k \<noteq> None}
    \<and> store_ok E (snd (store_delete E s ks now))
    \<and> drift E (snd (store_delete E s ks now)) = drift E s"
proof -
  have env: "store_env E" using assms(1) by (simp add: store_env_def)
  show ?thesis using store_env.store_delete_effect [OF env assms(2), of ks now] assms(3) by blast
qed

theorem store_delete_refines_witness:
  "view small_env (snd (store_delete small_env small_db_k [[107], [107]] 100)) = Map.empty
   \<and> fst (store_delete small_env small_db_k [[107], [107]] 100) = 1"
  using store_delete_refines [OF small_env_dashmap small_db_k_ok small_env_limit, of "[[107], [107]]" 100]
  by (simp add: small_db_k_keyspace small_db_k_view conj_commute cong: conj_cong)

text \<open>\<^verbatim>\<open>KEYS\<close>, \<^verbatim>\<open>EXISTS\<close> and \<^verbatim>\<open>DBSIZE\<close> at the store: \<^verbatim>\<open>keys\<close> lists every live key once,
  \<^verbatim>\<open>exists\<close> counts live keys with repetition, and \<^verbatim>\<open>len\<close> counts all stored keys,
  expired ones included.\<close>

theorem store_enumeration:
  assumes "dashmap (dash E)" and "store_ok E s"
  shows "set (store_keys E s now) = dom (keyspace E s now) \<and> distinct (store_keys E s now)
    \<and> store_exists E s ks now = length (filter (\<lambda>k. keyspace E s now k \<noteq> None) ks)
    \<and> store_len E s = card (dom (view E s))"
proof -
  have env: "store_env E" using assms(1) by (simp add: store_env_def)
  show ?thesis
    using store_env.set_store_keys [OF env assms(2)] store_env.store_exists_effect [OF env]
      store_env.store_len_card [OF env assms(2)] store_env.distinct_shard_keys [OF env assms(2)]
    by (simp add: store_keys_def)
qed

theorem store_enumeration_witness:
  "set (store_keys small_env small_db_k 200) = {} \<and> store_len small_env small_db_k = 1
   \<and> store_exists small_env small_db_k [[107], [107]] 100 = 2"
  using store_enumeration [OF small_env_dashmap small_db_k_ok, of 200 "[]"]
    store_enumeration [OF small_env_dashmap small_db_k_ok, of 100 "[[107], [107]]"]
  by (simp add: small_db_k_keyspace small_db_k_view)

end
