(* ===== verification/Store_Hash.thy ===== *)
theory Store_Hash
  imports Store
begin

text \<open>
  The hash operations of \<^verbatim>\<open>ShardedStore\<close>: \<^verbatim>\<open>hset\<close>, \<^verbatim>\<open>hget\<close>, \<^verbatim>\<open>hgetall\<close> and \<^verbatim>\<open>hdel\<close> of
  \<^verbatim>\<open>src/src/store.rs\<close>. Errors are the \<open>Inl\<close> side of the result. The fields of a hash sit
  behind an \<^verbatim>\<open>Arc<RwLock<HashMap>>\<close>, so an update of the fields is an update of the
  stored entry.
\<close>

section \<open>Operations\<close>

definition wrongtype :: bytes where
  "wrongtype = bs ''WRONGTYPE Operation against a key holding the wrong kind of value''"

text \<open>
  The loop of \<^verbatim>\<open>hset\<close> that finds or creates the hash. It removes an expired entry and
  tries again; it ends with the size of the existing hash (\<open>Some\<close>), with a new
  empty hash (\<open>None\<close>), or with the type error.
\<close>

partial_function (option) hset_slot ::
  "'m env \<Rightarrow> 'm db \<Rightarrow> bytes \<Rightarrow> u32 \<Rightarrow> u64 \<Rightarrow> ((bytes + nat option) \<times> 'm db) option" where
  "hset_slot E s key timestamp now =
     (case shard_get E s key of
        Some e \<Rightarrow>
          if expired now e then
            (let size = calculate_entry_size (length key) (val e);
                 s = (if s3fifo_on E then unqueue E s key e else s);
                 s = snd (shard_remove_at E s (hash E s key) key);
                 s = mem_sub E s size
             in hset_slot E s key timestamp now)
          else (case val e of
                  HashV h \<Rightarrow> Some (Inr (Some (calculate_entry_size (length key) (val e))), s)
                | StringV _ \<Rightarrow> Some (Inl wrongtype, s))
      | None \<Rightarrow>
          (let (qtype, s) = place_in_queue E s key
           in Some (Inr None, shard_insert E s key
                \<lparr>val = HashV [], expiry = None, last_accessed = timestamp,
                 queue_type = qtype, access_count = 0\<rparr>)))"

text \<open>The fields are written in order; a field counts as new when it was absent at its turn.\<close>

fun set_fields :: "(bytes \<times> bytes) list \<Rightarrow> (bytes, bytes) hash_map \<Rightarrow> nat \<times> (bytes, bytes) hash_map" where
  "set_fields [] h = (0, h)"
| "set_fields ((f, x) # fs) h =
     (let (n, h') = set_fields fs (hm_insert h f x)
      in (if hm_get h f = None then n + 1 else n, h'))"

fun del_fields :: "bytes list \<Rightarrow> (bytes, bytes) hash_map \<Rightarrow> nat \<times> (bytes, bytes) hash_map" where
  "del_fields [] h = (0, h)"
| "del_fields (f # fs) h =
     (let (n, h') = del_fields fs (hm_remove h f)
      in (if hm_get h f \<noteq> None then n + 1 else n, h'))"

definition fields_of :: "entry \<Rightarrow> (bytes, bytes) hash_map" where
  "fields_of e = (case val e of HashV h \<Rightarrow> h | StringV _ \<Rightarrow> [])"

definition hset ::
  "'m env \<Rightarrow> 'm db \<Rightarrow> bytes \<Rightarrow> (bytes \<times> bytes) list \<Rightarrow> u64 \<Rightarrow> ((bytes + nat) \<times> 'm db) option" where
  "hset E s key fvs now =
     (let (sample, s) = sampled_uptime E s;
          timestamp = (case sample of Some t \<Rightarrow> t | None \<Rightarrow> 0)
      in case hset_slot E s key timestamp now of
           None \<Rightarrow> None
         | Some (Inl err, s) \<Rightarrow> Some (Inl err, s)
         | Some (Inr old_size, s) \<Rightarrow>
             (let h = (case shard_get E s key of Some e \<Rightarrow> fields_of e | None \<Rightarrow> []);
                  (new_count, h') = set_fields fvs h;
                  s = shard_modify E s key (val_update (\<lambda>_. HashV h'));
                  new_size = calculate_entry_size (length key) (HashV h');
                  s = (case old_size of
                         Some old_sz \<Rightarrow>
                           if new_size \<ge> old_sz then mem_add E s (new_size - old_sz)
                           else mem_sub E s (old_sz - new_size)
                       | None \<Rightarrow> mem_add E s new_size)
              in Some (Inr new_count, s)))"

definition hget :: "'m env \<Rightarrow> 'm db \<Rightarrow> bytes \<Rightarrow> bytes \<Rightarrow> u64 \<Rightarrow> (bytes + bytes option) \<times> 'm db" where
  "hget E s key field now =
     (case shard_get E s key of
        Some e \<Rightarrow>
          if expired now e then (Inr None, expire_key E s key now)
          else (case val e of HashV h \<Rightarrow> Inr (hm_get h field) | StringV _ \<Rightarrow> Inl wrongtype,
                track_access E s key e)
      | None \<Rightarrow> (Inr None, s))"

definition hgetall :: "'m env \<Rightarrow> 'm db \<Rightarrow> bytes \<Rightarrow> u64 \<Rightarrow> (bytes + bytes list) \<times> 'm db" where
  "hgetall E s key now =
     (case shard_get E s key of
        Some e \<Rightarrow>
          if expired now e then (Inr [], expire_key E s key now)
          else (case val e of HashV h \<Rightarrow> Inr (concat (map (\<lambda>(f, x). [f, x]) h)) | StringV _ \<Rightarrow> Inl wrongtype,
                track_access E s key e)
      | None \<Rightarrow> (Inr [], s))"

definition is_empty_hash :: "entry \<Rightarrow> bool" where
  "is_empty_hash e = (case val e of HashV h \<Rightarrow> h = [] | StringV _ \<Rightarrow> False)"

definition hdel :: "'m env \<Rightarrow> 'm db \<Rightarrow> bytes \<Rightarrow> bytes list \<Rightarrow> u64 \<Rightarrow> (bytes + nat) \<times> 'm db" where
  "hdel E s key fs now =
     (case shard_get E s key of
        Some e \<Rightarrow>
          if expired now e then (Inr 0, expire_key E s key now)
          else (case val e of
              HashV h \<Rightarrow>
                (let old_size = calculate_entry_size (length key) (val e);
                     (removed, h') = del_fields fs h;
                     s = shard_modify E s key (val_update (\<lambda>_. HashV h'));
                     s = (if removed > 0 then
                            (if h' = [] then
                               (case shard_remove_if_at E s (hash E s key) key is_empty_hash of
                                  (Some removed_entry, s) \<Rightarrow>
                                    mem_sub E s (calculate_entry_size (length key) (val removed_entry))
                                | (None, s) \<Rightarrow>
                                    (let empty_overhead = length key + 64 + 128 in
                                     if old_size > empty_overhead
                                     then mem_sub E s (old_size - empty_overhead) else s))
                             else
                               (let new_size = calculate_entry_size (length key) (HashV h') in
                                if old_size > new_size then mem_sub E s (old_size - new_size) else s))
                          else s)
                 in (Inr removed, s))
            | StringV _ \<Rightarrow> (Inl wrongtype, s))
      | None \<Rightarrow> (Inr 0, s))"

text \<open>The flat reply of \<^verbatim>\<open>hgetall\<close> read back as pairs.\<close>

fun pairs_of :: "bytes list \<Rightarrow> (bytes \<times> bytes) list" where
  "pairs_of (f # x # rest) = (f, x) # pairs_of rest"
| "pairs_of _ = []"

section \<open>Fields\<close>

lemma set_fields_get: "hm_get (snd (set_fields fvs h)) = hm_get h ++ map_of (rev fvs)"
proof (induction fvs h rule: set_fields.induct)
  case (2 f x fs h)
  then show ?case
    by (cases "map_of (rev fs) f")
      (auto simp: Let_def case_prod_beta fun_eq_iff map_add_def split: option.split)
qed simp

lemma set_fields_ok: "hm_ok h \<Longrightarrow> hm_ok (snd (set_fields fvs h))"
  by (induction fvs h rule: set_fields.induct) (auto simp: Let_def case_prod_beta)

lemma set_fields_count: "fst (set_fields fvs h) = card (fst ` set fvs - dom (hm_get h))"
proof (induction fvs h rule: set_fields.induct)
  case (2 f x fs h)
  let ?A = "fst ` set fs - dom (hm_get h)"
  have "fst ` set fs - dom (hm_get (hm_insert h f x)) = ?A - {f}" by auto
  with 2 have n: "fst (set_fields fs (hm_insert h f x)) = card (?A - {f})" by metis
  have "fst ` set ((f, x) # fs) - dom (hm_get h) = (if hm_get h f = None then insert f (?A - {f}) else ?A - {f})"
    by auto
  then show ?case by (simp only:) (simp add: Let_def case_prod_beta n card.insert_remove)
qed simp

lemma del_fields_get: "hm_get (snd (del_fields fs h)) = (hm_get h) |` (- set fs)"
  by (induction fs h rule: del_fields.induct) (auto simp: Let_def case_prod_beta fun_eq_iff restrict_map_def)

lemma del_fields_ok: "hm_ok h \<Longrightarrow> hm_ok (snd (del_fields fs h))"
  by (induction fs h rule: del_fields.induct) (auto simp: Let_def case_prod_beta)

lemma del_fields_count: "fst (del_fields fs h) = card (set fs \<inter> dom (hm_get h))"
proof (induction fs h rule: del_fields.induct)
  case (2 f fs h)
  let ?A = "set fs \<inter> dom (hm_get h)"
  have "set fs \<inter> dom (hm_get (hm_remove h f)) = ?A - {f}" by auto
  with 2 have n: "fst (del_fields fs (hm_remove h f)) = card (?A - {f})" by metis
  have "set (f # fs) \<inter> dom (hm_get h) = (if hm_get h f \<noteq> None then insert f (?A - {f}) else ?A - {f})"
    by auto
  then show ?case by (simp only:) (simp add: Let_def case_prod_beta n card.insert_remove)
qed simp

lemma hm_remove_size:
  "(\<Sum>(f, x)\<leftarrow>hm_remove h f. length f + length x) \<le> (\<Sum>(f, x)\<leftarrow>h. length f + length x)"
  for h :: "(bytes, bytes) hash_map"
  by (induction h) (auto simp: hm_remove_def AList.delete_eq)

lemma del_fields_size: "size_of k (HashV (snd (del_fields fs h))) \<le> size_of k (HashV h)"
proof (induction fs h rule: del_fields.induct)
  case (2 f fs h)
  then have "size_of k (HashV (snd (del_fields fs (hm_remove h f)))) \<le> size_of k (HashV (hm_remove h f))"
    by blast
  also have "\<dots> \<le> size_of k (HashV h)" using hm_remove_size by (simp add: size_of_def)
  finally show ?case by (simp add: Let_def case_prod_beta)
qed simp

lemma del_fields_none: "fst (del_fields fs h) = 0 \<Longrightarrow> snd (del_fields fs h) = h"
proof (induction fs h rule: del_fields.induct)
  case (2 f fs h)
  then have none: "hm_get h f = None" and n: "fst (del_fields fs (hm_remove h f)) = 0"
    by (auto simp: Let_def case_prod_beta split: if_splits)
  have "hm_remove h f = h"
    using none by (auto simp: hm_remove_def hm_get_def map_of_eq_None_iff intro: delete_idem)
  with 2 n show ?case by (simp add: Let_def case_prod_beta)
qed simp

section \<open>Effects\<close>

lemmas hset_slot_unfold = hset_slot.simps

context store_env
begin

lemma hset_slot_vacant:
  assumes "store_ok E s" and "shard_get E s k = None"
  obtains s' where "hset_slot E s k t now = Some (Inr None, s')" and "store_ok E s'"
    and "view E s' = (view E s)(k \<mapsto> (HashV [], None))" and "memory_used s' = memory_used s"
proof -
  let ?s = "snd (place_in_queue E s k)" and ?q = "fst (place_in_queue E s k)"
  let ?e = "\<lparr>val = HashV [], expiry = None, last_accessed = t, queue_type = ?q, access_count = 0\<rparr>"
  have ok: "store_ok E ?s" using assms(1) by (rule ok_intros)
  show thesis
  proof (rule that [of "shard_insert E ?s k ?e"])
    show "hset_slot E s k t now = Some (Inr None, shard_insert E ?s k ?e)"
      by (subst hset_slot_unfold) (simp add: assms(2) case_prod_beta)
    show "store_ok E (shard_insert E ?s k ?e)"
      using ok by (rule ok_insert_entry) (simp add: entry_ok_def)
    show "view E (shard_insert E ?s k ?e) = (view E s)(k \<mapsto> (HashV [], None))"
      using ok by simp
  qed simp
qed

lemma hset_slot_expired:
  assumes "store_ok E s" and "shard_get E s k = Some e" and "expired now e"
  obtains s' where "hset_slot E s k t now = Some (Inr None, s')" and "store_ok E s'"
    and "view E s' = (view E s)(k \<mapsto> (HashV [], None))"
    and "memory_used s' = (if memory_limit E > 0 then memory_used s - of_nat (size_of k (val e)) else memory_used s)"
proof -
  define s1 where "s1 = (if s3fifo_on E then unqueue E s k e else s)"
  define s2 where "s2 = mem_sub E (snd (shard_remove_at E s1 (hash E s1 k) k)) (size_of k (val e))"
  have ok1: "store_ok E s1" using assms(1) by (simp add: s1_def ok_intros)
  have same: "same_entries s s1" by (simp add: s1_def)
  have ok2: "store_ok E s2"
    using ok1 hash_less [OF ok1] by (auto simp: s2_def intro!: ok_intros)
  have v2: "view E s2 = (view E s)(k := None)"
    using ok1 by (simp add: s2_def same_entriesD(3) [OF same])
  then have "shard_get E s2 k = None" by (simp add: view_def fun_eq_iff split: if_splits)
  from hset_slot_vacant [OF ok2 this, of t now]
  obtain s' where s': "hset_slot E s2 k t now = Some (Inr None, s')" "store_ok E s'"
      "view E s' = (view E s2)(k \<mapsto> (HashV [], None))" "memory_used s' = memory_used s2"
    by blast
  show thesis
  proof (rule that)
    show "hset_slot E s k t now = Some (Inr None, s')"
      by (subst hset_slot_unfold)
        (simp add: assms(2,3) Let_def s'(1) [unfolded s2_def s1_def size_of_def])
    show "memory_used s' = (if memory_limit E > 0 then memory_used s - of_nat (size_of k (val e)) else memory_used s)"
      by (simp add: s'(4) s2_def s1_def mem_sub_def)
  qed (use s' v2 in simp_all)
qed

lemma hset_slot_live:
  assumes "shard_get E s k = Some e" and "\<not> expired now e"
  shows "hset_slot E s k t now =
    (case val e of HashV h \<Rightarrow> Some (Inr (Some (size_of k (val e))), s) | StringV _ \<Rightarrow> Some (Inl wrongtype, s))"
  by (subst hset_slot_unfold) (simp add: assms size_of_def split: entry_value.split)

text \<open>The second half of \<^verbatim>\<open>hset\<close>: from the state in which the slot holds a hash.\<close>

lemma hset_finish:
  assumes slot: "hset_slot E (snd (sampled_uptime E s)) k t now = Some (Inr old, s1)"
    and t: "t = (case fst (sampled_uptime E s) of Some t \<Rightarrow> t | None \<Rightarrow> 0)"
    and ok: "store_ok E s1" and v: "view E s1 k = Some (HashV h, x)"
  obtains s' where "hset E s k fvs now = Some (Inr (fst (set_fields fvs h)), s')"
    and "store_ok E s'" and "view E s' = (view E s1)(k \<mapsto> (HashV (snd (set_fields fvs h)), x))"
    and "memory_limit E > 0 \<Longrightarrow> memory_used s' = memory_used s1
      + of_nat (size_of k (HashV (snd (set_fields fvs h)))) - of_nat (case old of Some n \<Rightarrow> n | None \<Rightarrow> 0)"
proof -
  let ?h = "snd (set_fields fvs h)"
  let ?new = "size_of k (HashV ?h)"
  obtain e where e: "shard_get E s1 k = Some e" "val e = HashV h" "expiry e = x"
    using v by (auto simp: view_def)
  have hok: "hm_ok ?h" using entry_ok_at [OF ok e(1)] e(2) by (simp add: entry_ok_def set_fields_ok)
  define s2 where "s2 = shard_modify E s1 k (val_update (\<lambda>_. HashV ?h))"
  define s' where "s' = (case old of
       Some o' \<Rightarrow> if ?new \<ge> o' then mem_add E s2 (?new - o') else mem_sub E s2 (o' - ?new)
     | None \<Rightarrow> mem_add E s2 ?new)"
  have ok2: "store_ok E s2" unfolding s2_def using ok hok by (intro ok_modify_entry) (auto simp: entry_ok_def)
  show thesis
  proof (rule that [of s'])
    show "hset E s k fvs now = Some (Inr (fst (set_fields fvs h)), s')"
      by (cases old)
        (simp_all add: hset_def case_prod_beta Let_def slot [unfolded t] e fields_of_def s'_def s2_def size_of_def)
    show "store_ok E s'" using ok2 by (auto simp: s'_def intro: ok_intros split: option.split)
    show "view E s' = (view E s1)(k \<mapsto> (HashV ?h, x))"
      using ok e by (simp add: s'_def s2_def view_modify split: option.split)
    show "memory_used s' = memory_used s1 + of_nat ?new - of_nat (case old of Some n \<Rightarrow> n | None \<Rightarrow> 0)"
      if "memory_limit E > 0"
      using that by (simp add: s'_def s2_def mem_add_def mem_sub_def of_nat_diff split: option.split)
  qed
qed

lemma hset_wrongtype:
  assumes "store_ok E s" and "view E s k = Some (StringV b, x)" and "\<not> past now x"
  shows "hset E s k fvs now = Some (Inl wrongtype, snd (sampled_uptime E s))"
proof -
  obtain e where "shard_get E s k = Some e" "val e = StringV b" "expiry e = x"
    using assms(2) by (auto simp: view_def)
  then show ?thesis
    using assms(3) by (simp add: hset_def hset_slot_live expired_past case_prod_beta)
qed

text \<open>The hash that \<^verbatim>\<open>hset\<close> extends: the live one, or a new empty one without expiry.\<close>

text \<open>The first half: whatever the slot held, it then holds the live hash or an empty one.\<close>

lemma hset_slot_any:
  assumes ok: "store_ok E s" and nostr: "\<And>b x. view E s k = Some (StringV b, x) \<Longrightarrow> past now x"
  obtains h x old s1 where "(case keyspace E s now k of Some (c, y) \<Rightarrow> c = Fields (hm_get h) \<and> x = y
      | None \<Rightarrow> h = [] \<and> x = None)"
    and "hset_slot E (snd (sampled_uptime E s)) k t now = Some (Inr old, s1)" and "store_ok E s1"
    and "view E s1 = (view E s)(k \<mapsto> (HashV h, x))"
    and "memory_limit E > 0 \<Longrightarrow>
      memory_used s1 - of_nat (case old of Some n \<Rightarrow> n | None \<Rightarrow> 0) = memory_used s - of_nat (stored_size E s k)"
proof -
  let ?s = "snd (sampled_uptime E s)"
  have oks: "store_ok E ?s" using ok by (rule ok_intros)
  show thesis
  proof (cases "shard_get E s k")
    case None
    then have "shard_get E ?s k = None" by simp
    from hset_slot_vacant [OF oks this, of t now] obtain s1 where
      "hset_slot E ?s k t now = Some (Inr None, s1)" "store_ok E s1"
      "view E s1 = (view E s)(k \<mapsto> (HashV [], None))" "memory_used s1 = memory_used s" by auto
    with None show thesis by (intro that [of "[]" None None s1]) (auto simp: keyspace_def view_def stored_size_def)
  next
    case (Some e)
    then have g: "shard_get E ?s k = Some e" by simp
    show thesis
    proof (cases "expired now e")
      case True
      from hset_slot_expired [OF oks g True, of t] obtain s1 where
        "hset_slot E ?s k t now = Some (Inr None, s1)" "store_ok E s1"
        "view E s1 = (view E ?s)(k \<mapsto> (HashV [], None))"
        "memory_used s1 = (if memory_limit E > 0 then memory_used ?s - of_nat (size_of k (val e)) else memory_used ?s)"
        by blast
      then show thesis
        by (intro that [of "[]" None None s1])
          (use Some True in \<open>simp_all add: keyspace_def view_def [of E s] stored_size_def visible_def expired_past\<close>)
    next
      case False
      then obtain h where h: "val e = HashV h"
        using nostr Some by (cases "val e") (auto simp: view_def expired_past)
      have same: "(view E s)(k \<mapsto> (HashV h, expiry e)) = view E s"
        by (rule ext) (simp add: view_def Some h)
      show thesis
        by (rule that [of h "expiry e" "Some (size_of k (val e))" ?s])
          (use Some False h oks same in \<open>simp_all add: keyspace_def view_def visible_def expired_past content_of_def
            stored_size_def hset_slot_live [OF g False]\<close>)
    qed
  qed
qed

lemma hset_sets:
  assumes ok: "store_ok E s" and nostr: "\<And>b x. view E s k = Some (StringV b, x) \<Longrightarrow> past now x"
  obtains s' h x where
    "(case keyspace E s now k of Some (c, y) \<Rightarrow> c = Fields (hm_get h) \<and> x = y
      | None \<Rightarrow> h = [] \<and> x = None)"
    and "hset E s k fvs now = Some (Inr (fst (set_fields fvs h)), s')" and "store_ok E s'"
    and "view E s' = (view E s)(k \<mapsto> (HashV (snd (set_fields fvs h)), x))"
    and "memory_limit E > 0 \<Longrightarrow> drift E s' = drift E s"
proof -
  define t where "t = (case fst (sampled_uptime E s) of Some t \<Rightarrow> t | None \<Rightarrow> 0)"
  let ?s = "snd (sampled_uptime E s)"
  obtain h x old s1 where base: "(case keyspace E s now k of Some (c, y) \<Rightarrow> c = Fields (hm_get h) \<and> x = y
      | None \<Rightarrow> h = [] \<and> x = None)"
    and slot: "hset_slot E ?s k t now = Some (Inr old, s1)" "store_ok E s1"
      "view E s1 = (view E s)(k \<mapsto> (HashV h, x))"
    and mem: "memory_limit E > 0 \<Longrightarrow>
      memory_used s1 - of_nat (case old of Some n \<Rightarrow> n | None \<Rightarrow> 0) = memory_used s - of_nat (stored_size E s k)"
    by (rule hset_slot_any [OF ok, where k = k and now = now and t = t], erule nostr, rule that)
  have v1: "view E s1 k = Some (HashV h, x)" by (simp add: slot(3))
  show thesis
  proof (rule hset_finish [OF slot(1) t_def slot(2) v1, of fvs])
    fix s'
    assume s': "hset E s k fvs now = Some (Inr (fst (set_fields fvs h)), s')" "store_ok E s'"
      "view E s' = (view E s1)(k \<mapsto> (HashV (snd (set_fields fvs h)), x))"
      "memory_limit E > 0 \<Longrightarrow> memory_used s' = memory_used s1
        + of_nat (size_of k (HashV (snd (set_fields fvs h)))) - of_nat (case old of Some n \<Rightarrow> n | None \<Rightarrow> 0)"
    have v: "view E s' = (view E s)(k \<mapsto> (HashV (snd (set_fields fvs h)), x))" by (simp add: s'(3) slot(3))
    have d: "drift E s' = drift E s" if "memory_limit E > 0"
    proof (rule drift_update [OF ok s'(2), of k])
      have "memory_used s' = memory_used s1 - of_nat (case old of Some n \<Rightarrow> n | None \<Rightarrow> 0)
          + of_nat (size_of k (HashV (snd (set_fields fvs h))))"
        using s'(4) [OF that] by simp
      then show "memory_used s' = memory_used s + of_nat (stored_size E s' k) - of_nat (stored_size E s k)"
        unfolding mem [OF that] by (simp add: stored_size_def [of E s'] v)
    qed (simp add: v)
    show thesis by (rule that [OF base s'(1,2) v d])
  qed
qed

text \<open>Reads.\<close>

lemma hget_effect:
  assumes "store_ok E s"
  shows "fst (hget E s k f now) = (case keyspace E s now k of
      Some (Fields m, _) \<Rightarrow> Inr (m f) | Some (Str _, _) \<Rightarrow> Inl wrongtype | None \<Rightarrow> Inr None)"
    and "keyspace E (snd (hget E s k f now)) now = keyspace E s now"
    and "store_ok E (snd (hget E s k f now))"
    and "memory_limit E > 0 \<Longrightarrow> drift E (snd (hget E s k f now)) = drift E s"
proof -
  show "fst (hget E s k f now) = (case keyspace E s now k of
      Some (Fields m, _) \<Rightarrow> Inr (m f) | Some (Str _, _) \<Rightarrow> Inl wrongtype | None \<Rightarrow> Inr None)"
    by (auto simp: hget_def keyspace_def view_def visible_def content_of_def expired_past
        split: option.split entry_value.split)
  show "keyspace E (snd (hget E s k f now)) now = keyspace E s now"
    using assms by (auto simp: hget_def split: option.split) (simp add: keyspace_def fun_eq_iff)
  show "store_ok E (snd (hget E s k f now))"
    using assms by (simp add: hget_def ok_intros split: option.split)
  show "drift E (snd (hget E s k f now)) = drift E s" if "memory_limit E > 0"
    using assms that by (auto simp: hget_def ok_intros intro!: drift_cong split: option.split)
qed

lemma pairs_of_concat: "pairs_of (concat (map (\<lambda>(f, x). [f, x]) h)) = h"
  by (induction h) auto

lemma hgetall_effect:
  assumes "store_ok E s"
  shows "(case keyspace E s now k of
        Some (Fields m, _) \<Rightarrow> \<exists>l. fst (hgetall E s k now) = Inr l \<and> even (length l)
          \<and> distinct (map fst (pairs_of l)) \<and> map_of (pairs_of l) = m
      | Some (Str _, _) \<Rightarrow> fst (hgetall E s k now) = Inl wrongtype
      | None \<Rightarrow> fst (hgetall E s k now) = Inr [])"
    and "keyspace E (snd (hgetall E s k now)) now = keyspace E s now"
    and "store_ok E (snd (hgetall E s k now))"
    and "memory_limit E > 0 \<Longrightarrow> drift E (snd (hgetall E s k now)) = drift E s"
proof -
  have "even (length (concat (map (\<lambda>(f, x). [f, x]) h)))" for h :: "(bytes, bytes) hash_map"
    by (induction h) auto
  then show "case keyspace E s now k of
        Some (Fields m, _) \<Rightarrow> \<exists>l. fst (hgetall E s k now) = Inr l \<and> even (length l)
          \<and> distinct (map fst (pairs_of l)) \<and> map_of (pairs_of l) = m
      | Some (Str _, _) \<Rightarrow> fst (hgetall E s k now) = Inl wrongtype
      | None \<Rightarrow> fst (hgetall E s k now) = Inr []"
    using entry_ok_at [OF assms, of k]
    by (auto simp: hgetall_def keyspace_def view_def visible_def content_of_def expired_past pairs_of_concat
        entry_ok_def hm_ok_def hm_get_def fun_eq_iff split: option.split entry_value.split)
  show "keyspace E (snd (hgetall E s k now)) now = keyspace E s now"
    using assms by (auto simp: hgetall_def split: option.split) (simp add: keyspace_def fun_eq_iff)
  show "store_ok E (snd (hgetall E s k now))"
    using assms by (simp add: hgetall_def ok_intros split: option.split)
  show "drift E (snd (hgetall E s k now)) = drift E s" if "memory_limit E > 0"
    using assms that by (auto simp: hgetall_def ok_intros intro!: drift_cong split: option.split)
qed

text \<open>
  \<^verbatim>\<open>hdel\<close> on a live hash. When the last field goes, the entry is removed at its size
  \<^emph>\<open>after\<close> the deletion, so the bytes of the deleted fields stay in \<^verbatim>\<open>MEMORY_USED\<close>.
\<close>

lemma drift_delta:
  assumes "store_ok E s" and "store_ok E s'" and "\<And>k'. k' \<noteq> k \<Longrightarrow> view E s' k' = view E s k'"
  shows "drift E s' = drift E s + (memory_used s' - memory_used s)
    + of_nat (stored_size E s k) - of_nat (stored_size E s' k)"
proof -
  have "(of_nat (total_size E s') :: u64) + of_nat (stored_size E s k) = of_nat (total_size E s) + of_nat (stored_size E s' k)"
    using total_update [OF assms] by (metis of_nat_add)
  then have "(of_nat (total_size E s') :: u64) = of_nat (total_size E s) + of_nat (stored_size E s' k) - of_nat (stored_size E s k)"
    by (simp add: algebra_simps)
  then show ?thesis by (simp add: drift_def)
qed

lemma hdel_hash:
  fixes fs
  assumes ok: "store_ok E s" and g: "shard_get E s k = Some e" "\<not> expired now e" "val e = HashV h"
  defines "h' \<equiv> snd (del_fields fs h)" and "n \<equiv> fst (del_fields fs h)"
  obtains s' where "hdel E s k fs now = (Inr n, s')" and "store_ok E s'"
    and "view E s' = (view E s)(k := if n > 0 \<and> h' = [] then None else Some (HashV h', expiry e))"
    and "memory_limit E > 0 \<Longrightarrow> memory_used s' = memory_used s -
      of_nat (if n > 0 then if h' = [] then size_of k (HashV []) else size_of k (HashV h) - size_of k (HashV h') else 0)"
proof -
  define s1 where "s1 = shard_modify E s k (val_update (\<lambda>_. HashV h'))"
  have "hm_ok h" using entry_ok_at [OF ok g(1)] g(3) by (simp add: entry_ok_def)
  then have ok1: "store_ok E s1"
    unfolding s1_def h'_def using ok by (intro ok_modify_entry) (auto simp: entry_ok_def del_fields_ok)
  have g1: "shard_get E s1 k = Some (val_update (\<lambda>_. HashV h') e)" and hash1: "hash E s1 = hash E s"
    using ok g(1) by (simp_all add: s1_def)
  have v1: "view E s1 = (view E s)(k \<mapsto> (HashV h', expiry e))"
    using ok g(1) by (simp add: s1_def view_modify)
  have m1: "memory_used s1 = memory_used s" by (simp add: s1_def)
  have le: "size_of k (HashV h') \<le> size_of k (HashV h)" unfolding h'_def by (rule del_fields_size)
  define s' where "s' = (if n > 0 then
       if h' = [] then mem_sub E (snd (shard_remove_at E s1 (hash E s1 k) k)) (size_of k (HashV []))
       else if size_of k (HashV h) > size_of k (HashV h') then mem_sub E s1 (size_of k (HashV h) - size_of k (HashV h')) else s1
     else s1)"
  show thesis
  proof (rule that [of s'])
    have s1e: "shard_modify E s k (val_update (\<lambda>_. HashV [])) = s1" if "h' = []"
      using that by (simp add: s1_def)
    have rm: "shard_remove_if_at E s1 (hash E s k) k is_empty_hash =
        (Some (val_update (\<lambda>_. HashV []) e), snd (shard_remove_at E s1 (hash E s1 k) k))" if "h' = []"
      using shard_remove_if_conv [OF ok1, of k is_empty_hash] g1 that
      by (simp add: is_empty_hash_def hash1)
    show "hdel E s k fs now = (Inr n, s')"
      by (cases "h' = []")
        (simp_all add: hdel_def g Let_def case_prod_beta s'_def n_def [symmetric] h'_def [symmetric]
          rm s1e hash1 s1_def [symmetric] size_of_def [symmetric] del: calculate_entry_size_simps)
    show "store_ok E s'"
      using ok1 hash_less [OF ok1, of k] by (auto simp: s'_def intro!: ok_intros)
    show "view E s' = (view E s)(k := if n > 0 \<and> h' = [] then None else Some (HashV h', expiry e))"
      using ok1 by (simp add: s'_def v1)
    show "memory_used s' = memory_used s -
        of_nat (if n > 0 then if h' = [] then size_of k (HashV []) else size_of k (HashV h) - size_of k (HashV h') else 0)"
      if "memory_limit E > 0"
      using that le by (auto simp: s'_def m1 mem_sub_def)
  qed
qed

lemma hdel_other:
  assumes "store_ok E s" and "\<And>m x. keyspace E s now k \<noteq> Some (Fields m, x)"
  shows "fst (hdel E s k fs now) = (if keyspace E s now k = None then Inr 0 else Inl wrongtype)"
    and "keyspace E (snd (hdel E s k fs now)) now = keyspace E s now"
    and "store_ok E (snd (hdel E s k fs now))"
    and "memory_limit E > 0 \<Longrightarrow> drift E (snd (hdel E s k fs now)) = drift E s"
proof -
  have nohash: "expired now e" if "shard_get E s k = Some e" "val e = HashV h" for e h
    using assms(2) [of "hm_get h" "expiry e"] that
    by (simp add: keyspace_def view_def visible_def content_of_def expired_past split: if_splits)
  then show "fst (hdel E s k fs now) = (if keyspace E s now k = None then Inr 0 else Inl wrongtype)"
    by (auto simp: hdel_def keyspace_def view_def visible_def expired_past
        split: option.split entry_value.split)
  show "keyspace E (snd (hdel E s k fs now)) now = keyspace E s now"
    "store_ok E (snd (hdel E s k fs now))"
    "memory_limit E > 0 \<Longrightarrow> drift E (snd (hdel E s k fs now)) = drift E s"
    using assms(1) nohash by (auto simp: hdel_def ok_intros split: option.split entry_value.split)
qed

lemma hset_effect:
  assumes "store_ok E s"
  shows "\<exists>r s'. hset E s k fvs now = Some (r, s') \<and> store_ok E s' \<and> (memory_limit E > 0 \<longrightarrow> drift E s' = drift E s)
    \<and> (case keyspace E s now k of
         Some (Str _, _) \<Rightarrow> r = Inl wrongtype \<and> view E s' = view E s
       | Some (Fields m, x) \<Rightarrow> r = Inr (card (fst ` set fvs - dom m))
           \<and> keyspace E s' now = (keyspace E s now)(k \<mapsto> (Fields (m ++ map_of (rev fvs)), x))
       | None \<Rightarrow> r = Inr (card (fst ` set fvs))
           \<and> keyspace E s' now = (keyspace E s now)(k \<mapsto> (Fields (map_of (rev fvs)), None)))"
proof -
  show ?thesis
  proof (cases "\<exists>b x. view E s k = Some (StringV b, x) \<and> \<not> past now x")
    case True
    then obtain b x where str: "view E s k = Some (StringV b, x)" "\<not> past now x" by blast
    have "drift E (snd (sampled_uptime E s)) = drift E s" by (simp add: drift_def)
    with str show ?thesis
      using hset_wrongtype [OF assms str, of fvs] ok_sampled_uptime [OF assms]
      by (simp add: keyspace_def visible_def content_of_def)
  next
    case False
    then have nostr: "past now x" if "view E s k = Some (StringV b, x)" for b x using that by blast
    show ?thesis
    proof (rule hset_sets [OF assms, of k now fvs])
      fix s' h x
      assume base: "case keyspace E s now k of Some (c, y) \<Rightarrow> c = Fields (hm_get h) \<and> x = y | None \<Rightarrow> h = [] \<and> x = None"
        and r: "hset E s k fvs now = Some (Inr (fst (set_fields fvs h)), s')" "store_ok E s'"
        and v: "view E s' = (view E s)(k \<mapsto> (HashV (snd (set_fields fvs h)), x))"
        and d: "memory_limit E > 0 \<Longrightarrow> drift E s' = drift E s"
      have x: "\<not> past now x"
        using base by (cases "view E s k") (auto simp: keyspace_def visible_def past_def split: if_splits)
      have "keyspace E s' now = (keyspace E s now)(k \<mapsto> (Fields (hm_get h ++ map_of (rev fvs)), x))"
        using x by (simp add: keyspace_def v visible_def content_of_def set_fields_get fun_eq_iff)
      moreover have "hm_get [] = (Map.empty :: bytes \<rightharpoonup> bytes)" by (rule ext) simp
      ultimately show ?thesis
        using base r d
        by (cases "keyspace E s now k") (auto simp: set_fields_count split: content.split)
    qed (use nostr in blast)
  qed
qed

lemma hdel_effect:
  assumes "store_ok E s" and "keyspace E s now k = Some (Fields m, x)"
  shows "fst (hdel E s k fs now) = Inr (card (set fs \<inter> dom m))
    \<and> keyspace E (snd (hdel E s k fs now)) now = (keyspace E s now)(k :=
         if set fs \<inter> dom m \<noteq> {} \<and> dom m \<subseteq> set fs then None else Some (Fields (m |` (- set fs)), x))
    \<and> store_ok E (snd (hdel E s k fs now))
    \<and> (memory_limit E > 0 \<longrightarrow> drift E (snd (hdel E s k fs now)) = drift E s
        + (if set fs \<inter> dom m \<noteq> {} \<and> dom m \<subseteq> set fs
           then of_nat (stored_size E s k - (length k + 192)) else 0))"
proof -
  obtain e h where e: "shard_get E s k = Some e" "\<not> expired now e" "val e = HashV h" "expiry e = x" "hm_get h = m"
    using assms(2)
    by (auto simp: keyspace_def view_def visible_def content_of_def expired_past
        split: bind_splits if_splits entry_value.splits)
  let ?h = "snd (del_fields fs h)" and ?n = "fst (del_fields fs h)"
  have fin: "finite (dom m)" using e(5) by (auto simp: hm_get_def [abs_def] finite_dom_map_of)
  have n: "?n = card (set fs \<inter> dom m)" by (simp add: del_fields_count e(5))
  have pos: "0 < ?n \<longleftrightarrow> set fs \<inter> dom m \<noteq> {}" by (simp add: n card_gt_0_iff)
  have get': "hm_get ?h = m |` (- set fs)" by (simp add: del_fields_get e(5))
  have "?h = [] \<longleftrightarrow> dom (hm_get ?h) = {}"
    by (cases ?h) (auto simp: hm_get_def [abs_def])
  then have empty: "?h = [] \<longleftrightarrow> dom m \<subseteq> set fs" by (auto simp: get' restrict_map_def dom_def split: if_splits)
  note size = stored_size_shard [of E s k, unfolded e(1), simplified, unfolded e(3)]
  from hdel_hash [OF assms(1) e(1-3), of fs] obtain s' where
    s': "hdel E s k fs now = (Inr ?n, s')" "store_ok E s'"
      "view E s' = (view E s)(k := if ?n > 0 \<and> ?h = [] then None else Some (HashV ?h, expiry e))"
      "memory_limit E > 0 \<Longrightarrow> memory_used s' = memory_used s - of_nat
        (if ?n > 0 then if ?h = [] then size_of k (HashV []) else size_of k (HashV h) - size_of k (HashV ?h) else 0)"
    by blast
  have "keyspace E s' now = (keyspace E s now)(k :=
         if ?n > 0 \<and> ?h = [] then None else Some (Fields (m |` (- set fs)), x))"
    by (rule ext) (use e(2) in \<open>simp add: keyspace_def s'(3) visible_def content_of_def get' e(4) expired_past\<close>)
  moreover have "drift E s' = drift E s + (if ?n > 0 \<and> ?h = [] then of_nat (stored_size E s k - (length k + 192)) else 0)"
    if limit: "memory_limit E > 0"
  proof -
    have d: "drift E s' = drift E s + (memory_used s' - memory_used s)
        + of_nat (stored_size E s k) - of_nat (stored_size E s' k)"
      by (rule drift_delta [OF assms(1) s'(2)]) (simp add: s'(3))
    have st': "stored_size E s' k = (if ?n > 0 \<and> ?h = [] then 0 else size_of k (HashV ?h))"
      by (simp add: stored_size_def s'(3))
    have le: "size_of k (HashV ?h) \<le> size_of k (HashV h)" "length k + 192 \<le> size_of k (HashV h)"
      using del_fields_size by (auto simp: size_of_def)
    show ?thesis
      unfolding d s'(4) [OF limit] st' size
      using le del_fields_none [of fs h] by (auto simp: of_nat_diff size_of_def [of k "HashV []"])
  qed
  ultimately show ?thesis using s'(1,2) n by (simp add: pos empty)
qed

end

text \<open>The small store after \<^verbatim>\<open>HSET h f x\<close>, for the concrete instances below.\<close>

definition small_db_h :: "(bytes, entry) hash_map db" where
  "small_db_h = snd (the (hset small_env small_db_k [104] [([102], [120])] 100))"

lemma small_db_h: "store_ok small_env small_db_h"
    "view small_env small_db_h = [[107] \<mapsto> (StringV [118], Some 105), [104] \<mapsto> (HashV [([102], [120])], None)]"
proof -
  have env: "store_env small_env" using small_env_dashmap by (simp add: store_env_def)
  have "store_ok small_env small_db_h \<and> view small_env small_db_h =
      (view small_env small_db_k)([104] \<mapsto> (HashV [([102], [120])], None))"
    by (rule store_env.hset_sets [OF env small_db_k_ok, of "[104]" 100 "[([102], [120])]"])
      (auto simp: small_db_k_view small_db_k_keyspace small_db_h_def hm_insert_def)
  then show "store_ok small_env small_db_h"
    "view small_env small_db_h = [[107] \<mapsto> (StringV [118], Some 105), [104] \<mapsto> (HashV [([102], [120])], None)]"
    by (simp_all add: small_db_k_view)
qed

lemma small_db_h_keyspace: "keyspace small_env small_db_h now [104] = Some (Fields [[102] \<mapsto> [120]], None)"
  by (simp add: keyspace_def small_db_h visible_def past_def content_of_def hm_get_def fun_eq_iff)

section \<open>Properties\<close>

text \<open>C22: \<^verbatim>\<open>HSET\<close> at the store always returns. On a key holding a live string it answers
  \<^verbatim>\<open>WRONGTYPE\<close> and changes no entry. Otherwise it writes the fields, later
  occurrences winning, into the live hash or into a new hash without expiry,
  counts the fields that were absent, changes no other key, and keeps the
  invariant and the memory accounting.\<close>

theorem hset_refines:
  assumes "dashmap (dash E)" and "store_ok E s" and "memory_limit E > 0"
  shows "\<exists>r s'. hset E s k fvs now = Some (r, s') \<and> store_ok E s' \<and> drift E s' = drift E s
    \<and> (case keyspace E s now k of
         Some (Str _, _) \<Rightarrow> r = Inl wrongtype \<and> view E s' = view E s
       | Some (Fields m, x) \<Rightarrow> r = Inr (card (fst ` set fvs - dom m))
           \<and> keyspace E s' now = (keyspace E s now)(k \<mapsto> (Fields (m ++ map_of (rev fvs)), x))
       | None \<Rightarrow> r = Inr (card (fst ` set fvs))
           \<and> keyspace E s' now = (keyspace E s now)(k \<mapsto> (Fields (map_of (rev fvs)), None)))"
  using store_env.hset_effect [of E s k fvs now] assms by (simp add: store_env_def)

theorem hset_refines_witness:
  "\<exists>s'. hset small_env small_db_k [104] [([102], [120])] 100 = Some (Inr 1, s')
    \<and> keyspace small_env s' 100 [104] = Some (Fields [[102] \<mapsto> [120]], None)"
  using hset_refines [OF small_env_dashmap small_db_k_ok small_env_limit, of "[104]" "[([102], [120])]" 100]
  by (auto simp: small_db_k_keyspace)

text \<open>\<^verbatim>\<open>HGET\<close> and \<^verbatim>\<open>HGETALL\<close> at the store: a field read returns the live field, a full read
  returns every field with its value exactly once, both answer \<^verbatim>\<open>WRONGTYPE\<close> on a
  live string and nothing on a missing or expired key; neither changes what a
  client can see, the invariant or the memory accounting.\<close>

theorem hash_reads_refine:
  assumes "dashmap (dash E)" and "store_ok E s" and "memory_limit E > 0"
  shows "(case keyspace E s now k of
        Some (Fields m, _) \<Rightarrow> fst (hget E s k f now) = Inr (m f)
          \<and> (\<exists>l. fst (hgetall E s k now) = Inr l \<and> even (length l)
              \<and> distinct (map fst (pairs_of l)) \<and> map_of (pairs_of l) = m)
      | Some (Str _, _) \<Rightarrow> fst (hget E s k f now) = Inl wrongtype \<and> fst (hgetall E s k now) = Inl wrongtype
      | None \<Rightarrow> fst (hget E s k f now) = Inr None \<and> fst (hgetall E s k now) = Inr [])
    \<and> (\<forall>s' \<in> {snd (hget E s k f now), snd (hgetall E s k now)}.
         keyspace E s' now = keyspace E s now \<and> store_ok E s' \<and> drift E s' = drift E s)"
proof -
  have env: "store_env E" using assms(1) by (simp add: store_env_def)
  show ?thesis
    using store_env.hget_effect [OF env assms(2), of k f now] store_env.hgetall_effect [OF env assms(2), of k now]
      assms(3)
    by (auto split: option.splits content.splits)
qed

theorem hash_reads_refine_witness:
  "fst (hget small_env small_db_h [104] [102] 100) = Inr (Some [120])
   \<and> keyspace small_env (snd (hgetall small_env small_db_h [104] 100)) 100 = keyspace small_env small_db_h 100"
  using hash_reads_refine [OF small_env_dashmap small_db_h(1) small_env_limit, of "[104]" "[102]" 100]
  by (simp add: small_db_h_keyspace)

text \<open>C23: \<^verbatim>\<open>HDEL\<close> at the store on a live hash removes exactly the named fields and counts
  those that existed; the key goes with its last field. The memory accounting is
  exact unless the hash becomes empty: then \<^verbatim>\<open>MEMORY_USED\<close> stays too high by the bytes of
  all the fields that were deleted.\<close>

theorem hdel_refines:
  assumes "dashmap (dash E)" and "store_ok E s" and "memory_limit E > 0"
    and "keyspace E s now k = Some (Fields m, x)"
  shows "fst (hdel E s k fs now) = Inr (card (set fs \<inter> dom m))
    \<and> keyspace E (snd (hdel E s k fs now)) now = (keyspace E s now)(k :=
         if set fs \<inter> dom m \<noteq> {} \<and> dom m \<subseteq> set fs then None else Some (Fields (m |` (- set fs)), x))
    \<and> store_ok E (snd (hdel E s k fs now))
    \<and> drift E (snd (hdel E s k fs now)) = drift E s
        + (if set fs \<inter> dom m \<noteq> {} \<and> dom m \<subseteq> set fs
           then of_nat (stored_size E s k - (length k + 192)) else 0)"
  using store_env.hdel_effect [of E s now k m x fs] assms by (simp add: store_env_def)

theorem hdel_refines_witness:
  "drift small_env (snd (hdel small_env small_db_h [104] [[102]] 100)) = drift small_env small_db_h + 2
   \<and> keyspace small_env (snd (hdel small_env small_db_h [104] [[102]] 100)) 100 [104] = None"
  using hdel_refines [OF small_env_dashmap small_db_h(1) small_env_limit small_db_h_keyspace [of 100], of "[[102]]"]
  by (simp add: stored_size_def small_db_h(2) size_of_def)

end
