(* ===== verification/Eviction.thy ===== *)
theory Eviction
  imports Store
begin

text \<open>
  Eviction under the memory limit and passive expiry: \<^verbatim>\<open>evict_if_needed\<close>, the three
  policies \<^verbatim>\<open>evict_lru\<close>, \<^verbatim>\<open>evict_random\<close>, \<^verbatim>\<open>evict_s3fifo\<close>, and \<^verbatim>\<open>expire_random_keys\<close> of
  \<^verbatim>\<open>src/src/store.rs\<close>. Every random choice is the next number of the generator,
  so the results hold for all of them.
\<close>

section \<open>Policies\<close>

text \<open>\<^verbatim>\<open>shard.iter().nth(skip)\<close>.\<close>

definition iter_nth :: "'m env \<Rightarrow> 'm \<Rightarrow> nat \<Rightarrow> (bytes \<times> entry) option" where
  "iter_nth E m skip =
     (if skip < length (dm_iter (dash E) m) then Some (dm_iter (dash E) m ! skip) else None)"

text \<open>A random entry of a random shard: the shard and, unless it is empty, the entry.\<close>

definition sample_entry :: "'m env \<Rightarrow> 'm db \<Rightarrow> (nat \<times> bytes \<times> entry) option \<times> 'm db" where
  "sample_entry E s =
     (let (shard_idx, s) = draw_usize (store_num_shards s) s;
          shard = shards s ! shard_idx;
          len = dm_len (dash E) shard
      in if len = 0 then (None, s)
         else (let (skip, s) = draw_usize len s
               in (map_option (\<lambda>(k, e). (shard_idx, k, e)) (iter_nth E shard skip), s)))"

text \<open>Remove an entry and account for it: the common end of the three policies.\<close>

definition evict_entry :: "'m env \<Rightarrow> 'm db \<Rightarrow> nat \<Rightarrow> bytes \<Rightarrow> nat option \<times> 'm db" where
  "evict_entry E s shard_idx key =
     (case shard_remove_at E s shard_idx key of
        (Some e, s) \<Rightarrow>
          (let sz = calculate_entry_size (length key) (val e)
           in (Some sz, s\<lparr>memory_used := memory_used s - of_nat sz, evicted_keys := evicted_keys s + 1\<rparr>))
      | (None, s) \<Rightarrow> (None, s))"

definition evicted_size :: "nat option \<times> 'm db \<Rightarrow> nat \<times> 'm db" where
  "evicted_size r = (case r of (Some sz, s) \<Rightarrow> (sz, s) | (None, s) \<Rightarrow> (0, s))"

fun lru_sampling ::
  "'m env \<Rightarrow> nat \<Rightarrow> 'm db \<Rightarrow> bytes option \<times> u32 \<times> nat \<Rightarrow> (bytes option \<times> u32 \<times> nat) \<times> 'm db" where
  "lru_sampling E 0 s oldest = (oldest, s)"
| "lru_sampling E (Suc n) s (oldest_key, oldest_time, oldest_shard_idx) =
     (case sample_entry E s of
        (Some (shard_idx, key, e), s) \<Rightarrow>
          if oldest_key = None \<or> last_accessed e < oldest_time
          then lru_sampling E n s (Some key, last_accessed e, shard_idx)
          else lru_sampling E n s (oldest_key, oldest_time, oldest_shard_idx)
      | (None, s) \<Rightarrow> lru_sampling E n s (oldest_key, oldest_time, oldest_shard_idx))"

definition evict_lru :: "'m env \<Rightarrow> 'm db \<Rightarrow> nat \<times> 'm db" where
  "evict_lru E s =
     (case lru_sampling E (eviction_sample_size (memory (conf E))) s (None, - 1, 0) of
        ((Some key, _, shard_idx), s) \<Rightarrow> evicted_size (evict_entry E s shard_idx key)
      | ((None, _, _), s) \<Rightarrow> (0, s))"

definition evict_random :: "'m env \<Rightarrow> 'm db \<Rightarrow> nat \<times> 'm db" where
  "evict_random E s =
     (case sample_entry E s of
        (Some (shard_idx, key, _), s) \<Rightarrow> evicted_size (evict_entry E s shard_idx key)
      | (None, s) \<Rightarrow> (0, s))"

text \<open>The front of the small queue, else of the main queue; a small key becomes a ghost.\<close>

definition pop_victim :: "'m env \<Rightarrow> 'm db \<Rightarrow> nat \<Rightarrow> bytes option \<times> 'm db" where
  "pop_victim E s i =
     (let q = s3fifo_queues s ! i in
      case small_queue q of
        key # rest \<Rightarrow>
          (let q = q\<lparr>small_queue := rest, small_set := small_set q - {key}\<rparr>;
               (t, s) = get_timestamp s
           in (Some key, s\<lparr>s3fifo_queues := (s3fifo_queues s)[i := add_to_ghost q (ahash E key) t]\<rparr>))
      | [] \<Rightarrow>
          (case main_queue q of
             key # rest \<Rightarrow>
               (Some key, s\<lparr>s3fifo_queues := (s3fifo_queues s)
                  [i := q\<lparr>main_queue := rest, main_set := main_set q - {key}\<rparr>]\<rparr>)
           | [] \<Rightarrow> (None, s)))"

fun s3fifo_attempts :: "'m env \<Rightarrow> nat \<Rightarrow> 'm db \<Rightarrow> nat \<times> 'm db" where
  "s3fifo_attempts E 0 s = (0, s)"
| "s3fifo_attempts E (Suc n) s =
     (let (shard_idx, s) = draw_usize (store_num_shards s) s
      in case pop_victim E s shard_idx of
           (Some key, s) \<Rightarrow>
             (case evict_entry E s shard_idx key of
                (Some sz, s) \<Rightarrow> (sz, s)
              | (None, s) \<Rightarrow> s3fifo_attempts E n s)
         | (None, s) \<Rightarrow> s3fifo_attempts E n s)"

definition evict_s3fifo :: "'m env \<Rightarrow> 'm db \<Rightarrow> nat \<times> 'm db" where
  "evict_s3fifo E s = s3fifo_attempts E (store_num_shards s) s"

section \<open>Eviction on demand\<close>

text \<open>The loop's \<^verbatim>\<open>NoEviction\<close> arm breaks: it evicts nothing.\<close>

definition evict_one :: "'m env \<Rightarrow> 'm db \<Rightarrow> nat \<times> 'm db" where
  "evict_one E s =
     (case policy_of (conf E) of
        AllKeysLru \<Rightarrow> evict_lru E s
      | AllKeysRandom \<Rightarrow> evict_random E s
      | AllKeysS3Fifo \<Rightarrow> evict_s3fifo E s
      | NoEviction \<Rightarrow> (0, s))"

fun evict_loop :: "'m env \<Rightarrow> nat \<Rightarrow> nat \<Rightarrow> nat \<Rightarrow> 'm db \<Rightarrow> 'm db" where
  "evict_loop E 0 needed_size freed s = s"
| "evict_loop E (Suc attempts) needed_size freed s =
     (if freed < needed_size then
        (let (evicted, s) = evict_one E s
         in if evicted = 0 then s else evict_loop E attempts needed_size (freed + evicted) s)
      else s)"

definition evict_if_needed :: "'m env \<Rightarrow> 'm db \<Rightarrow> nat \<Rightarrow> bool \<times> 'm db" where
  "evict_if_needed E s needed_size =
     (if memory_limit E = 0 then (True, s)
      else if memory_used s + of_nat needed_size \<le> memory_limit E then (True, s)
      else if policy_of (conf E) = NoEviction then (False, s)
      else (let s = evict_loop E 100 needed_size 0 s
            in (memory_used s + of_nat needed_size \<le> memory_limit E, s)))"

section \<open>Passive expiry\<close>

fun expire_samples :: "'m env \<Rightarrow> nat \<Rightarrow> u64 \<Rightarrow> 'm db \<Rightarrow> nat \<times> 'm db" where
  "expire_samples E 0 now s = (0, s)"
| "expire_samples E (Suc n) now s =
     (case sample_entry E s of
        (Some (shard_idx, key, e), s) \<Rightarrow>
          if expired now e then
            (case shard_remove_if_at E s shard_idx key (expired now) of
               (Some removed, s) \<Rightarrow>
                 (let s = mem_sub E s (calculate_entry_size (length key) (val removed));
                      (count, s) = expire_samples E n now s
                  in (count + 1, s))
             | (None, s) \<Rightarrow> expire_samples E n now s)
          else expire_samples E n now s
      | (None, s) \<Rightarrow> expire_samples E n now s)"

definition expire_random_keys :: "'m env \<Rightarrow> 'm db \<Rightarrow> nat \<Rightarrow> nat \<times> 'm db" where
  "expire_random_keys E s count =
     (let (now, s) = get_timestamp s in expire_samples E count now s)"

section \<open>Reference definitions\<close>

text \<open>The entries that \<open>n\<close> samples find, in the order they are drawn.\<close>

fun samples :: "'m env \<Rightarrow> nat \<Rightarrow> 'm db \<Rightarrow> (nat \<times> bytes \<times> entry) list" where
  "samples E 0 s = []"
| "samples E (Suc n) s =
     (case sample_entry E s of
        (Some p, s) \<Rightarrow> p # samples E n s
      | (None, s) \<Rightarrow> samples E n s)"

definition lru_samples :: "'m env \<Rightarrow> 'm db \<Rightarrow> (nat \<times> bytes \<times> entry) list" where
  "lru_samples E s = samples E (eviction_sample_size (memory (conf E))) s"

section \<open>What one eviction does\<close>

text \<open>Nothing happened, or exactly one entry is gone and accounted for at its size.\<close>

definition evict_step :: "'m env \<Rightarrow> 'm db \<Rightarrow> nat \<Rightarrow> 'm db \<Rightarrow> bool" where
  "evict_step E s n s' \<longleftrightarrow> store_ok E s'
     \<and> (if n = 0 then view E s' = view E s \<and> memory_used s' = memory_used s
        else \<exists>k v x. view E s k = Some (v, x) \<and> view E s' = (view E s)(k := None) \<and> n = size_of k v
               \<and> memory_used s' = memory_used s - of_nat n)"

text \<open>The oldest sample so far is stored where the sampling says.\<close>

definition lru_ok :: "'m env \<Rightarrow> 'm db \<Rightarrow> bytes option \<times> u32 \<times> nat \<Rightarrow> bool" where
  "lru_ok E s o' \<longleftrightarrow> (case o' of (Some k, t, i) \<Rightarrow> i = hash E s k \<and>
      (\<exists>e. shard_get E s k = Some e \<and> t = last_accessed e) | (None, _, _) \<Rightarrow> True)"

lemma size_of_pos [simp]: "0 < size_of k v" "size_of k v \<noteq> 0"
  by (cases v; simp add: size_of_def)+

lemma same_entries_rng [simp]: "same_entries s (s\<lparr>rng := r\<rparr>)"
  by (simp add: same_entries_def)

lemmas rng_simps [simp] = same_entriesD [OF same_entries_rng]

context store_env
begin

lemma ok_rng [simp]: "store_ok E (s\<lparr>rng := r\<rparr>) = store_ok E s"
  by (simp add: store_ok_def shard_ok_def hash_def)

lemma sample_entry_rng: "\<exists>r. snd (sample_entry E s) = s\<lparr>rng := r\<rparr>"
  by (auto simp: sample_entry_def draw_usize_def Let_def)

lemma sample_entry_Some:
  assumes "store_ok E s" and "fst (sample_entry E s) = Some (i, k, e)"
  shows "i = hash E s k" and "shard_get E s k = Some e"
proof -
  let ?m = "shards s ! i"
  have i: "i < store_num_shards s" and "\<exists>n. iter_nth E ?m n = Some (k, e)"
    using assms by (auto simp: sample_entry_def draw_usize_def Let_def store_ok_def split: if_splits)
  then have "(k, e) \<in> set (dm_iter (dash E) ?m)"
    by (auto simp: iter_nth_def in_set_conv_nth split: if_splits)
  then show "i = hash E s k" "shard_get E s k = Some e"
    using assms(1) i by (simp_all add: iter_mem get_at)
qed

lemma evict_entry_step:
  assumes "store_ok E s" and "shard_get E s k = Some e"
  shows "fst (evict_entry E s (hash E s k) k) = Some (size_of k (val e))"
    and "evict_step E s (size_of k (val e)) (snd (evict_entry E s (hash E s k) k))"
proof -
  let ?s = "snd (shard_remove_at E s (hash E s k) k)"
  have conv: "evict_entry E s (hash E s k) k =
      (Some (size_of k (val e)), ?s\<lparr>memory_used := memory_used ?s - of_nat (size_of k (val e)),
        evicted_keys := evicted_keys ?s + 1\<rparr>)"
    using assms(2) by (simp add: evict_entry_def shard_remove_at_def shard_get_def size_of_def Let_def)
  have ok: "store_ok E ?s" using assms(1) hash_less [OF assms(1)] by (rule ok_remove_at)
  have same: "same_entries ?s (?s\<lparr>memory_used := a, evicted_keys := b\<rparr>)" for a b
    by (simp add: same_entries_def)
  show "fst (evict_entry E s (hash E s k) k) = Some (size_of k (val e))" by (simp add: conv)
  show "evict_step E s (size_of k (val e)) (snd (evict_entry E s (hash E s k) k))"
    unfolding conv evict_step_def
    using assms ok_same_entries [OF ok same] same_entriesD(3) [OF same]
    by (auto simp: view_def [of E s])
qed

lemma evict_entry_view:
  assumes "store_ok E s"
  shows "view E (snd (evict_entry E s (hash E s k) k)) = (view E s)(k := None)"
proof -
  have "view E (s'\<lparr>memory_used := a, evicted_keys := b\<rparr>) = view E s'" for s' a b
    by (rule same_entriesD) (simp add: same_entries_def)
  then show ?thesis
    using view_remove [OF assms, of k]
    by (auto simp: evict_entry_def Let_def case_prod_beta split: option.split)
qed

lemma evict_step_refl: "store_ok E s \<Longrightarrow> evict_step E s 0 s"
  by (simp add: evict_step_def)

lemma evict_step_same:
  assumes "evict_step E s' n s''" and "view E s' = view E s" and "memory_used s' = memory_used s"
  shows "evict_step E s n s''"
  using assms(1) unfolding evict_step_def assms(2,3) .

lemma evict_random_step: "store_ok E s \<Longrightarrow> evict_step E s (fst (evict_random E s)) (snd (evict_random E s))"
proof -
  assume ok: "store_ok E s"
  obtain r where r: "snd (sample_entry E s) = s\<lparr>rng := r\<rparr>" using sample_entry_rng by blast
  show ?thesis
  proof (cases "fst (sample_entry E s)")
    case None
    with r ok show ?thesis
      by (cases "sample_entry E s") (simp add: evict_random_def evict_step_def)
  next
    case (Some p)
    obtain i k e where p: "p = (i, k, e)" by (cases p) auto
    note g = sample_entry_Some [OF ok Some [unfolded p]]
    have "store_ok E (s\<lparr>rng := r\<rparr>)" "shard_get E (s\<lparr>rng := r\<rparr>) k = Some e" using ok g by simp_all
    from evict_entry_step [OF this] show ?thesis
      using r Some p g(1)
      by (cases "sample_entry E s", cases "evict_entry E (s\<lparr>rng := r\<rparr>) i k")
        (auto simp: evict_random_def evicted_size_def intro: evict_step_same)
  qed
qed

lemma lru_sampling_ok:
  assumes "store_ok E s" and "lru_ok E s o'"
  shows "\<exists>r. snd (lru_sampling E n s o') = s\<lparr>rng := r\<rparr> \<and> lru_ok E s (fst (lru_sampling E n s o'))"
  using assms
proof (induction n arbitrary: s o')
  case 0
  then show ?case by (intro exI [of _ "rng s"]) simp
next
  case (Suc n)
  obtain ok' ot oi where o': "o' = (ok', ot, oi)" by (cases o') auto
  obtain r where r: "snd (sample_entry E s) = s\<lparr>rng := r\<rparr>" using sample_entry_rng by blast
  have lru_rng: "lru_ok E (s\<lparr>rng := r\<rparr>) = lru_ok E s"
    by (simp add: lru_ok_def fun_eq_iff split: option.split)
  have IH: "\<exists>r'. snd (lru_sampling E n (s\<lparr>rng := r\<rparr>) o'') = s\<lparr>rng := r'\<rparr>
      \<and> lru_ok E s (fst (lru_sampling E n (s\<lparr>rng := r\<rparr>) o''))" if "lru_ok E s o''" for o''
    using Suc.IH [of "s\<lparr>rng := r\<rparr>" o''] Suc.prems(1) that by (simp add: lru_rng)
  show ?case
  proof (cases "fst (sample_entry E s)")
    case None
    then have "sample_entry E s = (None, s\<lparr>rng := r\<rparr>)" using r by (metis prod.collapse)
    then show ?thesis using IH [OF Suc.prems(2)] o' by simp
  next
    case (Some p)
    obtain i k e where p: "p = (i, k, e)" by (cases p) auto
    then have se: "sample_entry E s = (Some (i, k, e), s\<lparr>rng := r\<rparr>)" using r Some by (metis prod.collapse)
    have "lru_ok E s (Some k, last_accessed e, i)"
      using sample_entry_Some [OF Suc.prems(1) Some [unfolded p]] by (simp add: lru_ok_def)
    from IH [OF this] IH [OF Suc.prems(2)] show ?thesis using se o' by simp
  qed
qed

lemma evict_lru_step: "store_ok E s \<Longrightarrow> evict_step E s (fst (evict_lru E s)) (snd (evict_lru E s))"
proof -
  assume ok: "store_ok E s"
  let ?run = "lru_sampling E (eviction_sample_size (memory (conf E))) s (None, - 1, 0)"
  obtain r where r: "snd ?run = s\<lparr>rng := r\<rparr>" and l: "lru_ok E s (fst ?run)"
    using lru_sampling_ok [OF ok, of "(None, - 1, 0)"] by (auto simp: lru_ok_def)
  obtain ko t i where run: "?run = ((ko, t, i), s\<lparr>rng := r\<rparr>)" using r by (metis prod.collapse)
  show ?thesis
  proof (cases ko)
    case None
    then show ?thesis using ok run by (simp add: evict_lru_def evict_step_def)
  next
    case (Some k)
    obtain e where g: "i = hash E s k" "shard_get E s k = Some e"
      using l run Some by (auto simp: lru_ok_def)
    have "store_ok E (s\<lparr>rng := r\<rparr>)" "shard_get E (s\<lparr>rng := r\<rparr>) k = Some e" using ok g by simp_all
    from evict_entry_step [OF this] show ?thesis
      using run Some g(1)
      by (cases "evict_entry E (s\<lparr>rng := r\<rparr>) i k")
        (auto simp: evict_lru_def evicted_size_def intro: evict_step_same)
  qed
qed

text \<open>S3-FIFO: popping a victim only touches the queues and the clock.\<close>

lemma ok_set_queue:
  assumes "store_ok E s" and "i < store_num_shards s" and "queues_ok q"
  shows "store_ok E (s\<lparr>clock := c, s3fifo_queues := (s3fifo_queues s)[i := q]\<rparr>)"
  using assms by (auto simp: store_ok_def shard_ok_def hash_def dest!: set_update_subset_insert [THEN subsetD])

lemma pop_victim_effect:
  assumes "store_ok E s" and "i < store_num_shards s"
  shows "store_ok E (snd (pop_victim E s i)) \<and> same_entries s (snd (pop_victim E s i))
    \<and> memory_used (snd (pop_victim E s i)) = memory_used s"
proof -
  let ?q = "s3fifo_queues s ! i"
  have q: "queues_ok ?q" using assms by (simp add: store_ok_def)
  show ?thesis
  proof (cases "small_queue ?q")
    case (Cons key rest)
    then have "queues_ok (?q\<lparr>small_queue := rest, small_set := small_set ?q - {key}\<rparr>)"
      using q by (auto simp: queues_ok_def queue_ok_def)
    then have "queues_ok (add_to_ghost (?q\<lparr>small_queue := rest, small_set := small_set ?q - {key}\<rparr>) (ahash E key) t)" for t
      by (rule queue_intros)
    from ok_set_queue [OF assms this] show ?thesis
      by (simp add: pop_victim_def Cons Let_def get_timestamp_def same_entries_def)
  next
    case Nil
    show ?thesis
    proof (cases "main_queue ?q")
      case (Cons key rest)
      then have "queues_ok (?q\<lparr>main_queue := rest, main_set := main_set ?q - {key}\<rparr>)"
        using q by (auto simp: queues_ok_def queue_ok_def)
      from ok_set_queue [OF assms this, of "clock s"] show ?thesis
        by (simp add: pop_victim_def Nil Cons Let_def same_entries_def)
    qed (use Nil assms in \<open>simp add: pop_victim_def\<close>)
  qed
qed

lemma evict_entry_absent:
  assumes "store_ok E s" and "i < store_num_shards s" and "dm_get (dash E) (shards s ! i) k = None"
  shows "fst (evict_entry E s i k) = None" and "evict_step E s 0 (snd (evict_entry E s i k))"
proof -
  let ?s = "snd (shard_remove_at E s i k)"
  have conv: "evict_entry E s i k = (None, ?s)"
    using assms(3) by (simp add: evict_entry_def shard_remove_at_def)
  have "shard_get E ?s k' = shard_get E s k'" for k'
    using assms by (auto simp: shard_remove_at_def shard_get_def hash_def nth_list_update store_ok_def shard_ok_def)
  then have "view E ?s = view E s" by (simp add: view_def fun_eq_iff)
  then show "fst (evict_entry E s i k) = None" "evict_step E s 0 (snd (evict_entry E s i k))"
    using assms ok_remove_at [OF assms(1,2)] by (simp_all add: conv evict_step_def)
qed

lemma s3fifo_attempts_step:
  "store_ok E s \<Longrightarrow> evict_step E s (fst (s3fifo_attempts E n s)) (snd (s3fifo_attempts E n s))"
proof (induction n arbitrary: s)
  case 0
  then show ?case by (simp add: evict_step_refl)
next
  case (Suc n)
  define i where "i = fst (draw_usize (store_num_shards s) s)"
  define s1 where "s1 = snd (draw_usize (store_num_shards s) s)"
  obtain ko s2 where pop: "pop_victim E s1 i = (ko, s2)" by (cases "pop_victim E s1 i")
  have s1: "store_ok E s1" "view E s1 = view E s" "memory_used s1 = memory_used s" "i < store_num_shards s1"
    using Suc.prems by (simp_all add: s1_def i_def draw_usize_def) (simp add: store_ok_def)
  from pop_victim_effect [OF s1(1,4)] have p: "store_ok E s2" "same_entries s1 s2" "memory_used s2 = memory_used s1"
    by (simp_all add: pop)
  have s2: "view E s2 = view E s" "memory_used s2 = memory_used s" "i < store_num_shards s2"
    using s1 p same_entriesD(3) [OF p(2)] by (simp_all add: same_entries_def)
  have unfold: "s3fifo_attempts E (Suc n) s = (case ko of
       Some key \<Rightarrow> (case evict_entry E s2 i key of (Some sz, s) \<Rightarrow> (sz, s) | (None, s) \<Rightarrow> s3fifo_attempts E n s)
     | None \<Rightarrow> s3fifo_attempts E n s2)"
  proof -
    have "draw_usize (store_num_shards s) s = (i, s1)" by (simp add: i_def s1_def)
    then show ?thesis by (cases ko) (simp_all add: pop)
  qed
  have again: "evict_step E s (fst (s3fifo_attempts E n s')) (snd (s3fifo_attempts E n s'))"
    if "evict_step E s2 0 s'" for s'
  proof -
    have "store_ok E s'" "view E s' = view E s" "memory_used s' = memory_used s"
      using that s2 by (simp_all add: evict_step_def)
    then show ?thesis by (intro evict_step_same [OF Suc.IH]) simp_all
  qed
  show ?case
  proof (cases ko)
    case None
    then show ?thesis using again [OF evict_step_refl [OF p(1)]] by (simp add: unfold del: s3fifo_attempts.simps)
  next
    case (Some key)
    show ?thesis
    proof (cases "dm_get (dash E) (shards s2 ! i) key")
      case None
      from evict_entry_absent [OF p(1) s2(3) None] show ?thesis
        using again Some by (cases "evict_entry E s2 i key") (simp add: unfold del: s3fifo_attempts.simps)
    next
      case (Some e)
      then have g: "shard_get E s2 key = Some e" "hash E s2 key = i" using get_at [OF p(1) s2(3)] by auto
      from evict_entry_step [OF p(1) g(1)] show ?thesis
        using \<open>ko = Some key\<close> g(2) s2
        by (cases "evict_entry E s2 i key") (auto simp: unfold simp del: s3fifo_attempts.simps intro: evict_step_same)
    qed
  qed
qed

lemma evict_one_step: "store_ok E s \<Longrightarrow> evict_step E s (fst (evict_one E s)) (snd (evict_one E s))"
  by (simp add: evict_one_def evict_s3fifo_def evict_lru_step evict_random_step s3fifo_attempts_step
      evict_step_refl split: evict_policy.split)

text \<open>The loop.\<close>

lemma evict_step_drift: "store_ok E s \<Longrightarrow> evict_step E s n s' \<Longrightarrow> drift E s' = drift E s"
proof (cases "n = 0")
  case True
  assume "store_ok E s" and "evict_step E s n s'"
  with True show ?thesis by (intro drift_cong) (simp_all add: evict_step_def)
next
  case False
  assume ok: "store_ok E s" and step: "evict_step E s n s'"
  with False obtain k v x where k: "view E s k = Some (v, x)" "view E s' = (view E s)(k := None)" "n = size_of k v"
      "memory_used s' = memory_used s - of_nat n" by (auto simp: evict_step_def)
  show ?thesis
    by (rule drift_update [OF ok _ , of _ k]) (use k step in \<open>simp_all add: evict_step_def stored_size_def\<close>)
qed

lemma evict_step_view: "evict_step E s n s' \<Longrightarrow> view E s' \<subseteq>\<^sub>m view E s"
  by (auto simp: evict_step_def map_le_def split: if_splits)

lemma evict_step_card:
  "store_ok E s \<Longrightarrow> evict_step E s n s' \<Longrightarrow> card (dom (view E s)) \<le> Suc (card (dom (view E s')))"
  by (cases "n = 0") (auto simp: evict_step_def card_Suc_Diff1 domI)

lemma evict_loop_effect:
  assumes "store_ok E s"
  shows "store_ok E (evict_loop E a needed freed s) \<and> drift E (evict_loop E a needed freed s) = drift E s
    \<and> view E (evict_loop E a needed freed s) \<subseteq>\<^sub>m view E s
    \<and> card (dom (view E s)) \<le> a + card (dom (view E (evict_loop E a needed freed s)))"
  using assms
proof (induction a arbitrary: freed s)
  case (Suc a)
  let ?n = "fst (evict_one E s)" and ?s = "snd (evict_one E s)"
  have step: "evict_step E s ?n ?s" using Suc.prems by (rule evict_one_step)
  then have ok: "store_ok E ?s" by (simp add: evict_step_def)
  note IH = Suc.IH [OF ok, of "freed + ?n"]
  note facts = evict_step_drift [OF Suc.prems step] evict_step_view [OF step] evict_step_card [OF Suc.prems step]
  show ?case
    using IH facts ok Suc.prems by (auto simp: case_prod_beta Let_def intro: map_le_trans)
qed simp

lemma evict_if_needed_effect:
  assumes "store_ok E s"
  shows "store_ok E (snd (evict_if_needed E s n)) \<and> drift E (snd (evict_if_needed E s n)) = drift E s
    \<and> view E (snd (evict_if_needed E s n)) \<subseteq>\<^sub>m view E s
    \<and> card (dom (view E s)) \<le> 100 + card (dom (view E (snd (evict_if_needed E s n))))"
  using assms evict_loop_effect [OF assms, of 100 n 0] by (simp add: evict_if_needed_def Let_def)

lemma total_size_mono:
  assumes "store_ok E s" and "store_ok E s'" and le: "view E s' \<subseteq>\<^sub>m view E s"
  shows "total_size E s' \<le> total_size E s"
proof -
  have "(\<Sum>k\<in>dom (view E s'). size_of k (fst (the (view E s' k)))) =
      (\<Sum>k\<in>dom (view E s'). size_of k (fst (the (view E s k))))"
    using le by (auto simp: map_le_def intro!: sum.cong)
  also have "\<dots> \<le> (\<Sum>k\<in>dom (view E s). size_of k (fst (the (view E s k))))"
    using assms(1) map_le_implies_dom_le [OF le] by (intro sum_mono2) auto
  finally show ?thesis by (simp add: total_view assms)
qed

text \<open>LRU: the key the sampling ends with is the oldest of the samples.\<close>

lemma lru_sampling_min:
  assumes "fst (lru_sampling E n s (Some k, t, i)) = (ko, t', i')"
  shows "\<exists>k'. ko = Some k' \<and> t' \<le> t \<and> (\<forall>(j, l, e) \<in> set (samples E n s). t' \<le> last_accessed e)
    \<and> ((k', t', i') = (k, t, i) \<or> (\<exists>e. (i', k', e) \<in> set (samples E n s) \<and> t' = last_accessed e))"
  using assms
proof (induction n arbitrary: s k t i)
  case (Suc n)
  obtain po s1 where se: "sample_entry E s = (po, s1)" by (cases "sample_entry E s")
  show ?case
  proof (cases po)
    case None
    then show ?thesis using Suc.IH [of s1 k t i] Suc.prems se by simp
  next
    case (Some p)
    obtain j l e where p: "p = (j, l, e)" by (cases p) auto
    show ?thesis
    proof (cases "last_accessed e < t")
      case True
      then show ?thesis
        using Suc.IH [of s1 l "last_accessed e" j] Suc.prems se Some p by auto
    next
      case False
      then show ?thesis
        using Suc.IH [of s1 k t i] Suc.prems se Some p by auto
    qed
  qed
qed simp

lemma lru_sampling_start:
  assumes "fst (lru_sampling E n s (None, t, i)) = (ko, t', i')"
  shows "case ko of None \<Rightarrow> samples E n s = []
    | Some k' \<Rightarrow> \<exists>e. (i', k', e) \<in> set (samples E n s)
        \<and> (\<forall>(j, l, e') \<in> set (samples E n s). last_accessed e \<le> last_accessed e')"
  using assms
proof (induction n arbitrary: s)
  case (Suc n)
  obtain po s1 where se: "sample_entry E s = (po, s1)" by (cases "sample_entry E s")
  show ?case
  proof (cases po)
    case None
    then have eq: "samples E (Suc n) s = samples E n s1" using se by simp
    have "fst (lru_sampling E n s1 (None, t, i)) = (ko, t', i')" using Suc.prems se None by simp
    from Suc.IH [OF this] show ?thesis unfolding eq .
  next
    case (Some p)
    obtain j l e where p: "p = (j, l, e)" by (cases p) auto
    then have "fst (lru_sampling E n s1 (Some l, last_accessed e, j)) = (ko, t', i')"
      using Suc.prems se Some by simp
    from lru_sampling_min [OF this] show ?thesis using se Some p by auto
  qed
qed auto

lemma samples_stored:
  assumes "store_ok E s" and "(i, k, e) \<in> set (samples E n s)"
  shows "i = hash E s k \<and> shard_get E s k = Some e"
  using assms
proof (induction n arbitrary: s)
  case (Suc n)
  obtain r where r: "snd (sample_entry E s) = s\<lparr>rng := r\<rparr>" using sample_entry_rng by blast
  then have rest: "(i, k, e) \<in> set (samples E n (s\<lparr>rng := r\<rparr>)) \<Longrightarrow> ?case"
    using Suc.IH [of "s\<lparr>rng := r\<rparr>"] Suc.prems(1) by simp
  obtain po where "sample_entry E s = (po, s\<lparr>rng := r\<rparr>)" using r by (metis prod.collapse)
  with Suc.prems rest sample_entry_Some [OF Suc.prems(1), of i k e] show ?case
    by (cases po) auto
qed simp

text \<open>Passive expiry.\<close>

lemma expire_samples_effect:
  assumes "store_ok E s"
  shows "store_ok E (snd (expire_samples E n now s))
    \<and> keyspace E (snd (expire_samples E n now s)) now = keyspace E s now
    \<and> view E (snd (expire_samples E n now s)) \<subseteq>\<^sub>m view E s
    \<and> card (dom (view E s)) = fst (expire_samples E n now s) + card (dom (view E (snd (expire_samples E n now s))))
    \<and> (memory_limit E > 0 \<longrightarrow> drift E (snd (expire_samples E n now s)) = drift E s)"
  using assms
proof (induction n arbitrary: s)
  case (Suc n)
  obtain r where r: "snd (sample_entry E s) = s\<lparr>rng := r\<rparr>" using sample_entry_rng by blast
  have ok1: "store_ok E (s\<lparr>rng := r\<rparr>)" using Suc.prems by simp
  have same: "keyspace E (s\<lparr>rng := r\<rparr>) = keyspace E s" "drift E (s\<lparr>rng := r\<rparr>) = drift E s"
    by (simp_all add: keyspace_def drift_def fun_eq_iff)
  note skip = Suc.IH [OF ok1, unfolded same rng_simps]
  show ?case
  proof (cases "fst (sample_entry E s)")
    case None
    then have "sample_entry E s = (None, s\<lparr>rng := r\<rparr>)" using r by (metis prod.collapse)
    then show ?thesis using skip by simp
  next
    case (Some p)
    obtain i k e where p: "p = (i, k, e)" by (cases p) auto
    then have se: "sample_entry E s = (Some (i, k, e), s\<lparr>rng := r\<rparr>)" using r Some by (metis prod.collapse)
    note g = sample_entry_Some [OF Suc.prems Some [unfolded p]]
    show ?thesis
    proof (cases "expired now e")
      case False
      then show ?thesis using skip se by simp
    next
      case True
      let ?s = "expire_key E (s\<lparr>rng := r\<rparr>) k now"
      have ok2: "store_ok E ?s" using ok1 by (rule ok_expire_key)
      have v2: "view E ?s = (view E s)(k := None)"
        using True g(2) by (simp add: view_expire_key [OF ok1] view_def expired_past)
      have k: "view E s k \<noteq> None" using g(2) by (simp add: view_def)
      have "card (dom (view E s)) = Suc (card (dom (view E ?s)))"
        using card_Suc_Diff1 [OF finite_dom_view [OF Suc.prems], of k] k
        by (simp only: v2 dom_fun_upd domIff) simp
      moreover have "view E ?s \<subseteq>\<^sub>m view E s" by (simp add: v2 map_le_def)
      moreover have "keyspace E ?s now = keyspace E s now" using ok1 same by simp
      moreover have "memory_limit E > 0 \<longrightarrow> drift E ?s = drift E s" using ok1 same by simp
      moreover have "expire_samples E (Suc n) now s =
          (fst (expire_samples E n now ?s) + 1, snd (expire_samples E n now ?s))"
        using True g by (simp add: se expire_key_conv [OF ok1] shard_remove_if_conv [OF ok1, simplified]
            case_prod_beta size_of_def Let_def)
      ultimately show ?thesis
        using Suc.IH [OF ok2] by (auto intro: map_le_trans simp del: expire_samples.simps)
    qed
  qed
qed simp

end

text \<open>The small store with its one entry accounted for, for the concrete instances below.\<close>

definition small_db_a :: "(bytes, entry) hash_map db" where
  "small_db_a = small_db_k\<lparr>memory_used := 66\<rparr>"

lemma small_db_a: "store_ok small_env small_db_a" "view small_env small_db_a = [[107] \<mapsto> (StringV [118], Some 105)]"
  "total_size small_env small_db_a = 66" "drift small_env small_db_a = 0"
proof -
  have same: "same_entries small_db_k small_db_a" by (simp add: small_db_a_def same_entries_def)
  have env: "store_env small_env" using small_env_dashmap by (simp add: store_env_def)
  show ok: "store_ok small_env small_db_a"
    by (rule store_env.ok_same_entries [OF env small_db_k_ok same]) (simp add: small_db_a_def)
  show v: "view small_env small_db_a = [[107] \<mapsto> (StringV [118], Some 105)]"
    by (simp add: same_entriesD [OF same] small_db_k_view)
  show t: "total_size small_env small_db_a = 66"
    by (simp add: store_env.total_view [OF env ok] v size_of_def)
  show "drift small_env small_db_a = 0"
    by (simp add: drift_def t) (simp add: small_db_a_def)
qed

section \<open>Properties\<close>

text \<open>C16: Eviction on demand is sound: with exact accounting and sizes below \<open>2 ^ 64\<close>,
  \<^verbatim>\<open>evict_if_needed\<close> answers yes exactly when the entries that are left and the needed
  bytes fit the limit together. It only removes entries, at most 100 of them,
  keeps the invariant and the accounting, and under \<^verbatim>\<open>noeviction\<close> removes nothing.\<close>

theorem evict_if_needed_sound:
  assumes "dashmap (dash E)" and "store_ok E s" and "memory_limit E > 0"
    and "drift E s = 0" and "total_size E s + n < 2 ^ 64"
  shows "(fst (evict_if_needed E s n) \<longleftrightarrow> total_size E (snd (evict_if_needed E s n)) + n \<le> unat (memory_limit E))
    \<and> view E (snd (evict_if_needed E s n)) \<subseteq>\<^sub>m view E s
    \<and> card (dom (view E s)) \<le> 100 + card (dom (view E (snd (evict_if_needed E s n))))
    \<and> store_ok E (snd (evict_if_needed E s n)) \<and> drift E (snd (evict_if_needed E s n)) = 0
    \<and> (policy_of (conf E) = NoEviction \<longrightarrow> snd (evict_if_needed E s n) = s)"
proof -
  have env: "store_env E" using assms(1) by (simp add: store_env_def)
  let ?s = "snd (evict_if_needed E s n)"
  note eff = store_env.evict_if_needed_effect [OF env assms(2), of n]
  have "total_size E ?s \<le> total_size E s"
    using eff assms(2) by (intro store_env.total_size_mono [OF env]) auto
  then have small: "total_size E ?s + n < 2 ^ 64" using assms(5) by simp
  have "memory_used ?s = of_nat (total_size E ?s)" using eff assms(4) by (simp add: drift_def)
  then have sum: "memory_used ?s + of_nat n = of_nat (total_size E ?s + n)" by simp
  have "unat (memory_used ?s + of_nat n) = total_size E ?s + n"
    unfolding sum using small by (intro unat_of_nat_u64)
  then have "fst (evict_if_needed E s n) \<longleftrightarrow> total_size E ?s + n \<le> unat (memory_limit E)"
    using assms(3) by (auto simp: evict_if_needed_def word_le_nat_alt Let_def split: if_splits)
  moreover have "policy_of (conf E) = NoEviction \<longrightarrow> ?s = s" by (simp add: evict_if_needed_def)
  ultimately show ?thesis using eff assms(4) by simp
qed

theorem evict_if_needed_sound_witness:
  "store_ok small_env (snd (evict_if_needed small_env small_db_a 9990))
   \<and> drift small_env (snd (evict_if_needed small_env small_db_a 9990)) = 0"
  using evict_if_needed_sound [OF small_env_dashmap small_db_a(1) small_env_limit small_db_a(4), of 9990]
  by (simp add: small_db_a(3))

text \<open>LRU eviction removes the least recently used of the sampled entries: when the
  samples found any entry, the one removed has the smallest recorded access time
  among them, and the result is its size; when they found none, nothing is removed.\<close>

theorem evict_lru_oldest:
  assumes "dashmap (dash E)" and "store_ok E s"
  shows "(lru_samples E s = [] \<longrightarrow> fst (evict_lru E s) = 0 \<and> view E (snd (evict_lru E s)) = view E s)
    \<and> (lru_samples E s \<noteq> [] \<longrightarrow> (\<exists>i k e. (i, k, e) \<in> set (lru_samples E s) \<and> shard_get E s k = Some e
         \<and> (\<forall>(i', k', e') \<in> set (lru_samples E s). last_accessed e \<le> last_accessed e')
         \<and> view E (snd (evict_lru E s)) = (view E s)(k := None)
         \<and> fst (evict_lru E s) = size_of k (val e)))"
proof -
  let ?found = "lru_samples E s"
  have env: "store_env E" using assms(1) by (simp add: store_env_def)
  let ?run = "lru_sampling E (eviction_sample_size (memory (conf E))) s (None, - 1, 0)"
  obtain r where r: "snd ?run = s\<lparr>rng := r\<rparr>" and l: "lru_ok E s (fst ?run)"
    using store_env.lru_sampling_ok [OF env assms(2), of "(None, - 1, 0)"] by (auto simp: lru_ok_def)
  obtain ko t i where run: "?run = ((ko, t, i), s\<lparr>rng := r\<rparr>)" using r by (metis prod.collapse)
  then have start: "case ko of None \<Rightarrow> ?found = []
    | Some k' \<Rightarrow> \<exists>e. (i, k', e) \<in> set ?found \<and> (\<forall>(j, l, e') \<in> set ?found. last_accessed e \<le> last_accessed e')"
    unfolding lru_samples_def by (intro store_env.lru_sampling_start [OF env, of _ _ "- 1" 0 _ t]) simp
  show ?thesis
  proof (cases ko)
    case None
    then show ?thesis using start run by (simp add: evict_lru_def)
  next
    case (Some k)
    obtain e where e: "(i, k, e) \<in> set ?found" "\<forall>(j, l, e') \<in> set ?found. last_accessed e \<le> last_accessed e'"
      using start Some by auto
    have g: "i = hash E s k" "shard_get E s k = Some e"
      using store_env.samples_stored [OF env assms(2) e(1) [unfolded lru_samples_def]] by auto
    have "store_ok E (s\<lparr>rng := r\<rparr>)" "shard_get E (s\<lparr>rng := r\<rparr>) k = Some e"
      using assms(2) g by (simp_all add: store_env.ok_rng [OF env])
    note ev = store_env.evict_entry_step [OF env this]
    have "evict_lru E s = (size_of k (val e), snd (evict_entry E (s\<lparr>rng := r\<rparr>) i k))"
      using ev(1) run Some g(1)
      by (cases "evict_entry E (s\<lparr>rng := r\<rparr>) i k") (simp add: evict_lru_def evicted_size_def)
    moreover have "view E (snd (evict_entry E (s\<lparr>rng := r\<rparr>) i k)) = (view E s)(k := None)"
      using g store_env.evict_entry_view [OF env, of "s\<lparr>rng := r\<rparr>" k] assms(2)
      by (simp add: store_env.ok_rng [OF env])
    ultimately show ?thesis using e g by fastforce
  qed
qed

theorem evict_lru_oldest_witness:
  "view small_env (snd (evict_lru small_env small_db_k)) = Map.empty"
proof -
  have num: "store_num_shards small_db_k = 2" and rng: "rng small_db_k 0 = 1"
    by (simp_all add: small_db_k_def small_db_def store_set_def store_new_def Let_def case_prod_beta
        sampled_uptime_def draw_u32_def unqueue_old_def unqueue_def place_in_queue_def with_queue_def
        shard_insert_def split: option.split)
  obtain e where e: "shard_get small_env small_db_k [107] = Some e"
    using small_db_k_view by (auto simp: view_def fun_eq_iff split: if_splits)
  have "hash small_env small_db_k [107] = 1" by (simp add: hash_def num small_env_def hash_env_def)
  then have "hm_get (shards small_db_k ! 1) [107] = Some e"
    using e by (simp add: shard_get_def small_env_def hash_env_def hash_dashmap_def)
  then have "shards small_db_k ! 1 \<noteq> []" by auto
  then have some: "samples small_env (Suc n) small_db_k \<noteq> []" for n
    by (simp add: sample_entry_def draw_usize_def num rng iter_nth_def small_env_def hash_env_def hash_dashmap_def
        case_prod_beta Let_def)
  have "eviction_sample_size (memory (conf small_env)) = Suc 4"
    by (simp add: small_env_def hash_env_def small_config_def default_config_def default_memory_def)
  then have "lru_samples small_env small_db_k \<noteq> []"
    unfolding lru_samples_def using some by metis
  then obtain i k e where "(i, k, e) \<in> set (lru_samples small_env small_db_k)"
      "shard_get small_env small_db_k k = Some e"
      "view small_env (snd (evict_lru small_env small_db_k)) = (view small_env small_db_k)(k := None)"
    using evict_lru_oldest [OF small_env_dashmap small_db_k_ok] by blast
  moreover from this(2) have "view small_env small_db_k k \<noteq> None" by (simp add: view_def)
  then have "k = [107]" by (auto simp: small_db_k_view split: if_splits)
  ultimately show ?thesis by (simp add: small_db_k_view)
qed

text \<open>C26: Passive expiry removes only entries that are expired at the clock reading it
  takes: what a client can see does not change, the count is the number of
  entries removed, and the invariant and the accounting are kept.\<close>

theorem expire_random_keys_safe:
  assumes "dashmap (dash E)" and "store_ok E s" and "memory_limit E > 0"
  shows "keyspace E (snd (expire_random_keys E s n)) (clock s 0) = keyspace E s (clock s 0)
    \<and> view E (snd (expire_random_keys E s n)) \<subseteq>\<^sub>m view E s
    \<and> card (dom (view E s)) = fst (expire_random_keys E s n) + card (dom (view E (snd (expire_random_keys E s n))))
    \<and> store_ok E (snd (expire_random_keys E s n))
    \<and> drift E (snd (expire_random_keys E s n)) = drift E s"
proof -
  have env: "store_env E" using assms(1) by (simp add: store_env_def)
  let ?s = "s\<lparr>clock := \<lambda>i. clock s (Suc i)\<rparr>"
  have same: "same_entries s ?s" by (simp add: same_entries_def)
  have ok: "store_ok E ?s" by (rule store_env.ok_same_entries [OF env assms(2) same]) simp
  have "keyspace E ?s = keyspace E s" "drift E ?s = drift E s"
    by (simp_all add: keyspace_def drift_def fun_eq_iff same_entriesD [OF same])
  then show ?thesis
    using store_env.expire_samples_effect [OF env ok, of n "clock s 0"] assms(3)
    by (simp add: expire_random_keys_def get_timestamp_def same_entriesD [OF same])
qed

theorem expire_random_keys_safe_witness:
  "keyspace small_env (snd (expire_random_keys small_env small_db_k 20)) (clock small_db_k 0)
     = keyspace small_env small_db_k (clock small_db_k 0)"
  using expire_random_keys_safe [OF small_env_dashmap small_db_k_ok small_env_limit, of 20] by simp

end
