(* ===== verification/Store_Scan.thy ===== *)
theory Store_Scan
  imports Store Glob
begin

text \<open>
  Cursor iteration, \<^verbatim>\<open>ShardedStore::scan\<close> of \<^verbatim>\<open>src/src/store.rs\<close>. A cursor is
  \<open>shard * 10 ^ 9 + position\<close>, the position counting the entries of the shard in
  iteration order; 0 ends the iteration. The result is \<open>None\<close> only if the
  pattern matcher does not return, which never happens.
\<close>

section \<open>Definitions\<close>

abbreviation cursor_base :: u64 where "cursor_base \<equiv> 1000000000"

definition next_cursor :: "nat \<Rightarrow> nat \<Rightarrow> nat \<Rightarrow> nat \<Rightarrow> u64" where
  "next_cursor num shard len pos =
     (if pos + 1 < len then of_nat shard * cursor_base + of_nat (pos + 1)
      else if shard + 1 < num then of_nat (shard + 1) * cursor_base
      else 0)"

text \<open>\<^verbatim>\<open>pattern\<close> of the source: no pattern matches every key.\<close>

definition pattern_matches :: "bytes option \<Rightarrow> bytes \<Rightarrow> bool option" where
  "pattern_matches pat key = (case pat of None \<Rightarrow> Some True | Some p \<Rightarrow> matches_pattern key p)"

text \<open>
  The loop over the entries of one shard from a position on: \<open>Inl\<close> is an early
  return, \<open>Inr\<close> the counters with which the next shard goes on.
\<close>

fun scan_entries ::
  "nat \<Rightarrow> nat \<Rightarrow> nat \<Rightarrow> nat \<Rightarrow> bytes option \<Rightarrow> u64 \<Rightarrow> nat \<Rightarrow> (bytes \<times> entry) list \<Rightarrow> nat \<Rightarrow> bytes list
    \<Rightarrow> ((u64 \<times> bytes list) + (nat \<times> bytes list)) option" where
  "scan_entries num shard len count pat now pos [] keys_checked result = Some (Inr (keys_checked, result))"
| "scan_entries num shard len count pat now pos ((key, e) # rest) keys_checked result =
     (if length result \<ge> count \<or> keys_checked \<ge> count * 3
      then Some (Inl (next_cursor num shard len pos, result))
      else if expired now e
      then scan_entries num shard len count pat now (pos + 1) rest (keys_checked + 1) result
      else (case pattern_matches pat key of
              None \<Rightarrow> None
            | Some False \<Rightarrow> scan_entries num shard len count pat now (pos + 1) rest (keys_checked + 1) result
            | Some True \<Rightarrow>
                scan_entries num shard len count pat now (pos + 1) rest (keys_checked + 1) (result @ [key])))"

text \<open>The loop over the remaining shards.\<close>

fun scan_shards ::
  "'m env \<Rightarrow> nat \<Rightarrow> nat \<Rightarrow> bytes option \<Rightarrow> u64 \<Rightarrow> nat \<Rightarrow> nat \<Rightarrow> 'm list \<Rightarrow> nat \<Rightarrow> bytes list
    \<Rightarrow> (u64 \<times> bytes list) option" where
  "scan_shards E num count pat now current_shard current_position [] keys_checked result = Some (0, result)"
| "scan_shards E num count pat now current_shard current_position (m # ms) keys_checked result =
     (let entries = dm_iter (dash E) m in
      case scan_entries num current_shard (length entries) count pat now current_position
             (drop current_position entries) keys_checked result of
        None \<Rightarrow> None
      | Some (Inl r) \<Rightarrow> Some r
      | Some (Inr (keys_checked, result)) \<Rightarrow>
          scan_shards E num count pat now (current_shard + 1) 0 ms keys_checked result)"

definition scan_count :: "nat \<Rightarrow> nat" where
  "scan_count count_hint = min (max count_hint 10) 1000"

definition store_scan ::
  "'m env \<Rightarrow> 'm db \<Rightarrow> u64 \<Rightarrow> nat \<Rightarrow> bytes option \<Rightarrow> u64 \<Rightarrow> (u64 \<times> bytes list) option" where
  "store_scan E s cursor count_hint pat now =
     (let count = scan_count count_hint;
          start_shard = unat (cursor div cursor_base);
          start_position = unat (cursor mod cursor_base)
      in if start_shard \<ge> store_num_shards s then Some (0, [])
         else scan_shards E (store_num_shards s) count pat now start_shard start_position
                (drop start_shard (shards s)) 0 [])"

text \<open>
  Reference: the keys a scan should report among a list of entries, and the entries
  that are left from a position on.
\<close>

definition matching :: "bytes option \<Rightarrow> bytes \<Rightarrow> bool" where
  "matching pat key = (case pat of None \<Rightarrow> True | Some p \<Rightarrow> glob key p)"

definition selected :: "bytes option \<Rightarrow> u64 \<Rightarrow> (bytes \<times> entry) list \<Rightarrow> bytes list" where
  "selected pat now es = map fst (filter (\<lambda>(k, e). \<not> expired now e \<and> matching pat k) es)"

fun remaining :: "'m env \<Rightarrow> nat \<Rightarrow> 'm list \<Rightarrow> (bytes \<times> entry) list" where
  "remaining E pos [] = []"
| "remaining E pos (m # ms) = drop pos (dm_iter (dash E) m) @ remaining E 0 ms"

section \<open>One shard\<close>

lemma pattern_matches_matching: "pattern_matches pat key = Some (matching pat key)"
  by (simp add: pattern_matches_def matching_def matches_pattern_glob split: option.split)

lemma scan_entries_spec:
  "\<exists>n \<le> length es. \<exists>r. scan_entries num shard len count pat now pos es chk result = Some r
     \<and> (case r of
          Inl (c, ks) \<Rightarrow> n < length es \<and> c = next_cursor num shard len (pos + n) \<and> ks = result @ selected pat now (take n es)
            \<and> (count \<le> length ks \<or> count * 3 \<le> chk + n)
        | Inr (chk', ks) \<Rightarrow> n = length es \<and> chk' = chk + length es \<and> ks = result @ selected pat now es)
     \<and> (length result \<le> count \<longrightarrow> length (case r of Inl (c, ks) \<Rightarrow> ks | Inr (c, ks) \<Rightarrow> ks) \<le> count)"
proof (induction es arbitrary: pos chk result)
  case Nil
  show ?case by (simp add: selected_def)
next
  case (Cons p es)
  obtain key e where p: "p = (key, e)" by (cases p)
  show ?case
  proof (cases "length result \<ge> count \<or> chk \<ge> count * 3")
    case True
    then show ?thesis by (intro exI [of _ 0]) (auto simp: p selected_def)
  next
    case False
    let ?sel = "\<not> expired now e \<and> matching pat key"
    let ?res = "if ?sel then result @ [key] else result"
    have step: "scan_entries num shard len count pat now pos (p # es) chk result =
        scan_entries num shard len count pat now (pos + 1) es (chk + 1) ?res"
      using False by (simp add: p pattern_matches_matching)
    from Cons.IH [of "pos + 1" "chk + 1" ?res] obtain n r where
      "n \<le> length es" "scan_entries num shard len count pat now (pos + 1) es (chk + 1) ?res = Some r"
      "case r of
          Inl (c, ks) \<Rightarrow> n < length es \<and> c = next_cursor num shard len (pos + 1 + n) \<and> ks = ?res @ selected pat now (take n es)
            \<and> (count \<le> length ks \<or> count * 3 \<le> chk + 1 + n)
        | Inr (chk', ks) \<Rightarrow> n = length es \<and> chk' = chk + 1 + length es \<and> ks = ?res @ selected pat now es"
      "length ?res \<le> count \<longrightarrow> length (case r of Inl (c, ks) \<Rightarrow> ks | Inr (c, ks) \<Rightarrow> ks) \<le> count"
      by blast
    then show ?thesis
      using False unfolding step
      by (intro exI [of _ "Suc n"]) (auto simp: p selected_def split: sum.splits if_splits)
  qed
qed

section \<open>All shards\<close>

lemma selected_append: "selected pat now (xs @ ys) = selected pat now xs @ selected pat now ys"
  by (simp add: selected_def)

text \<open>
  A scan examines the first \<open>n\<close> of the remaining entries, and stops at their end with cursor
  0 or, its quota used up, at position \<open>p\<close> of shard \<open>sh + j\<close>.
\<close>

definition stops ::
  "'m env \<Rightarrow> nat \<Rightarrow> nat \<Rightarrow> nat \<Rightarrow> nat \<Rightarrow> nat \<Rightarrow> 'm list \<Rightarrow> nat \<Rightarrow> u64 \<Rightarrow> bytes list \<Rightarrow> bool" where
  "stops E num count chk sh pos ms n c ks \<longleftrightarrow>
     c = 0 \<and> n = length (remaining E pos ms)
     \<or> (\<exists>j p. j < length ms \<and> (j = 0 \<longrightarrow> p = pos + n) \<and> p < length (dm_iter (dash E) (ms ! j))
          \<and> c = next_cursor num (sh + j) (length (dm_iter (dash E) (ms ! j))) p
          \<and> (count \<le> length ks \<or> count * 3 \<le> chk + n) \<and> n < length (remaining E pos ms))"

lemma stops_here:
  assumes "n < length (drop pos (dm_iter (dash E) m))"
    and "c = next_cursor num sh (length (dm_iter (dash E) m)) (pos + n)" and "count \<le> length ks \<or> count * 3 \<le> chk + n"
  shows "stops E num count chk sh pos (m # ms) n c ks"
  unfolding stops_def by (intro disjI2 exI [of _ 0] exI [of _ "pos + n"]) (use assms in auto)

lemma stops_later:
  assumes "stops E num count (chk + length (drop pos (dm_iter (dash E) m))) (sh + 1) 0 ms n c ks"
  shows "stops E num count chk sh pos (m # ms) (length (drop pos (dm_iter (dash E) m)) + n) c ks"
  using assms unfolding stops_def
proof (elim disjE exE)
  fix j p
  assume "j < length ms \<and> (j = 0 \<longrightarrow> p = 0 + n) \<and> p < length (dm_iter (dash E) (ms ! j))
    \<and> c = next_cursor num (sh + 1 + j) (length (dm_iter (dash E) (ms ! j))) p
    \<and> (count \<le> length ks \<or> count * 3 \<le> chk + length (drop pos (dm_iter (dash E) m)) + n) \<and> n < length (remaining E 0 ms)"
  then show "c = 0 \<and> length (drop pos (dm_iter (dash E) m)) + n = length (remaining E pos (m # ms))
    \<or> (\<exists>j p. j < length (m # ms) \<and> (j = 0 \<longrightarrow> p = pos + (length (drop pos (dm_iter (dash E) m)) + n))
         \<and> p < length (dm_iter (dash E) ((m # ms) ! j))
         \<and> c = next_cursor num (sh + j) (length (dm_iter (dash E) ((m # ms) ! j))) p
         \<and> (count \<le> length ks \<or> count * 3 \<le> chk + (length (drop pos (dm_iter (dash E) m)) + n))
         \<and> length (drop pos (dm_iter (dash E) m)) + n < length (remaining E pos (m # ms)))"
    by (intro disjI2 exI [of _ "Suc j"] exI [of _ p]) (auto simp: ac_simps)
qed simp

lemma scan_shards_spec:
  "\<exists>c ks n. scan_shards E num count pat now sh pos ms chk res = Some (c, ks)
     \<and> ks = res @ selected pat now (take n (remaining E pos ms)) \<and> (length res \<le> count \<longrightarrow> length ks \<le> count)
     \<and> stops E num count chk sh pos ms n c ks"
proof (induction ms arbitrary: sh pos chk res)
  case Nil
  show ?case by (simp add: selected_def stops_def)
next
  case (Cons m ms)
  let ?es = "dm_iter (dash E) m"
  obtain n r where n: "n \<le> length (drop pos ?es)"
    and r: "scan_entries num sh (length ?es) count pat now pos (drop pos ?es) chk res = Some r"
    and shape: "case r of
          Inl (c, ks) \<Rightarrow> n < length (drop pos ?es) \<and> c = next_cursor num sh (length ?es) (pos + n)
            \<and> ks = res @ selected pat now (take n (drop pos ?es)) \<and> (count \<le> length ks \<or> count * 3 \<le> chk + n)
        | Inr (chk', ks) \<Rightarrow> n = length (drop pos ?es) \<and> chk' = chk + length (drop pos ?es)
            \<and> ks = res @ selected pat now (drop pos ?es)"
    and le: "length res \<le> count \<longrightarrow> length (case r of Inl (c, ks) \<Rightarrow> ks | Inr (c, ks) \<Rightarrow> ks) \<le> count"
    using scan_entries_spec [of "drop pos ?es" num sh "length ?es" count pat now pos chk res] by blast
  show ?case
  proof (cases r)
    case (Inl ck)
    obtain c ks where ck: "ck = (c, ks)" by (cases ck)
    have "stops E num count chk sh pos (m # ms) n c ks" by (rule stops_here) (use shape Inl ck in auto)
    then show ?thesis
      using n r shape le Inl ck by (intro exI [of _ c] exI [of _ ks] exI [of _ n]) (simp add: Let_def)
  next
    case (Inr ck)
    obtain chk' ks where ck: "ck = (chk', ks)" by (cases ck)
    from Cons.IH [of "sh + 1" 0 chk' ks] obtain c ks' n' where IH:
      "scan_shards E num count pat now (sh + 1) 0 ms chk' ks = Some (c, ks')"
      "ks' = ks @ selected pat now (take n' (remaining E 0 ms))" "length ks \<le> count \<longrightarrow> length ks' \<le> count"
      "stops E num count chk' (sh + 1) 0 ms n' c ks'"
      by blast
    have "stops E num count chk sh pos (m # ms) (length (drop pos ?es) + n') c ks'"
      by (rule stops_later) (use IH(4) shape Inr ck in simp)
    then show ?thesis
      using r shape le Inr ck IH(1-3)
      by (intro exI [of _ c] exI [of _ ks'] exI [of _ "length (drop pos ?es) + n'"]) (simp add: selected_append Let_def)
  qed
qed

lemma store_scan_spec:
  fixes E s cursor
  defines "sh \<equiv> unat (cursor div cursor_base)" and "pos \<equiv> unat (cursor mod cursor_base)"
  assumes "sh < store_num_shards s"
  obtains c ks n where "store_scan E s cursor hint pat now = Some (c, ks)"
    and "ks = selected pat now (take n (remaining E pos (drop sh (shards s))))" and "length ks \<le> scan_count hint"
    and "stops E (store_num_shards s) (scan_count hint) 0 sh pos (drop sh (shards s)) n c ks"
proof -
  let ?count = "scan_count hint" and ?ms = "drop sh (shards s)"
  have run: "store_scan E s cursor hint pat now = scan_shards E (store_num_shards s) ?count pat now sh pos ?ms 0 []"
    using assms by (simp add: store_scan_def Let_def)
  show thesis
    by (rule exE [OF scan_shards_spec [of E "store_num_shards s" ?count pat now sh pos ?ms 0 "[]"]],
        elim exE conjE, rule that [OF run [THEN trans]]) (assumption, simp, simp, assumption)
qed

context store_env
begin

lemma remaining_in_store:
  assumes "store_ok E s" and "(k, e) \<in> set (remaining E pos (drop i (shards s)))"
  shows "shard_get E s k = Some e"
proof -
  have "set (remaining E pos ms) \<subseteq> (\<Union>m \<in> set ms. set (dm_iter (dash E) m))" for ms
    by (induction E pos ms rule: remaining.induct) (auto dest: in_set_dropD)
  with assms(2) obtain m where "m \<in> set (drop i (shards s))" "(k, e) \<in> set (dm_iter (dash E) m)" by blast
  then obtain j where "j < store_num_shards s" "(k, e) \<in> set (dm_iter (dash E) (shards s ! j))"
    using mem_shards [OF assms(1)] by (metis in_set_dropD)
  then show ?thesis using assms(1) by (simp add: iter_mem get_at)
qed

lemma remaining_all: "remaining E 0 ms = concat (map (dm_iter (dash E)) ms)"
  by (induction ms) auto

lemma distinct_remaining:
  assumes "store_ok E s"
  shows "distinct (map fst (remaining E pos (drop i (shards s))))"
proof -
  have suffix: "\<exists>pre. concat (map (dm_iter (dash E)) ms) = pre @ remaining E pos ms" for ms
  proof (cases ms)
    case (Cons m ms')
    then show ?thesis
      by (intro exI [of _ "take pos (dm_iter (dash E) m)"]) (simp add: remaining_all)
  qed simp
  have "distinct (map fst (concat (map (dm_iter (dash E)) (shards s))))"
    using distinct_shard_keys [OF assms, of "\<lambda>_. True"] by (simp add: map_concat comp_def)
  then have "distinct (map fst (concat (map (dm_iter (dash E)) (drop i (shards s)))))"
    by (metis append_take_drop_id concat_append distinct_append map_append)
  then show ?thesis using suffix [of "drop i (shards s)"] by (metis distinct_append map_append)
qed

end

text \<open>A cursor that is not 0 lies behind the position at which the scan stopped.\<close>

lemma next_cursor_bounds:
  assumes "sh < num" and "len \<le> 10 ^ 9" and "num * 10 ^ 9 < 2 ^ 64"
  shows "next_cursor num sh len p = 0
    \<or> sh * 10 ^ 9 + p < unat (next_cursor num sh len p) \<and> unat (next_cursor num sh len p) < num * 10 ^ 9
    \<or> (sh + 1) * 10 ^ 9 = unat (next_cursor num sh len p) \<and> unat (next_cursor num sh len p) < num * 10 ^ 9"
proof -
  have le: "(sh + 1) * 10 ^ 9 \<le> num * 10 ^ 9" using assms(1) by (intro mult_le_mono1) simp
  show ?thesis
  proof (cases "p + 1 < len")
    case True
    then have small: "sh * 10 ^ 9 + (p + 1) < num * 10 ^ 9" using assms(2) le by (simp add: algebra_simps)
    have "next_cursor num sh len p = of_nat (sh * 10 ^ 9 + (p + 1))"
      using True by (simp add: next_cursor_def)
    moreover have "unat (of_nat (sh * 10 ^ 9 + (p + 1)) :: u64) = sh * 10 ^ 9 + (p + 1)"
      using small assms(3) by (intro unat_of_nat_u64) linarith
    ultimately have "unat (next_cursor num sh len p) = sh * 10 ^ 9 + (p + 1)" by simp
    then show ?thesis using small by simp
  next
    case False
    show ?thesis
    proof (cases "sh + 1 < num")
      case True
      then have small: "(sh + 1) * 10 ^ 9 < num * 10 ^ 9" by (intro mult_strict_right_mono) simp_all
      have "next_cursor num sh len p = of_nat ((sh + 1) * 10 ^ 9)"
        using True False by (simp add: next_cursor_def)
      moreover have "unat (of_nat ((sh + 1) * 10 ^ 9) :: u64) = (sh + 1) * 10 ^ 9"
        using small assms(3) by (intro unat_of_nat_u64) linarith
      ultimately have "unat (next_cursor num sh len p) = (sh + 1) * 10 ^ 9" by simp
      then show ?thesis using small by simp
    qed (use False in \<open>simp add: next_cursor_def\<close>)
  qed
qed

text \<open>A one-shard store of twelve keys, for a concrete instance below.\<close>

definition plain_entry :: entry where
  "plain_entry = \<lparr>val = StringV [], expiry = None, last_accessed = 0, queue_type = 0, access_count = 0\<rparr>"

definition twelve_db :: "(bytes, entry) hash_map db" where
  "twelve_db = \<lparr>shards = [map (\<lambda>i. ([of_nat i], plain_entry)) [0..<12]],
     s3fifo_queues = [s3fifo_new 1 1 1], store_num_shards = 1, memory_used = 0, evicted_keys = 0,
     clock = (\<lambda>_. 0), rng = (\<lambda>_. 0)\<rparr>"

lemma twelve_db_ok: "store_ok small_env twelve_db"
proof -
  have "hm_ok (map (\<lambda>i. ([of_nat i :: u8], plain_entry)) [0..<12])" by code_simp
  moreover have "entry_ok e" if "hm_get (map (\<lambda>i. ([of_nat i :: u8], plain_entry)) [0..<12]) k = Some e" for k e
    using that by (auto simp: hm_get_def entry_ok_def plain_entry_def dest!: map_of_SomeD)
  ultimately show ?thesis
    by (auto simp: store_ok_def shard_ok_def twelve_db_def small_env_def hash_env_def hash_dashmap_def hash_def
        queues_ok_def queue_ok_def s3fifo_new_def)
qed

section \<open>Properties\<close>

text \<open>C27: A scan always returns; every key it reports is live, matches the pattern and is
  reported once, and it reports at most \<open>min (max hint 10) 1000\<close> keys.\<close>

theorem scan_sound:
  assumes "dashmap (dash E)" and "store_ok E s"
  shows "\<exists>c ks. store_scan E s cursor hint pat now = Some (c, ks) \<and> distinct ks
    \<and> length ks \<le> min (max hint 10) 1000
    \<and> (\<forall>k \<in> set ks. k \<in> dom (keyspace E s now) \<and> (\<forall>p. pat = Some p \<longrightarrow> glob k p))"
proof -
  have env: "store_env E" using assms(1) by (simp add: store_env_def)
  let ?sh = "unat (cursor div cursor_base)" and ?pos = "unat (cursor mod cursor_base)"
  let ?rem = "remaining E ?pos (drop ?sh (shards s))"
  show ?thesis
  proof (cases "?sh \<ge> store_num_shards s")
    case True
    then show ?thesis by (simp add: store_scan_def)
  next
    case False
    obtain c ks n where run: "store_scan E s cursor hint pat now = Some (c, ks)"
      and ks: "ks = selected pat now (take n ?rem)" and len: "length ks \<le> scan_count hint"
      by (rule store_scan_spec [of cursor s E hint pat now]) (use False in simp, rule that)
    have "distinct (map fst (take n ?rem))"
      unfolding take_map [symmetric]
      by (rule distinct_take) (rule store_env.distinct_remaining [OF env assms(2)])
    then have "distinct ks" unfolding ks selected_def by (simp add: distinct_map_filter)
    moreover have "k \<in> dom (keyspace E s now) \<and> matching pat k" if "k \<in> set ks" for k
    proof -
      from that obtain e where "(k, e) \<in> set ?rem" "\<not> expired now e" "matching pat k"
        by (auto simp: ks selected_def dest: in_set_takeD)
      then show ?thesis
        using store_env.remaining_in_store [OF env assms(2)]
        by (auto simp: keyspace_def view_def visible_def expired_past)
    qed
    ultimately show ?thesis using run len by (auto simp: scan_count_def matching_def)
  qed
qed

theorem scan_sound_witness:
  "\<exists>c ks. store_scan small_env small_db_k 0 10 None 100 = Some (c, ks) \<and> set ks \<subseteq> {[107]}"
  using scan_sound [OF small_env_dashmap small_db_k_ok, of 0 10 None 100]
  by (auto simp: small_db_k_keyspace)

lemma store_scan_stops:
  assumes run: "store_scan E s cursor hint pat now = Some (c, ks)"
    and sh: "unat (cursor div cursor_base) < store_num_shards s"
    and len: "length (shards s) = store_num_shards s"
  obtains "c = 0"
  | j p where "unat (cursor div cursor_base) + j < store_num_shards s"
    and "j = 0 \<longrightarrow> unat (cursor mod cursor_base) \<le> p"
    and "c = next_cursor (store_num_shards s) (unat (cursor div cursor_base) + j)
           (length (dm_iter (dash E) (shards s ! (unat (cursor div cursor_base) + j)))) p"
proof (rule store_scan_spec [OF sh, of E hint pat now])
  fix c' ks' n
  let ?rest = "drop (unat (cursor div cursor_base)) (shards s)"
  assume "store_scan E s cursor hint pat now = Some (c', ks')"
    and stop: "stops E (store_num_shards s) (scan_count hint) 0 (unat (cursor div cursor_base))
      (unat (cursor mod cursor_base)) ?rest n c' ks'"
  then have c': "c' = c" using run by simp
  from stop consider "c' = 0"
    | j p where "j < length ?rest" "j = 0 \<longrightarrow> p = unat (cursor mod cursor_base) + n"
      "c' = next_cursor (store_num_shards s) (unat (cursor div cursor_base) + j)
         (length (dm_iter (dash E) (?rest ! j))) p"
    unfolding stops_def by blast
  then show thesis
  proof cases
    case (2 j p)
    then show thesis using c' len by (intro that(2) [of j p]) auto
  qed (use c' that(1) in simp)
qed

text \<open>C28: Iteration by cursor ends: as long as the shards hold at most \<open>10 ^ 9\<close> entries and all
  cursors fit 64 bits, a scan returns cursor 0 or a strictly larger cursor that
  still lies inside the store, so at most \<open>num_shards * 10 ^ 9\<close> calls follow.\<close>

theorem scan_cursor_advances:
  assumes "dashmap (dash E)" and "store_ok E s" and "store_num_shards s * 10 ^ 9 < 2 ^ 64"
    and "\<forall>m \<in> set (shards s). dm_len (dash E) m \<le> 10 ^ 9"
    and "store_scan E s cursor hint pat now = Some (c, ks)"
  shows "c = 0 \<or> unat cursor < unat c \<and> unat c < store_num_shards s * 10 ^ 9"
proof -
  have env: "store_env E" using assms(1) by (simp add: store_env_def)
  have len: "length (shards s) = store_num_shards s" using assms(2) by (simp add: store_ok_def)
  let ?sh = "unat (cursor div cursor_base)" and ?pos = "unat (cursor mod cursor_base)"
  have cur: "unat cursor = ?sh * 10 ^ 9 + ?pos" "?pos < 10 ^ 9"
    by (simp_all add: unat_div unat_mod)
  show ?thesis
  proof (cases "?sh < store_num_shards s")
    case False
    then show ?thesis using assms(5) by (simp add: store_scan_def)
  next
    case True
    from assms(5) True len show ?thesis
    proof (cases rule: store_scan_stops)
      case (2 j p)
      have "length (dm_iter (dash E) (shards s ! (?sh + j))) \<le> 10 ^ 9"
        using assms(4) 2(1) len store_env.dm_ok_at [OF env assms(2) 2(1)]
        by (metis dashmap.len_iter [OF assms(1)] nth_mem)
      from next_cursor_bounds [OF 2(1) this assms(3), of p, folded 2(3)] show ?thesis
        using cur 2(2) by (cases j) (auto simp: algebra_simps)
    qed simp
  qed
qed

theorem scan_cursor_advances_witness:
  "\<exists>c ks. store_scan small_env small_db_k 0 10 None 100 = Some (c, ks) \<and> (c = 0 \<or> 0 < unat c)"
proof -
  have env: "store_env small_env" using small_env_dashmap by (simp add: store_env_def)
  have num: "store_num_shards small_db_k = 2"
    by (simp add: small_db_k_def small_db_def store_set_def store_new_def Let_def case_prod_beta
        sampled_uptime_def draw_u32_def unqueue_old_def unqueue_def place_in_queue_def with_queue_def
        shard_insert_def split: option.split)
  have "store_len small_env small_db_k = 1"
    by (simp add: store_env.store_len_card [OF env small_db_k_ok] small_db_k_view)
  then have sum: "sum_list (map (dm_len (dash small_env)) (shards small_db_k)) = 1" by (simp add: store_len_def)
  have le: "\<forall>m \<in> set (shards small_db_k). dm_len (dash small_env) m \<le> 10 ^ 9"
  proof
    fix m assume "m \<in> set (shards small_db_k)"
    then have "dm_len (dash small_env) m \<le> 1"
      using member_le_sum_list [of "dm_len (dash small_env) m" "map (dm_len (dash small_env)) (shards small_db_k)"]
      by (simp add: sum)
    then show "dm_len (dash small_env) m \<le> 10 ^ 9" by simp
  qed
  have "unat (0 div cursor_base) < store_num_shards small_db_k" by (simp add: num)
  then obtain c ks where run: "store_scan small_env small_db_k 0 10 None 100 = Some (c, ks)"
    by (rule store_scan_spec [of 0 small_db_k small_env 10 None 100])
  with scan_cursor_advances [OF small_env_dashmap small_db_k_ok _ le run] num show ?thesis by auto
qed

text \<open>One call suffices for a small store: when the store holds no more entries than the
  clamped count, a scan from cursor 0 ends the iteration and reports exactly the
  live keys that match.\<close>

theorem scan_complete_small:
  assumes "dashmap (dash E)" and "store_ok E s" and "store_len E s \<le> scan_count hint"
  shows "\<exists>ks. store_scan E s 0 hint pat now = Some (0, ks) \<and> distinct ks
    \<and> set ks = {k \<in> dom (keyspace E s now). \<forall>p. pat = Some p \<longrightarrow> glob k p}"
proof -
  have env: "store_env E" using assms(1) by (simp add: store_env_def)
  let ?rem = "remaining E 0 (shards s)"
  have pos: "0 < store_num_shards s" using assms(2) by (simp add: store_ok_def)
  then have "unat (0 div cursor_base) < store_num_shards s" by simp
  then obtain c ks n where run: "store_scan E s 0 hint pat now = Some (c, ks)"
    and ks: "ks = selected pat now (take n ?rem)"
    and stop: "c = 0 \<and> n = length ?rem \<or> (scan_count hint \<le> length ks \<or> scan_count hint * 3 \<le> n) \<and> n < length ?rem"
    by (rule store_scan_spec [of 0 s E hint pat now]) (rule that, auto simp: stops_def)
  have "length ?rem = store_len E s"
    using assms(2) store_env.mem_shards [OF env assms(2)]
    by (auto simp: store_env.remaining_all [OF env] store_len_def length_concat comp_def
        dashmap.len_iter [OF assms(1)] store_env.dm_ok_at [OF env] intro!: arg_cong [where f = sum_list])
  moreover have "length ks \<le> n"
    unfolding ks selected_def by (simp add: le_trans [OF length_filter_le])
  ultimately have "c = 0" "n = length ?rem" using stop assms(3) by (auto simp: scan_count_def)
  then have all: "ks = selected pat now ?rem" using ks by simp
  have "k \<in> set ks \<longleftrightarrow> k \<in> dom (keyspace E s now) \<and> matching pat k" for k
  proof -
    have "(k, e) \<in> set ?rem \<longleftrightarrow> shard_get E s k = Some e" for e
    proof
      show "shard_get E s k = Some e" if "(k, e) \<in> set ?rem"
        using store_env.remaining_in_store [OF env assms(2), of k e 0 0] that by simp
      assume "shard_get E s k = Some e"
      then have "(k, e) \<in> set (dm_iter (dash E) (shards s ! hash E s k))"
        using store_env.dm_ok_hash [OF env assms(2)] by (simp add: dashmap.iter_mem [OF assms(1)] shard_get_def)
      moreover have "shards s ! hash E s k \<in> set (shards s)"
        using store_env.hash_less [OF env assms(2), of k] assms(2) by (simp add: store_ok_def)
      ultimately show "(k, e) \<in> set ?rem" by (auto simp: store_env.remaining_all [OF env])
    qed
    then show ?thesis
      by (auto simp: all selected_def keyspace_def view_def visible_def expired_past image_iff split: bind_splits)
  qed
  moreover have "distinct ks"
    using store_env.distinct_remaining [OF env assms(2), of 0 0] unfolding all selected_def
    by (simp add: distinct_map_filter)
  ultimately show ?thesis using run \<open>c = 0\<close> by (auto simp: matching_def split: option.splits)
qed

theorem scan_complete_small_witness:
  "\<exists>ks. store_scan small_env small_db_k 0 10 (Some [42]) 100 = Some (0, ks) \<and> set ks = {[107]}"
proof -
  have env: "store_env small_env" using small_env_dashmap by (simp add: store_env_def)
  have "store_len small_env small_db_k \<le> scan_count 10"
    by (simp add: store_env.store_len_card [OF env small_db_k_ok] small_db_k_view scan_count_def)
  from scan_complete_small [OF small_env_dashmap small_db_k_ok this, of "Some [42]" 100] show ?thesis
    by (auto simp: small_db_k_keyspace split: if_splits)
qed

lemma one_shard_remaining:
  assumes "store_ok E s" and "store_num_shards s = 1"
  shows "remaining E pos (shards s) = drop pos (dm_iter (dash E) (shards s ! 0))"
proof -
  have "shards s = [shards s ! 0]" using assms by (cases "shards s") (auto simp: store_ok_def)
  then show ?thesis by (metis append_Nil2 remaining.simps concat.simps(1) list.map(1))
qed

lemma one_shard_first_page:
  assumes ok: "store_ok E s" "store_num_shards s = 1"
    and long: "12 \<le> length (dm_iter (dash E) (shards s ! 0))"
    and live: "\<forall>(k, e) \<in> set (dm_iter (dash E) (shards s ! 0)). \<not> expired now e"
  shows "store_scan E s 0 10 None now = Some (11, map fst (take 10 (dm_iter (dash E) (shards s ! 0))))"
proof (rule store_scan_spec [of 0 s E 10 None now])
  let ?es = "dm_iter (dash E) (shards s ! 0)"
  let ?rest = "drop (unat (0 div cursor_base)) (shards s)" and ?pos = "unat (0 mod cursor_base)"
  fix c ks n
  assume run: "store_scan E s 0 10 None now = Some (c, ks)"
    and ks: "ks = selected None now (take n (remaining E ?pos ?rest))"
    and len: "length ks \<le> scan_count 10"
    and stop: "stops E (store_num_shards s) (scan_count 10) 0 (unat (0 div cursor_base)) ?pos ?rest n c ks"
  have "filter (\<lambda>(k, e). \<not> expired now e \<and> matching None k) (take n ?es) = take n ?es"
    using live by (auto simp: matching_def filter_id_conv dest: in_set_takeD)
  then have ks': "ks = map fst (take n ?es)"
    unfolding ks by (simp add: one_shard_remaining [OF ok] selected_def)
  have "length (shards s) = 1" using ok by (simp add: store_ok_def)
  with stop have "c = 0 \<and> n = length ?es \<or>
      c = next_cursor 1 0 (length ?es) n \<and> (10 \<le> length ks \<or> 30 \<le> n) \<and> n < length ?es"
    by (auto simp: stops_def one_shard_remaining [OF ok] ok(2) scan_count_def)
  with len ks' long have "n = 10" "c = next_cursor 1 0 (length ?es) 10"
    by (auto simp: scan_count_def)
  then show ?thesis using run ks' long by (simp add: next_cursor_def)
qed (use ok in simp)

lemma one_shard_later_page:
  assumes ok: "store_ok E s" "store_num_shards s = 1"
    and run: "store_scan E s c hint pat now = Some (c', ks)"
  shows "set ks \<subseteq> fst ` set (drop (unat c) (dm_iter (dash E) (shards s ! 0)))"
proof (cases "unat (c div cursor_base) < store_num_shards s")
  case False
  then show ?thesis using run by (simp add: store_scan_def)
next
  case True
  then have sh: "unat (c div cursor_base) = 0" using ok by simp
  then have pos: "unat (c mod cursor_base) = unat c" by (simp add: unat_mod unat_div)
  show ?thesis
  proof (rule store_scan_spec [OF True, of E hint pat now])
    fix c2 ks2 n
    assume "store_scan E s c hint pat now = Some (c2, ks2)"
      and "ks2 = selected pat now
        (take n (remaining E (unat (c mod cursor_base)) (drop (unat (c div cursor_base)) (shards s))))"
    then have "ks = selected pat now (take n (drop (unat c) (dm_iter (dash E) (shards s ! 0))))"
      using run by (simp add: sh pos one_shard_remaining [OF ok])
    then show ?thesis by (auto simp: selected_def dest: in_set_takeD)
  qed
qed

text \<open>C29: Iteration by cursor can miss a key that is present throughout. In a one-shard store
  of at least 12 live entries, the first \<^verbatim>\<open>SCAN 0\<close> reports the first ten and returns
  cursor 11, and no call with cursor 11 or larger ever reports the eleventh: the
  entry at which a scan stops is not examined, yet the cursor points behind it.\<close>

theorem scan_skips_entry:
  assumes "dashmap (dash E)" and "store_ok E s" and "store_num_shards s = 1"
    and "12 \<le> length (dm_iter (dash E) (shards s ! 0))"
    and "\<forall>(k, e) \<in> set (dm_iter (dash E) (shards s ! 0)). \<not> expired now e"
  shows "store_scan E s 0 10 None now = Some (11, map fst (take 10 (dm_iter (dash E) (shards s ! 0))))
    \<and> fst (dm_iter (dash E) (shards s ! 0) ! 10) \<in> dom (keyspace E s now)
    \<and> fst (dm_iter (dash E) (shards s ! 0) ! 10) \<notin> set (map fst (take 10 (dm_iter (dash E) (shards s ! 0))))
    \<and> (\<forall>c c' ks. 11 \<le> unat c \<longrightarrow> store_scan E s c 10 None now = Some (c', ks)
         \<longrightarrow> fst (dm_iter (dash E) (shards s ! 0) ! 10) \<notin> set ks)"
proof -
  have env: "store_env E" using assms(1) by (simp add: store_env_def)
  let ?es = "dm_iter (dash E) (shards s ! 0)"
  obtain k e where ke: "?es ! 10 = (k, e)" by (cases "?es ! 10")
  have split: "?es = take 10 ?es @ (k, e) # drop 11 ?es"
    using assms(4) id_take_nth_drop [of 10 ?es] ke by simp
  have "distinct (map fst ?es)"
    using dashmap.iter_distinct [OF assms(1) store_env.dm_ok_at [OF env assms(2), of 0]] assms(3) by simp
  then have "distinct (map fst (take 10 ?es @ (k, e) # drop 11 ?es))" by (simp flip: split)
  then have notin: "k \<notin> fst ` set (take 10 ?es)" "k \<notin> fst ` set (drop 11 ?es)" by auto
  have mem: "(k, e) \<in> set ?es" using nth_mem [of 10 ?es] assms(4) ke by simp
  then have "shard_get E s k = Some e"
    using store_env.remaining_in_store [OF env assms(2), of k e 0 0]
    by (simp add: one_shard_remaining [OF assms(2,3)])
  with mem assms(5) have "k \<in> dom (keyspace E s now)"
    by (auto simp: keyspace_def view_def visible_def expired_past)
  moreover have "k \<notin> set ks"
    if "11 \<le> unat c" and "store_scan E s c 10 None now = Some (c', ks)" for c c' ks
    using one_shard_later_page [OF assms(2,3) that(2)] notin(2)
      image_mono [OF set_drop_subset_set_drop [OF that(1), of ?es], of fst] by blast
  ultimately show ?thesis
    using one_shard_first_page [OF assms(2-5)] notin(1) by (simp add: ke)
qed

theorem scan_skips_entry_witness:
  "store_scan small_env twelve_db 0 10 None 0 = Some (11, map (\<lambda>i. [of_nat i]) [0..<10])
   \<and> [10] \<in> dom (keyspace small_env twelve_db 0)"
proof -
  have es: "dm_iter (dash small_env) (shards twelve_db ! 0) = map (\<lambda>i. ([of_nat i], plain_entry)) [0..<12]"
    by (simp add: small_env_def hash_env_def hash_dashmap_def twelve_db_def)
  have ten: "map (\<lambda>i. ([of_nat i :: u8], plain_entry)) [0..<12] ! 10 = ([10], plain_entry)" by simp
  have live: "\<forall>(k, e) \<in> set (dm_iter (dash small_env) (shards twelve_db ! 0)). \<not> expired 0 e"
    unfolding es by (auto simp: plain_entry_def expired_def)
  have "store_num_shards twelve_db = 1" by (simp add: twelve_db_def)
  from scan_skips_entry [OF small_env_dashmap twelve_db_ok this _ live] show ?thesis
    unfolding es by (simp add: ten take_map comp_def)
qed

end
