(* ===== verification/Handlers.thy ===== *)
theory Handlers
  imports Protocol Store_Hash Eviction Store_Scan
begin

text \<open>
  The command handlers of \<^verbatim>\<open>src/src/main.rs\<close> that work on the store. A handler takes
  the store, the words of the command, the reply writer and the time \<open>now\<close> read by
  the connection, and returns the writer and the store; an early \<^verbatim>\<open>return\<close> is a branch.
  The two handlers that run a loop modelled in \<open>option\<close> (\<^verbatim>\<open>HSET\<close>, \<^verbatim>\<open>SCAN\<close>) return an option,
  where \<open>None\<close> is a loop that does not end.
\<close>

unbundle bit_operations_syntax

section \<open>String commands\<close>

abbreviation fail :: "resp_writer \<Rightarrow> string \<Rightarrow> resp_writer" where
  "fail w msg \<equiv> write_error w (bs msg)"

abbreviation wrong_arguments :: string where
  "wrong_arguments \<equiv> ''wrong number of arguments''"

abbreviation not_an_integer :: string where
  "not_an_integer \<equiv> ''value is not an integer or out of range''"

definition out_of_memory :: string where
  "out_of_memory = ''OOM command not allowed when used memory > '' @ [CHR 0x27] @ ''maxmemory'' @ [CHR 0x27]"

text \<open>A value or null: \<^verbatim>\<open>match v { Some(v) => write_bulk_string, None => write_null }\<close>.\<close>

definition write_value :: "resp_writer \<Rightarrow> bytes option \<Rightarrow> resp_writer" where
  "write_value w v = (case v of Some b \<Rightarrow> write_bulk_string w b | None \<Rightarrow> write_null w)"

text \<open>\<^verbatim>\<open>store.set\<close> followed by the accounting of the old and the new size.\<close>

definition set_accounted ::
  "'m env \<Rightarrow> 'm db \<Rightarrow> bytes \<Rightarrow> bytes \<Rightarrow> u64 option \<Rightarrow> u64 \<Rightarrow> 'm db" where
  "set_accounted E s key v ttl now =
     (let sz = entry_size (length key) (length v);
          (old_size, s) = store_set E s key v ttl now;
          s = (case old_size of Some old \<Rightarrow> mem_sub E s old | None \<Rightarrow> s)
      in mem_add E s sz)"

subsection \<open>SET\<close>

record set_options =
  opt_ttl :: "u64 option"
  opt_nx :: bool
  opt_xx :: bool
  opt_get :: bool

definition u64_div_ceil :: "u64 \<Rightarrow> u64 \<Rightarrow> u64" where
  "u64_div_ceil a b = (if a mod b > 0 then a div b + 1 else a div b)"

fun parse_set_options :: "set_options \<Rightarrow> bytes list \<Rightarrow> string + set_options" where
  "parse_set_options opts [] = Inr opts"
| "parse_set_options opts (opt # rest) =
     (if length opt = 2 then
        (let lower = [opt ! 0 OR 0x20, opt ! 1 OR 0x20] in
         if lower = bs ''ex'' then
           (case rest of
              [] \<Rightarrow> Inl ''syntax error''
            | arg # rest' \<Rightarrow> (case parse_u64 arg of
                Some v \<Rightarrow> if v > 0 then parse_set_options (opts\<lparr>opt_ttl := Some v\<rparr>) rest' else Inl not_an_integer
              | None \<Rightarrow> Inl not_an_integer))
         else if lower = bs ''px'' then
           (case rest of
              [] \<Rightarrow> Inl ''syntax error''
            | arg # rest' \<Rightarrow> (case parse_u64 arg of
                Some v \<Rightarrow> if v > 0 then parse_set_options (opts\<lparr>opt_ttl := Some (u64_div_ceil v 1000)\<rparr>) rest'
                  else Inl not_an_integer
              | None \<Rightarrow> Inl not_an_integer))
         else if lower = bs ''nx'' then parse_set_options (opts\<lparr>opt_nx := True\<rparr>) rest
         else if lower = bs ''xx'' then parse_set_options (opts\<lparr>opt_xx := True\<rparr>) rest
         else Inl ''syntax error'')
      else if length opt = 3 \<and> [opt ! 0 OR 0x20, opt ! 1 OR 0x20, opt ! 2 OR 0x20] = bs ''get'' then
        parse_set_options (opts\<lparr>opt_get := True\<rparr>) rest
      else Inl ''syntax error'')"

definition live_string :: "'m env \<Rightarrow> 'm db \<Rightarrow> bytes \<Rightarrow> u64 \<Rightarrow> bytes option" where
  "live_string E s key now =
     (case shard_get E s key of
        Some e \<Rightarrow> if expired now e then None
                  else (case val e of StringV v \<Rightarrow> Some v | HashV _ \<Rightarrow> None)
      | None \<Rightarrow> None)"

definition handle_set ::
  "'m env \<Rightarrow> 'm db \<Rightarrow> bytes list \<Rightarrow> resp_writer \<Rightarrow> u64 \<Rightarrow> resp_writer \<times> 'm db" where
  "handle_set E s command w now =
     (if length command < 3 then (fail w wrong_arguments, s)
      else
        let key = command ! 1; v = command ! 2;
            sz = entry_size (length key) (length v);
            (fits, s) = evict_if_needed E s sz
        in if \<not> fits then (fail w out_of_memory, s)
           else (case parse_set_options \<lparr>opt_ttl = None, opt_nx = False, opt_xx = False, opt_get = False\<rparr>
                        (drop 3 command) of
               Inl err \<Rightarrow> (fail w err, s)
             | Inr opts \<Rightarrow>
                 if opt_nx opts \<and> opt_xx opts then
                   (fail w ''XX and NX options at the same time are not compatible'', s)
                 else
                   let old_value = (if opt_nx opts \<or> opt_xx opts \<or> opt_get opts then live_string E s key now else None);
                       key_exists = (old_value \<noteq> None)
                   in if opt_nx opts \<and> key_exists then
                        (if opt_get opts then write_value w old_value else write_null w, s)
                      else if opt_xx opts \<and> \<not> key_exists then (write_null w, s)
                      else
                        let s = set_accounted E s key v (opt_ttl opts) now
                        in (if opt_get opts then write_value w old_value else write_simple_string w (bs ''OK''), s)))"

subsection \<open>TTL and PTTL\<close>

definition handle_ttl ::
  "'m env \<Rightarrow> 'm db \<Rightarrow> bytes list \<Rightarrow> resp_writer \<Rightarrow> u64 \<Rightarrow> resp_writer \<times> 'm db" where
  "handle_ttl E s command w now =
     (if length command < 2 then (fail w wrong_arguments, s)
      else let key = command ! 1 in
        case shard_get E s key of
          Some e \<Rightarrow> (case expiry e of
              Some x \<Rightarrow>
                if now \<ge> x then (write_signed_integer w (- 2), expire_key E s key now)
                else (write_signed_integer w (as_i64 (x - now)), s)
            | None \<Rightarrow> (write_signed_integer w (- 1), s))
        | None \<Rightarrow> (write_signed_integer w (- 2), s))"

definition handle_pttl ::
  "'m env \<Rightarrow> 'm db \<Rightarrow> bytes list \<Rightarrow> resp_writer \<Rightarrow> u64 \<Rightarrow> resp_writer \<times> 'm db" where
  "handle_pttl E s command w now =
     (if length command < 2 then (fail w wrong_arguments, s)
      else let key = command ! 1 in
        case shard_get E s key of
          Some e \<Rightarrow> (case expiry e of
              Some x \<Rightarrow>
                if now \<ge> x then (write_signed_integer w (- 2), expire_key E s key now)
                else
                  let diff = u64_saturating_sub x now;
                      millis = u64_saturating_mul diff 1000
                  in (write_signed_integer w (as_i64 (min millis 0x7FFFFFFFFFFFFFFF)), s)
            | None \<Rightarrow> (write_signed_integer w (- 1), s))
        | None \<Rightarrow> (write_signed_integer w (- 2), s))"

subsection \<open>INCR, DECR, INCRBY, DECRBY\<close>

text \<open>
  The read of \<^verbatim>\<open>handle_incr\<close>: the current number, the remaining time to live and the size
  of the entry to be replaced, or the error reply. The type is checked before the
  expiry.
\<close>

definition incr_current ::
  "'m env \<Rightarrow> 'm db \<Rightarrow> bytes \<Rightarrow> u64 \<Rightarrow> (bytes + int \<times> u64 option \<times> nat) \<times> 'm db" where
  "incr_current E s key now =
     (case shard_get E s key of
        Some e \<Rightarrow> (case val e of
            HashV _ \<Rightarrow> (Inl wrongtype, s)
          | StringV string_value \<Rightarrow> (case expiry e of
              Some x \<Rightarrow>
                if now \<ge> x then (Inr (0, None, 0), expire_key E s key now)
                else (case parse_i64 string_value of
                    Some v \<Rightarrow> (Inr (v, Some (u64_saturating_sub x now), calculate_entry_size (length key) (val e)), s)
                  | None \<Rightarrow> (Inl (bs not_an_integer), s))
            | None \<Rightarrow> (case parse_i64 string_value of
                  Some v \<Rightarrow> (Inr (v, None, calculate_entry_size (length key) (val e)), s)
                | None \<Rightarrow> (Inl (bs not_an_integer), s))))
      | None \<Rightarrow> (Inr (0, None, 0), s))"

definition handle_incr ::
  "'m env \<Rightarrow> 'm db \<Rightarrow> bytes list \<Rightarrow> resp_writer \<Rightarrow> u64 \<Rightarrow> int \<Rightarrow> resp_writer \<times> 'm db" where
  "handle_incr E s command w now delta =
     (if length command < 2 then (fail w wrong_arguments, s)
      else let key = command ! 1 in
        case incr_current E s key now of
          (Inl err, s) \<Rightarrow> (write_error w err, s)
        | (Inr (current, existing_ttl, old_size), s) \<Rightarrow>
            (case i64_checked_add current delta of
               None \<Rightarrow>
                 (fail w (if delta > 0 then ''increment would produce overflow''
                          else ''decrement would produce overflow''), s)
             | Some new_val \<Rightarrow>
                 let val_bytes = dec_int new_val;
                     sz = entry_size (length key) (length val_bytes);
                     net_size = sz - old_size;
                     (fits, s) = (if net_size > 0 then evict_if_needed E s net_size else (True, s))
                 in if \<not> fits then (fail w out_of_memory, s)
                    else (write_signed_integer w new_val, set_accounted E s key val_bytes existing_ttl now)))"

definition handle_incrby ::
  "'m env \<Rightarrow> 'm db \<Rightarrow> bytes list \<Rightarrow> resp_writer \<Rightarrow> u64 \<Rightarrow> resp_writer \<times> 'm db" where
  "handle_incrby E s command w now =
     (if length command < 3 then (fail w wrong_arguments, s)
      else (case parse_i64 (command ! 2) of
          Some increment \<Rightarrow> handle_incr E s command w now increment
        | None \<Rightarrow> (fail w not_an_integer, s)))"

definition handle_decrby ::
  "'m env \<Rightarrow> 'm db \<Rightarrow> bytes list \<Rightarrow> resp_writer \<Rightarrow> u64 \<Rightarrow> resp_writer \<times> 'm db" where
  "handle_decrby E s command w now =
     (if length command < 3 then (fail w wrong_arguments, s)
      else (case parse_i64 (command ! 2) of
          Some decrement \<Rightarrow>
            if decrement = - (2 ^ 63) then (fail w not_an_integer, s)
            else handle_incr E s command w now (- decrement)
        | None \<Rightarrow> (fail w not_an_integer, s)))"

subsection \<open>MGET and MSET\<close>

fun mget_loop :: "'m env \<Rightarrow> 'm db \<Rightarrow> bytes list \<Rightarrow> resp_writer \<Rightarrow> u64 \<Rightarrow> resp_writer \<times> 'm db" where
  "mget_loop E s [] w now = (w, s)"
| "mget_loop E s (key # ks) w now =
     (let (v, s) = store_get E s key now in mget_loop E s ks (write_value w v) now)"

definition handle_mget ::
  "'m env \<Rightarrow> 'm db \<Rightarrow> bytes list \<Rightarrow> resp_writer \<Rightarrow> u64 \<Rightarrow> resp_writer \<times> 'm db" where
  "handle_mget E s command w now =
     (if length command < 2 then (fail w wrong_arguments, s)
      else mget_loop E s (tl command) (write_array_header w (of_nat (length command - 1))) now)"

text \<open>
  The net size of \<^verbatim>\<open>MSET\<close> is an \<^verbatim>\<open>i64\<close> whose additions wrap; \<^verbatim>\<open>net_size > 0\<close> reads it
  as signed and \<^verbatim>\<open>net_size as usize\<close> reads the same bits.
\<close>

fun mset_net_size :: "'m env \<Rightarrow> 'm db \<Rightarrow> (bytes \<times> bytes) list \<Rightarrow> u64 \<Rightarrow> u64 \<Rightarrow> u64" where
  "mset_net_size E s [] now net_size = net_size"
| "mset_net_size E s ((key, v) # kvs) now net_size =
     (let new_size = of_nat (entry_size (length key) (length v));
          old_size = (case get_existing_size E s key now of Some n \<Rightarrow> of_nat n | None \<Rightarrow> 0)
      in mset_net_size E s kvs now (net_size + (new_size - old_size)))"

fun mset_loop :: "'m env \<Rightarrow> 'm db \<Rightarrow> (bytes \<times> bytes) list \<Rightarrow> u64 \<Rightarrow> 'm db" where
  "mset_loop E s [] now = s"
| "mset_loop E s ((key, v) # kvs) now = mset_loop E (set_accounted E s key v None now) kvs now"

definition handle_mset ::
  "'m env \<Rightarrow> 'm db \<Rightarrow> bytes list \<Rightarrow> resp_writer \<Rightarrow> u64 \<Rightarrow> resp_writer \<times> 'm db" where
  "handle_mset E s command w now =
     (if length command < 3 \<or> \<not> even (length command - 1) then
        (fail w ''wrong number of arguments for MSET'', s)
      else
        let kvs = pairs_of (tl command);
            net_size = mset_net_size E s kvs now 0;
            (fits, s) = (if as_i64 net_size > 0 then evict_if_needed E s (unat net_size) else (True, s))
        in if \<not> fits then (fail w out_of_memory, s)
           else (write_simple_string w (bs ''OK''), mset_loop E s kvs now))"

section \<open>Key commands\<close>

definition handle_expire ::
  "'m env \<Rightarrow> 'm db \<Rightarrow> bytes list \<Rightarrow> resp_writer \<Rightarrow> u64 \<Rightarrow> resp_writer \<times> 'm db" where
  "handle_expire E s command w now =
     (if length command < 3 then (fail w wrong_arguments, s)
      else let key = command ! 1 in
        case parse_i64 (command ! 2) of
          None \<Rightarrow> (fail w not_an_integer, s)
        | Some v \<Rightarrow>
            if v > 0 then
              let seconds = of_int v in
              (case shard_get E s key of
                 Some e \<Rightarrow>
                   if expired now e then (write_integer w 0, expire_key E s key now)
                   else (write_integer w 1, shard_modify E s key (expiry_update (\<lambda>_. Some (now + seconds))))
               | None \<Rightarrow> (write_integer w 0, s))
            else
              (let (count, s) = store_delete E s [key] now in (write_integer w (of_nat count), s)))"

definition handle_persist ::
  "'m env \<Rightarrow> 'm db \<Rightarrow> bytes list \<Rightarrow> resp_writer \<Rightarrow> u64 \<Rightarrow> resp_writer \<times> 'm db" where
  "handle_persist E s command w now =
     (if length command < 2 then (fail w wrong_arguments, s)
      else let key = command ! 1 in
        case shard_get E s key of
          Some e \<Rightarrow> (case expiry e of
              Some x \<Rightarrow>
                if now \<ge> x then (write_integer w 0, expire_key E s key now)
                else (write_integer w 1, shard_modify E s key (expiry_update (\<lambda>_. None)))
            | None \<Rightarrow> (write_integer w 0, s))
        | None \<Rightarrow> (write_integer w 0, s))"

definition quoted :: "string \<Rightarrow> string" where
  "quoted name = ''wrong number of arguments for '' @ [CHR 0x27] @ name @ [CHR 0x27] @ '' command''"

fun parse_scan_options :: "nat \<Rightarrow> bytes option \<Rightarrow> bytes list \<Rightarrow> string + (nat \<times> bytes option)" where
  "parse_scan_options count_hint pattern [] = Inr (count_hint, pattern)"
| "parse_scan_options count_hint pattern (arg # rest) =
     (let arg_lower = map (\<lambda>b. b OR 0x20) arg in
      if arg_lower = bs ''match'' \<and> rest \<noteq> [] then
        parse_scan_options count_hint (Some (hd rest)) (tl rest)
      else if arg_lower = bs ''count'' \<and> rest \<noteq> [] then
        (case parse_u64 (hd rest) of
           Some c \<Rightarrow> parse_scan_options (unat c) pattern (tl rest)
         | None \<Rightarrow> Inl not_an_integer)
      else Inl ''syntax error'')"

definition handle_scan ::
  "'m env \<Rightarrow> 'm db \<Rightarrow> bytes list \<Rightarrow> resp_writer \<Rightarrow> u64 \<Rightarrow> (resp_writer \<times> 'm db) option" where
  "handle_scan E s command w now =
     (if length command < 2 then Some (fail w (quoted ''scan''), s)
      else (case parse_u64 (command ! 1) of
          None \<Rightarrow> Some (fail w ''invalid cursor'', s)
        | Some cursor \<Rightarrow> (case parse_scan_options 10 None (drop 2 command) of
            Inl err \<Rightarrow> Some (fail w err, s)
          | Inr (count_hint, pattern) \<Rightarrow> (case store_scan E s cursor count_hint pattern now of
              None \<Rightarrow> None
            | Some (new_cursor, ks) \<Rightarrow>
                let w = write_array_header w 2;
                    w = write_bulk_string w (dec (unat new_cursor));
                    w = write_array_header w (of_nat (length ks))
                in Some (foldl write_bulk_string w ks, s)))))"

section \<open>Hash commands\<close>

definition handle_hset ::
  "'m env \<Rightarrow> 'm db \<Rightarrow> bytes list \<Rightarrow> resp_writer \<Rightarrow> u64 \<Rightarrow> (resp_writer \<times> 'm db) option" where
  "handle_hset E s command w now =
     (if length command < 4 \<or> (length command - 2) mod 2 \<noteq> 0 then Some (fail w (quoted ''hset''), s)
      else (case hset E s (command ! 1) (pairs_of (drop 2 command)) now of
          None \<Rightarrow> None
        | Some (Inr count, s) \<Rightarrow> Some (write_integer w (of_nat count), s)
        | Some (Inl e, s) \<Rightarrow> Some (write_error w e, s)))"

definition handle_hget ::
  "'m env \<Rightarrow> 'm db \<Rightarrow> bytes list \<Rightarrow> resp_writer \<Rightarrow> u64 \<Rightarrow> resp_writer \<times> 'm db" where
  "handle_hget E s command w now =
     (if length command < 3 then (fail w (quoted ''hget''), s)
      else (case hget E s (command ! 1) (command ! 2) now of
          (Inr v, s) \<Rightarrow> (write_value w v, s)
        | (Inl e, s) \<Rightarrow> (write_error w e, s)))"

definition handle_hgetall ::
  "'m env \<Rightarrow> 'm db \<Rightarrow> bytes list \<Rightarrow> resp_writer \<Rightarrow> u64 \<Rightarrow> resp_writer \<times> 'm db" where
  "handle_hgetall E s command w now =
     (if length command < 2 then (fail w (quoted ''hgetall''), s)
      else (case hgetall E s (command ! 1) now of
          (Inr pairs, s) \<Rightarrow> (write_array w pairs, s)
        | (Inl e, s) \<Rightarrow> (write_error w e, s)))"

definition handle_hdel ::
  "'m env \<Rightarrow> 'm db \<Rightarrow> bytes list \<Rightarrow> resp_writer \<Rightarrow> u64 \<Rightarrow> resp_writer \<times> 'm db" where
  "handle_hdel E s command w now =
     (if length command < 3 then (fail w (quoted ''hdel''), s)
      else (case hdel E s (command ! 1) (drop 2 command) now of
          (Inr count, s) \<Rightarrow> (write_integer w (of_nat count), s)
        | (Inl e, s) \<Rightarrow> (write_error w e, s)))"

section \<open>FLUSHDB and FLUSHALL\<close>

text \<open>
  Both commands read the clock again, add up the sizes of the entries that are not
  expired, clear the shards and take the sum from \<^verbatim>\<open>MEMORY_USED\<close>, stopping at 0. The
  compare-exchange loop succeeds at its first round when no other thread interferes.
\<close>

definition flush_size :: "'m env \<Rightarrow> 'm db \<Rightarrow> u64 \<Rightarrow> u64" where
  "flush_size E s now =
     foldl (\<lambda>actual_memory m.
         foldl (\<lambda>a (key, e). if expired now e then a
                  else a + of_nat (calculate_entry_size (length key) (val e)))
           actual_memory (dm_iter (dash E) m))
       0 (shards s)"

definition flush_store :: "'m env \<Rightarrow> 'm db \<Rightarrow> 'm db" where
  "flush_store E s =
     (let (now, s) = get_timestamp s;
          actual_memory = flush_size E s now;
          s = store_clear E s;
          current = memory_used s
      in s\<lparr>memory_used := (if actual_memory \<ge> current then 0 else current - actual_memory)\<rparr>)"

section \<open>Replies\<close>

text \<open>
  A reply as a value and its encoding. The length fields are printed from 64-bit
  words.
\<close>

datatype reply = Simple bytes | Error bytes | Num int | Null | Bulk bytes | Arr "reply list"

fun render :: "reply \<Rightarrow> bytes" where
  "render (Simple x) = bs ''+'' @ x @ CRLF"
| "render (Error x) = bs ''-ERR '' @ x @ CRLF"
| "render (Num i) = bs '':'' @ dec_int i @ CRLF"
| "render Null = bs ''$-1'' @ CRLF"
| "render (Bulk x) = bs ''$'' @ dec (length x mod 2 ^ 64) @ CRLF @ x @ CRLF"
| "render (Arr rs) = bs ''*'' @ dec (length rs mod 2 ^ 64) @ CRLF @ concat (map render rs)"

definition reply_value :: "bytes option \<Rightarrow> reply" where
  "reply_value v = (case v of Some b \<Rightarrow> Bulk b | None \<Rightarrow> Null)"

named_theorems reply_simps "writer operations as rendered replies"

lemma write_simple_string_reply [reply_simps]: "write_simple_string w x = put w (render (Simple x))"
  by (simp add: write_simple_string_def)

lemma write_error_reply [reply_simps]: "write_error w x = put w (render (Error x))"
  by (simp add: write_error_def)

lemma write_null_reply [reply_simps]: "write_null w = put w (render Null)"
  by (simp add: write_null_def)

lemma write_integer_reply [reply_simps]: "write_integer w i = put w (render (Num (int (unat i))))"
  by (simp add: write_integer_def write_u64_put dec_int_def)

lemma write_bulk_string_reply [reply_simps]: "write_bulk_string w x = put w (render (Bulk x))"
  by (simp add: write_bulk_string_def write_u64_put unat_of_nat)

lemma write_value_reply [reply_simps]: "write_value w v = put w (render (reply_value v))"
  by (simp add: write_value_def reply_value_def reply_simps split: option.split)

lemma write_signed_integer_reply [reply_simps]:
  assumes "in_i64 i"
  shows "write_signed_integer w i = put w (render (Num i))"
proof -
  have "unat (of_int (- i) :: u64) = nat (- i)" if "i < 0"
    using that assms by (simp add: in_i64_def unat_eq_nat_uint uint_word_of_int mod_pos_pos_trivial del: of_int_minus)
  moreover have "unat (of_int i :: u64) = nat i" if "\<not> i < 0"
    using that assms by (simp add: in_i64_def unat_eq_nat_uint uint_word_of_int mod_pos_pos_trivial)
  ultimately show ?thesis
    by (simp add: write_signed_integer_def write_u64_put dec_int_def del: of_int_minus)
qed

lemma foldl_write_bulk_reply:
  "foldl write_bulk_string w xs = put w (concat (map (render \<circ> Bulk) xs))"
  by (induction xs arbitrary: w) (simp_all add: reply_simps)

lemma write_array_header_put: "write_array_header w n = put w (bs ''*'' @ dec (unat n) @ CRLF)"
  by (simp add: write_array_header_def write_u64_put)

lemma write_array_reply [reply_simps]: "write_array w xs = put w (render (Arr (map Bulk xs)))"
  by (simp add: write_array_def write_u64_put foldl_write_bulk_reply unat_of_nat comp_def)

lemma in_i64_as_i64 [simp]: "in_i64 (as_i64 x)"
  using sint_range_size [of x] by (simp add: in_i64_def as_i64_def word_size)

lemma in_i64_small [simp]: "in_i64 (- 1)" "in_i64 (- 2)" "in_i64 0" "in_i64 1"
  by (simp_all add: in_i64_def)

section \<open>The invariant and the memory accounting\<close>

text \<open>
  \<open>keeps\<close>: a step keeps the invariant of the store and, when a limit is set, the
  difference between \<^verbatim>\<open>MEMORY_USED\<close> and the size of the entries.
\<close>

definition keeps :: "'m env \<Rightarrow> 'm db \<Rightarrow> 'm db \<Rightarrow> bool" where
  "keeps E s s' \<longleftrightarrow> store_ok E s' \<and> (memory_limit E > 0 \<longrightarrow> drift E s' = drift E s)"

lemma keeps_refl [simp]: "keeps E s s \<longleftrightarrow> store_ok E s"
  by (simp add: keeps_def)

lemma keeps_ok: "keeps E s s' \<Longrightarrow> store_ok E s'"
  by (simp add: keeps_def)

lemma keeps_trans: "keeps E a b \<Longrightarrow> keeps E b c \<Longrightarrow> keeps E a c"
  by (simp add: keeps_def)

named_theorems keeps_intros "steps that keep the invariant and the accounting"

context store_env
begin

lemma keeps_expire_key [keeps_intros]: "store_ok E s \<Longrightarrow> keeps E s (expire_key E s k now)"
  by (simp add: keeps_def ok_intros)

lemma keeps_evict [keeps_intros]: "store_ok E s \<Longrightarrow> keeps E s (snd (evict_if_needed E s n))"
  using evict_if_needed_effect [of s n] by (simp add: keeps_def)

lemma keeps_store_get [keeps_intros]: "store_ok E s \<Longrightarrow> keeps E s (snd (store_get E s k now))"
  using store_get_effect(3) [of s k now] by (simp add: keeps_def ok_intros)

lemma keeps_store_delete [keeps_intros]: "store_ok E s \<Longrightarrow> keeps E s (snd (store_delete E s ks now))"
  using store_delete_effect [of s ks now] by (simp add: keeps_def)

lemma set_accounted_conv:
  "set_accounted E s k v ttl now =
    mem_add E (case fst (store_set E s k v ttl now) of
        Some old \<Rightarrow> mem_sub E (snd (store_set E s k v ttl now)) old
      | None \<Rightarrow> snd (store_set E s k v ttl now)) (size_of k (StringV v))"
  by (simp add: set_accounted_def case_prod_beta size_of_def entry_size_def)

lemma set_accounted_view [simp]:
  "store_ok E s \<Longrightarrow> view E (set_accounted E s k v ttl now) =
     (view E s)(k \<mapsto> (StringV v, map_option (\<lambda>t. now + t) ttl))"
  by (simp add: set_accounted_conv store_set_effect split: option.split)

lemma keeps_set_accounted [keeps_intros]:
  assumes "store_ok E s"
  shows "keeps E s (set_accounted E s k v ttl now)"
proof -
  have ok: "store_ok E (set_accounted E s k v ttl now)"
    using assms by (auto simp: set_accounted_conv intro!: ok_intros split: option.split)
  have "drift E (set_accounted E s k v ttl now) = drift E s" if "memory_limit E > 0"
  proof (rule drift_update [OF assms ok, of k])
    have "stored_size E (set_accounted E s k v ttl now) k = size_of k (StringV v)"
      using assms by (simp add: stored_size_def)
    then show "memory_used (set_accounted E s k v ttl now) =
        memory_used s + of_nat (stored_size E (set_accounted E s k v ttl now) k) - of_nat (stored_size E s k)"
      using that assms
      by (auto simp: set_accounted_conv store_set_effect mem_add_def mem_sub_def stored_size_def split: option.split)
  qed (use assms in simp)
  with ok show ?thesis by (simp add: keeps_def)
qed

lemma keeps_modify_expiry [keeps_intros]:
  assumes "store_ok E s"
  shows "keeps E s (shard_modify E s k (expiry_update f))"
proof -
  have ok: "store_ok E (shard_modify E s k (expiry_update f))"
    using assms by (rule ok_modify_same) simp
  have "drift E (shard_modify E s k (expiry_update f)) = drift E s"
    by (rule drift_update [OF assms ok, of k])
      (use assms in \<open>simp_all add: view_modify stored_size_def view_def option.map_comp split: option.split\<close>)
  with ok show ?thesis by (simp add: keeps_def)
qed

text \<open>Every handler except \<^verbatim>\<open>HDEL\<close> and the flush commands keeps both.\<close>

lemma keeps_handle_set [keeps_intros]:
  assumes "store_ok E s"
  shows "keeps E s (snd (handle_set E s command w now))"
proof -
  have "keeps E s (set_accounted E (snd (evict_if_needed E s n)) k v ttl now)" for n k v ttl
    using keeps_trans [OF keeps_evict [OF assms] keeps_set_accounted [OF keeps_ok [OF keeps_evict [OF assms]]]] .
  then show ?thesis
    using assms by (auto simp: handle_set_def Let_def case_prod_beta intro: keeps_evict split: sum.split)
qed

lemma keeps_handle_ttl [keeps_intros]:
  "store_ok E s \<Longrightarrow> keeps E s (snd (handle_ttl E s command w now))"
  "store_ok E s \<Longrightarrow> keeps E s (snd (handle_pttl E s command w now))"
  by (auto simp: handle_ttl_def handle_pttl_def Let_def intro: keeps_intros split: option.split)

lemma keeps_incr_current [keeps_intros]:
  "store_ok E s \<Longrightarrow> keeps E s (snd (incr_current E s k now))"
  by (auto simp: incr_current_def intro: keeps_intros split: option.split entry_value.split)

lemma keeps_handle_incr [keeps_intros]:
  assumes "store_ok E s"
  shows "keeps E s (snd (handle_incr E s command w now delta))"
proof -
  let ?s = "snd (incr_current E s (command ! 1) now)"
  have k1: "keeps E s ?s" using assms by (rule keeps_intros)
  have k2: "keeps E s (if b then snd (evict_if_needed E ?s n) else ?s)" for b n
    using k1 keeps_trans [OF k1 keeps_evict [OF keeps_ok [OF k1]]] by simp
  have k3: "keeps E s (set_accounted E (if b then snd (evict_if_needed E ?s n) else ?s) k v ttl now)" for b n k v ttl
    using keeps_trans [OF k2 keeps_set_accounted [OF keeps_ok [OF k2]]] .
  show ?thesis
    using assms k1 k2 [where b = True] k3 [where b = True] k3 [where b = False]
    by (auto simp: handle_incr_def Let_def case_prod_beta split: sum.split option.split)
qed

lemma keeps_handle_incrby [keeps_intros]:
  "store_ok E s \<Longrightarrow> keeps E s (snd (handle_incrby E s command w now))"
  "store_ok E s \<Longrightarrow> keeps E s (snd (handle_decrby E s command w now))"
  by (auto simp: handle_incrby_def handle_decrby_def intro: keeps_intros split: option.split)

lemma keeps_mget_loop: "store_ok E s \<Longrightarrow> keeps E s (snd (mget_loop E s ks w now))"
proof (induction ks arbitrary: s w)
  case (Cons k ks)
  have "keeps E s (snd (store_get E s k now))" using Cons.prems by (rule keeps_intros)
  from keeps_trans [OF this Cons.IH [OF keeps_ok [OF this]]] show ?case by (simp add: case_prod_beta)
qed simp

lemma keeps_mset_loop: "store_ok E s \<Longrightarrow> keeps E s (mset_loop E s kvs now)"
proof (induction kvs arbitrary: s)
  case (Cons kv kvs)
  have "keeps E s (set_accounted E s (fst kv) (snd kv) None now)" using Cons.prems by (rule keeps_intros)
  from keeps_trans [OF this Cons.IH [OF keeps_ok [OF this]]] show ?case by (cases kv) simp
qed simp

lemma keeps_handle_mget [keeps_intros]:
  "store_ok E s \<Longrightarrow> keeps E s (snd (handle_mget E s command w now))"
  by (auto simp: handle_mget_def intro: keeps_mget_loop)

lemma keeps_handle_mset [keeps_intros]:
  assumes "store_ok E s"
  shows "keeps E s (snd (handle_mset E s command w now))"
proof -
  have "keeps E s (mset_loop E (snd (evict_if_needed E s n)) kvs now)" for n kvs
    using keeps_trans [OF keeps_evict [OF assms] keeps_mset_loop [OF keeps_ok [OF keeps_evict [OF assms]]]] .
  then show ?thesis
    using assms by (auto simp: handle_mset_def Let_def case_prod_beta intro: keeps_intros keeps_mset_loop)
qed

lemma keeps_handle_expire [keeps_intros]:
  "store_ok E s \<Longrightarrow> keeps E s (snd (handle_expire E s command w now))"
  by (auto simp: handle_expire_def Let_def case_prod_beta simp del: store_delete.simps
      intro: keeps_intros split: option.split)

lemma keeps_handle_persist [keeps_intros]:
  "store_ok E s \<Longrightarrow> keeps E s (snd (handle_persist E s command w now))"
  by (auto simp: handle_persist_def Let_def intro: keeps_intros split: option.split)

lemma store_scan_returns: "\<exists>c ks. store_scan E s cursor hint pat now = Some (c, ks)"
proof -
  have "\<exists>r. scan_shards E num count pat now sh pos ms 0 [] = Some r" for num count sh pos ms
    using scan_shards_spec [of E num count pat now sh pos ms 0 "[]"] by (elim exE conjE) (rule exI)
  then show ?thesis unfolding store_scan_def Let_def by auto
qed

lemma handle_scan_returns: "\<exists>w'. handle_scan E s command w now = Some (w', s)"
proof (cases "parse_u64 (command ! 1)")
  case (Some cursor)
  show ?thesis
  proof (cases "parse_scan_options 10 None (drop 2 command)")
    case (Inr p)
    obtain c ks where "store_scan E s cursor (fst p) (snd p) now = Some (c, ks)"
      using store_scan_returns by blast
    with Some Inr show ?thesis by (simp add: handle_scan_def Let_def case_prod_beta)
  qed (use Some in \<open>auto simp: handle_scan_def\<close>)
qed (auto simp: handle_scan_def)

lemma handle_hset_returns:
  assumes "store_ok E s"
  shows "\<exists>w' s'. handle_hset E s command w now = Some (w', s') \<and> keeps E s s'"
  using assms hset_effect [OF assms, of "command ! 1" "pairs_of (drop 2 command)" now]
  by (auto simp: handle_hset_def keeps_def split: sum.split)

lemma keeps_handle_hget [keeps_intros]:
  assumes "store_ok E s"
  shows "keeps E s (snd (handle_hget E s command w now))"
  using assms hget_effect [OF assms, of "command ! 1" "command ! 2" now]
  by (auto simp: handle_hget_def keeps_def case_prod_beta split: sum.split)

lemma keeps_handle_hgetall [keeps_intros]:
  assumes "store_ok E s"
  shows "keeps E s (snd (handle_hgetall E s command w now))"
  using assms hgetall_effect [OF assms, of "command ! 1" now]
  by (auto simp: handle_hgetall_def keeps_def case_prod_beta split: sum.split)

lemma ok_handle_hdel:
  assumes "store_ok E s"
  shows "store_ok E (snd (handle_hdel E s command w now))"
proof -
  have "store_ok E (snd (hdel E s k fs now))" for k fs
    using hdel_effect [OF assms, of now k] hdel_other(3) [OF assms, of now k] by metis
  then show ?thesis using assms by (auto simp: handle_hdel_def case_prod_beta split: sum.split)
qed

end

end
