(* ===== verification/Redis_Spec.thy ===== *)
theory Redis_Spec
  imports Handlers
begin

text \<open>
  An abstract specification of the data commands: each command maps the keyspace a
  client observes at time \<open>now\<close> (a partial map from keys to contents and expiry) to
  a reply and a new keyspace. There are no shards, queues, counters, expired entries
  or bytes here. The handlers are proved to implement it, up to the keys that
  eviction takes away when a memory limit is set.
\<close>

section \<open>Specification\<close>

type_synonym ks = "bytes \<rightharpoonup> content \<times> u64 option"

definition string_of :: "ks \<Rightarrow> bytes \<Rightarrow> bytes option" where
  "string_of m k = (case m k of Some (Str b, _) \<Rightarrow> Some b | _ \<Rightarrow> None)"

definition put_value :: "u64 \<Rightarrow> ks \<Rightarrow> bytes \<Rightarrow> content \<Rightarrow> u64 option \<Rightarrow> ks" where
  "put_value now m k c x = m(k := if past now x then None else Some (c, x))"

definition count_reply :: "nat \<Rightarrow> reply" where
  "count_reply n = Num (int (n mod 2 ^ 64))"

definition error :: "string \<Rightarrow> ks \<Rightarrow> reply \<times> ks" where
  "error msg m = (Error (bs msg), m)"

definition spec_set :: "u64 \<Rightarrow> bytes list \<Rightarrow> ks \<Rightarrow> reply \<times> ks" where
  "spec_set now args m =
     (case args of
        k # v # opts \<Rightarrow>
          (case parse_set_options \<lparr>opt_ttl = None, opt_nx = False, opt_xx = False, opt_get = False\<rparr> opts of
             Inl err \<Rightarrow> error err m
           | Inr p \<Rightarrow>
               let old = string_of m k;
                   answer = (if opt_get p then reply_value old else Simple (bs ''OK''))
               in if opt_nx p \<and> opt_xx p then error ''XX and NX options at the same time are not compatible'' m
                  else if opt_nx p \<and> old \<noteq> None then (if opt_get p then reply_value old else Null, m)
                  else if opt_xx p \<and> old = None then (Null, m)
                  else (answer, put_value now m k (Str v) (map_option (\<lambda>t. now + t) (opt_ttl p))))
      | _ \<Rightarrow> error wrong_arguments m)"

definition spec_get :: "u64 \<Rightarrow> bytes list \<Rightarrow> ks \<Rightarrow> reply \<times> ks" where
  "spec_get now args m =
     (case args of k # _ \<Rightarrow> (reply_value (string_of m k), m) | [] \<Rightarrow> error wrong_arguments m)"

definition spec_del :: "u64 \<Rightarrow> bytes list \<Rightarrow> ks \<Rightarrow> reply \<times> ks" where
  "spec_del now args m =
     (if args = [] then error wrong_arguments m
      else (count_reply (card {k \<in> set args. m k \<noteq> None}), m |` (- set args)))"

definition spec_exists :: "u64 \<Rightarrow> bytes list \<Rightarrow> ks \<Rightarrow> reply \<times> ks" where
  "spec_exists now args m =
     (if args = [] then error wrong_arguments m
      else (count_reply (length (filter (\<lambda>k. m k \<noteq> None) args)), m))"

definition spec_type :: "u64 \<Rightarrow> bytes list \<Rightarrow> ks \<Rightarrow> reply \<times> ks" where
  "spec_type now args m =
     (case args of
        k # _ \<Rightarrow> (Simple (bs (case m k of Some (Str _, _) \<Rightarrow> ''string'' | Some (Fields _, _) \<Rightarrow> ''hash'' | None \<Rightarrow> ''none'')), m)
      | [] \<Rightarrow> error wrong_arguments m)"

definition spec_ttl :: "u64 \<Rightarrow> bytes list \<Rightarrow> ks \<Rightarrow> reply \<times> ks" where
  "spec_ttl now args m =
     (case args of
        k # _ \<Rightarrow> (Num (case m k of Some (_, Some x) \<Rightarrow> as_i64 (x - now) | Some (_, None) \<Rightarrow> - 1 | None \<Rightarrow> - 2), m)
      | [] \<Rightarrow> error wrong_arguments m)"

definition spec_pttl :: "u64 \<Rightarrow> bytes list \<Rightarrow> ks \<Rightarrow> reply \<times> ks" where
  "spec_pttl now args m =
     (case args of
        k # _ \<Rightarrow> (Num (case m k of
            Some (_, Some x) \<Rightarrow> min ((int (unat x) - int (unat now)) * 1000) (2 ^ 63 - 1)
          | Some (_, None) \<Rightarrow> - 1 | None \<Rightarrow> - 2), m)
      | [] \<Rightarrow> error wrong_arguments m)"

definition spec_add :: "int \<Rightarrow> u64 \<Rightarrow> bytes list \<Rightarrow> ks \<Rightarrow> reply \<times> ks" where
  "spec_add delta now args m =
     (case args of
        k # _ \<Rightarrow>
          let add = (\<lambda>i x.
                if in_i64 (i + delta) then (Num (i + delta), m(k \<mapsto> (Str (dec_int (i + delta)), x)))
                else error (if delta > 0 then ''increment would produce overflow''
                            else ''decrement would produce overflow'') m)
          in (case m k of
                None \<Rightarrow> add 0 None
              | Some (Str b, x) \<Rightarrow> (case parse_i64 b of Some i \<Rightarrow> add i x | None \<Rightarrow> error not_an_integer m)
              | Some (Fields _, _) \<Rightarrow> (Error wrongtype, m))
      | [] \<Rightarrow> error wrong_arguments m)"

definition spec_incrby :: "int \<Rightarrow> u64 \<Rightarrow> bytes list \<Rightarrow> ks \<Rightarrow> reply \<times> ks" where
  "spec_incrby sign now args m =
     (case args of
        _ # n # _ \<Rightarrow> (case parse_i64 n of
            Some i \<Rightarrow> spec_add (sign * i) now args m
          | None \<Rightarrow> error not_an_integer m)
      | _ \<Rightarrow> error wrong_arguments m)"

definition spec_mget :: "u64 \<Rightarrow> bytes list \<Rightarrow> ks \<Rightarrow> reply \<times> ks" where
  "spec_mget now args m =
     (if args = [] then error wrong_arguments m else (Arr (map (reply_value \<circ> string_of m) args), m))"

definition spec_mset :: "u64 \<Rightarrow> bytes list \<Rightarrow> ks \<Rightarrow> reply \<times> ks" where
  "spec_mset now args m =
     (if args = [] \<or> odd (length args) then error ''wrong number of arguments for MSET'' m
      else (Simple (bs ''OK''), m ++ map_of (rev (map (\<lambda>(k, v). (k, Str v, None)) (pairs_of args)))))"

definition spec_expire :: "u64 \<Rightarrow> bytes list \<Rightarrow> ks \<Rightarrow> reply \<times> ks" where
  "spec_expire now args m =
     (case args of
        k # n # _ \<Rightarrow> (case parse_i64 n of
            None \<Rightarrow> error not_an_integer m
          | Some i \<Rightarrow> (case m k of
              None \<Rightarrow> (Num 0, m)
            | Some (c, _) \<Rightarrow>
                (Num 1, if i > 0 then put_value now m k c (Some (now + of_int i)) else m(k := None))))
      | _ \<Rightarrow> error wrong_arguments m)"

definition spec_persist :: "u64 \<Rightarrow> bytes list \<Rightarrow> ks \<Rightarrow> reply \<times> ks" where
  "spec_persist now args m =
     (case args of
        k # _ \<Rightarrow> (case m k of
            Some (c, Some _) \<Rightarrow> (Num 1, m(k \<mapsto> (c, None)))
          | _ \<Rightarrow> (Num 0, m))
      | [] \<Rightarrow> error wrong_arguments m)"

definition spec_hset :: "u64 \<Rightarrow> bytes list \<Rightarrow> ks \<Rightarrow> reply \<times> ks" where
  "spec_hset now args m =
     (case args of
        k # rest \<Rightarrow>
          if rest = [] \<or> odd (length rest) then error (quoted ''hset'') m
          else
            let fvs = pairs_of rest;
                write = (\<lambda>h x. (count_reply (card (fst ` set fvs - dom h)), m(k \<mapsto> (Fields (h ++ map_of (rev fvs)), x))))
            in (case m k of
                  None \<Rightarrow> write Map.empty None
                | Some (Fields h, x) \<Rightarrow> write h x
                | Some (Str _, _) \<Rightarrow> (Error wrongtype, m))
      | [] \<Rightarrow> error (quoted ''hset'') m)"

definition spec_hget :: "u64 \<Rightarrow> bytes list \<Rightarrow> ks \<Rightarrow> reply \<times> ks" where
  "spec_hget now args m =
     (case args of
        k # f # _ \<Rightarrow> (case m k of
            None \<Rightarrow> (Null, m)
          | Some (Fields h, _) \<Rightarrow> (reply_value (h f), m)
          | Some (Str _, _) \<Rightarrow> (Error wrongtype, m))
      | _ \<Rightarrow> error (quoted ''hget'') m)"

definition spec_hdel :: "u64 \<Rightarrow> bytes list \<Rightarrow> ks \<Rightarrow> reply \<times> ks" where
  "spec_hdel now args m =
     (case args of
        k # fs \<Rightarrow>
          if fs = [] then error (quoted ''hdel'') m
          else (case m k of
              None \<Rightarrow> (Num 0, m)
            | Some (Str _, _) \<Rightarrow> (Error wrongtype, m)
            | Some (Fields h, x) \<Rightarrow>
                (count_reply (card (set fs \<inter> dom h)),
                 if set fs \<inter> dom h \<noteq> {} \<and> dom h \<subseteq> set fs then m(k := None)
                 else m(k \<mapsto> (Fields (h |` (- set fs)), x))))
      | [] \<Rightarrow> error (quoted ''hdel'') m)"

section \<open>Refinement\<close>

declare render.simps [simp del]

text \<open>
  \<open>answers evicting E s now f w res\<close>: the step from \<open>s\<close> to \<open>res\<close> appends one reply and
  implements \<open>f\<close> on the keyspace. An evicting step may first lose keys when there is
  a limit, or refuse with the out-of-memory error.
\<close>

definition answers ::
  "bool \<Rightarrow> 'm env \<Rightarrow> 'm db \<Rightarrow> u64 \<Rightarrow> (ks \<Rightarrow> reply \<times> ks) \<Rightarrow> resp_writer \<Rightarrow> resp_writer \<times> 'm db \<Rightarrow> bool" where
  "answers evicting E s now f w res \<longleftrightarrow>
     (\<exists>r m. fst res = put w (render r) \<and> m \<subseteq>\<^sub>m keyspace E s now
       \<and> (evicting \<and> memory_limit E > 0 \<or> m = keyspace E s now)
       \<and> ((r, keyspace E (snd res) now) = f m
          \<or> evicting \<and> memory_limit E > 0 \<and> (r, keyspace E (snd res) now) = error out_of_memory m))"

lemma answersI:
  assumes "fst res = put w (render r)" and "f (keyspace E s now) = (r, keyspace E (snd res) now)"
  shows "answers b E s now f w res"
  using assms unfolding answers_def by (intro exI [of _ r] exI [of _ "keyspace E s now"]) simp

lemma write_count_reply: "write_integer w (of_nat n) = put w (render (count_reply n))"
  by (simp add: write_integer_reply count_reply_def unat_of_nat)

lemma keyspace_at:
  "keyspace E s now k =
     (case shard_get E s k of
        Some e \<Rightarrow> if past now (expiry e) then None else Some (content_of (val e), expiry e)
      | None \<Rightarrow> None)"
  by (simp add: keyspace_def view_def visible_def split: option.split)

lemma live_string_of: "live_string E s k now = string_of (keyspace E s now) k"
  by (simp add: live_string_def string_of_def keyspace_at expired_past content_of_def
      split: option.split entry_value.split)

lemma keyspace_cong: "view E s' = view E s \<Longrightarrow> keyspace E s' = keyspace E s"
  by (simp add: keyspace_def fun_eq_iff)

lemma keyspace_mono: "view E s' \<subseteq>\<^sub>m view E s \<Longrightarrow> keyspace E s' now \<subseteq>\<^sub>m keyspace E s now"
  by (auto simp: map_le_def keyspace_def dom_def split: bind_splits)

lemma as_i64_small:
  assumes "unat w < 2 ^ 63"
  shows "as_i64 w = int (unat w)"
proof -
  have "int (unat w) < int (2 ^ 63)" using assms by (simp only: of_nat_less_iff)
  then have "uint w < 2 ^ 63" by simp
  moreover have "- (2 ^ 63) \<le> uint w" by (rule order_trans [OF _ uint_ge_0]) simp
  ultimately have "signed_take_bit 63 (uint w) = uint w" by (intro signed_take_bit_int_eq_self) simp_all
  then show ?thesis by (simp add: as_i64_def sint_uint)
qed

lemma unat_min: "unat (min a b) = min (unat a) (unat b)"
  by (simp add: min_def word_le_nat_alt)

lemma pttl_millis:
  assumes "now < x"
  shows "as_i64 (min (u64_saturating_mul (u64_saturating_sub x now) 1000) 0x7FFFFFFFFFFFFFFF) =
    min ((int (unat x) - int (unat now)) * 1000) (2 ^ 63 - 1)"
proof -
  let ?w = "min (u64_saturating_mul (u64_saturating_sub x now) 1000) 0x7FFFFFFFFFFFFFFF :: u64"
  have u: "unat ?w = min ((unat x - unat now) * 1000) (2 ^ 63 - 1)"
    by (simp add: unat_min unat_u64_saturating_mul unat_u64_saturating_sub)
  then have "as_i64 ?w = int (unat ?w)" by (intro as_i64_small) simp
  moreover have "int ((unat x - unat now) * 1000) = (int (unat x) - int (unat now)) * 1000"
    using assms by (simp only: of_nat_mult of_nat_diff word_less_nat_alt less_imp_le)
  ultimately show ?thesis unfolding u by (simp only: of_nat_min) simp
qed

lemma now_plus_diff: "\<not> past now x \<Longrightarrow> map_option ((+) now) (map_option (\<lambda>x. x - now) x) = x"
  by (cases x) simp_all

context store_env
begin

lemma keyspace_set_accounted [simp]:
  "store_ok E s \<Longrightarrow> keyspace E (set_accounted E s k v ttl now) now =
     put_value now (keyspace E s now) k (Str v) (map_option (\<lambda>t. now + t) ttl)"
  by (simp add: keyspace_def put_value_def visible_def content_of_def fun_eq_iff)

lemma keyspace_modify_expiry:
  assumes "store_ok E s" and "keyspace E s now k = Some (c, x)"
  shows "keyspace E (shard_modify E s k (expiry_update (\<lambda>_. y))) now = put_value now (keyspace E s now) k c y"
proof (cases "shard_get E s k")
  case (Some e)
  then show ?thesis
    using assms by (auto simp: keyspace_at put_value_def visible_def fun_eq_iff split: if_splits)
qed (use assms in \<open>simp add: keyspace_at\<close>)

lemma evict_keyspace:
  assumes "store_ok E s"
  shows "keyspace E (snd (evict_if_needed E s n)) now \<subseteq>\<^sub>m keyspace E s now"
    and "memory_limit E = 0 \<Longrightarrow> evict_if_needed E s n = (True, s)"
    and "store_ok E (snd (evict_if_needed E s n))"
  using evict_if_needed_effect [OF assms, of n] by (auto intro: keyspace_mono simp: evict_if_needed_def)

text \<open>A step that evicts first and then refines \<open>f\<close> from the state it got.\<close>

lemma answers_evicting:
  assumes "store_ok E s"
    and "\<not> fst (evict_if_needed E s n) \<Longrightarrow> res = (fail w out_of_memory, snd (evict_if_needed E s n))"
    and "fst (evict_if_needed E s n) \<Longrightarrow> fst res = put w (render r)
      \<and> f (keyspace E (snd (evict_if_needed E s n)) now) = (r, keyspace E (snd res) now)"
  shows "answers True E s now f w res"
proof -
  let ?s = "snd (evict_if_needed E s n)"
  have m: "keyspace E ?s now \<subseteq>\<^sub>m keyspace E s now" "memory_limit E > 0 \<or> keyspace E ?s now = keyspace E s now"
    using evict_keyspace [OF assms(1), of n] by (auto simp: word_gt_0)
  show ?thesis
  proof (cases "fst (evict_if_needed E s n)")
    case True
    with assms(3) m show ?thesis
      unfolding answers_def by (intro exI [of _ r] exI [of _ "keyspace E ?s now"]) auto
  next
    case False
    moreover have "memory_limit E > 0" using False evict_keyspace(2) [OF assms(1), of n] by (auto simp: word_gt_0)
    ultimately show ?thesis
      using m assms(2) unfolding answers_def
      by (intro exI [of _ "Error (bs out_of_memory)"] exI [of _ "keyspace E ?s now"]) (simp add: reply_simps error_def)
  qed
qed

lemma answers_set:
  assumes "store_ok E s"
  shows "answers True E s now (spec_set now args) w (handle_set E s (c # args) w now)"
proof (cases "length args < 2")
  case True
  then show ?thesis
    by (intro answersI [of _ _ "Error (bs wrong_arguments)"])
      (auto simp: handle_set_def reply_simps spec_set_def error_def split: list.split)
next
  case False
  then obtain k v opts where args: "args = k # v # opts" by (cases args; cases "tl args") auto
  let ?n = "entry_size (length k) (length v)"
  let ?s = "snd (evict_if_needed E s ?n)"
  let ?m = "keyspace E ?s now"
  have ok: "store_ok E ?s" by (rule evict_keyspace(3) [OF assms])
  show ?thesis
  proof (rule answers_evicting [OF assms, of ?n, where r = "fst (spec_set now args ?m)"])
    assume "\<not> fst (evict_if_needed E s ?n)"
    then show "handle_set E s (c # args) w now = (fail w out_of_memory, ?s)"
      by (simp add: handle_set_def args case_prod_beta)
  next
    assume fits: "fst (evict_if_needed E s ?n)"
    show "fst (handle_set E s (c # args) w now) = put w (render (fst (spec_set now args ?m))) \<and>
      spec_set now args ?m = (fst (spec_set now args ?m), keyspace E (snd (handle_set E s (c # args) w now)) now)"
      using ok fits
      by (auto simp: handle_set_def args case_prod_beta spec_set_def Let_def live_string_of reply_simps error_def
          split: sum.split)
  qed
qed

lemma answers_ttl:
  assumes "store_ok E s"
  shows "answers b E s now (spec_ttl now args) w (handle_ttl E s (c # args) w now)"
proof (rule answersI)
  show "fst (handle_ttl E s (c # args) w now) = put w (render (fst (spec_ttl now args (keyspace E s now))))"
    by (auto simp: handle_ttl_def spec_ttl_def reply_simps error_def keyspace_at past_def split: list.split option.split)
  show "spec_ttl now args (keyspace E s now) = (fst (spec_ttl now args (keyspace E s now)),
      keyspace E (snd (handle_ttl E s (c # args) w now)) now)"
    using assms by (auto simp: handle_ttl_def spec_ttl_def error_def split: list.split option.split)
qed

lemma answers_pttl:
  assumes "store_ok E s"
  shows "answers b E s now (spec_pttl now args) w (handle_pttl E s (c # args) w now)"
proof (rule answersI)
  show "fst (handle_pttl E s (c # args) w now) = put w (render (fst (spec_pttl now args (keyspace E s now))))"
    by (auto simp: handle_pttl_def spec_pttl_def reply_simps error_def keyspace_at past_def Let_def
        pttl_millis split: list.split option.split)
  show "spec_pttl now args (keyspace E s now) = (fst (spec_pttl now args (keyspace E s now)),
      keyspace E (snd (handle_pttl E s (c # args) w now)) now)"
    using assms by (auto simp: handle_pttl_def spec_pttl_def error_def Let_def split: list.split option.split)
qed

lemma incr_current_spec:
  assumes ok: "store_ok E s" and stale: "\<And>h x. view E s k = Some (HashV h, x) \<Longrightarrow> \<not> past now x"
  shows "keyspace E (snd (incr_current E s k now)) now = keyspace E s now"
    and "fst (incr_current E s k now) = (case keyspace E s now k of
        None \<Rightarrow> Inr (0, None, 0)
      | Some (Str b, x) \<Rightarrow> (case parse_i64 b of
            Some i \<Rightarrow> Inr (i, map_option (\<lambda>x. x - now) x, size_of k (StringV b))
          | None \<Rightarrow> Inl (bs not_an_integer))
      | Some (Fields _, _) \<Rightarrow> Inl wrongtype)"
proof -
  show "keyspace E (snd (incr_current E s k now)) now = keyspace E s now"
    using ok by (auto simp: incr_current_def split: option.split entry_value.split)
  show "fst (incr_current E s k now) = (case keyspace E s now k of
        None \<Rightarrow> Inr (0, None, 0)
      | Some (Str b, x) \<Rightarrow> (case parse_i64 b of
            Some i \<Rightarrow> Inr (i, map_option (\<lambda>x. x - now) x, size_of k (StringV b))
          | None \<Rightarrow> Inl (bs not_an_integer))
      | Some (Fields _, _) \<Rightarrow> Inl wrongtype)"
  proof (cases "shard_get E s k")
    case (Some e)
    show ?thesis
    proof (cases "val e")
      case (HashV h)
      then have "\<not> past now (expiry e)" using stale [of h "expiry e"] Some by (simp add: view_def)
      then show ?thesis using Some HashV by (simp add: incr_current_def keyspace_at content_of_def)
    qed (use Some in \<open>auto simp: incr_current_def keyspace_at content_of_def past_def u64_saturating_sub_def size_of_def
        split: option.split\<close>)
  qed (simp add: incr_current_def keyspace_at)
qed

text \<open>
  The write half of \<^verbatim>\<open>INCR\<close>. Eviction may take the key itself after its value was read;
  the write brings it back.
\<close>

lemma answers_add:
  assumes ok: "store_ok E s0" and same: "keyspace E s0 now = keyspace E s now"
    and f: "\<And>m. m k = keyspace E s now k \<Longrightarrow> f m = (Num i, m(k \<mapsto> (Str (dec_int i), x)))"
    and i: "in_i64 i" and x: "\<not> past now x"
  shows "answers True E s now f w
    (let (fits, s1) = (if net > 0 then evict_if_needed E s0 net else (True, s0))
     in if \<not> fits then (fail w out_of_memory, s1)
        else (write_signed_integer w i, set_accounted E s1 k (dec_int i) (map_option (\<lambda>x. x - now) x) now))"
    (is "answers _ _ _ _ _ _ ?res")
proof -
  have upd: "put_value now m k (Str (dec_int i)) (map_option ((+) now) (map_option (\<lambda>x. x - now) x))
      = m(k \<mapsto> (Str (dec_int i), x))" for m
    using x by (simp only: now_plus_diff [OF x]) (simp add: put_value_def)
  show ?thesis
  proof (cases "net > 0")
    case False
    then show ?thesis
      using ok i by (intro answersI [of _ _ "Num i"]) (simp_all add: reply_simps upd same f)
  next
    case net: True
    let ?s = "snd (evict_if_needed E s0 net)"
    let ?m = "(keyspace E ?s now)(k := keyspace E s now k)"
    have le: "keyspace E ?s now \<subseteq>\<^sub>m keyspace E s now" "store_ok E ?s"
      using evict_keyspace(1) [OF ok, of net now] evict_keyspace(3) [OF ok, of net] by (simp_all add: same)
    then have m: "?m \<subseteq>\<^sub>m keyspace E s now" by (simp add: map_le_def dom_def)
    have free: "memory_limit E > 0 \<or> evict_if_needed E s0 net = (True, s0)"
      using evict_keyspace(2) [OF ok, of net] by (auto simp: word_gt_0)
    show ?thesis
    proof (cases "fst (evict_if_needed E s0 net)")
      case True
      then have "fst ?res = put w (render (Num i))"
        and "f ?m = (Num i, keyspace E (snd ?res) now)"
        using net le i by (simp_all add: case_prod_beta reply_simps upd f)
      moreover have "memory_limit E > 0 \<or> ?m = keyspace E s now" using free same by auto
      ultimately show ?thesis
        using m unfolding answers_def by (intro exI [of _ "Num i"] exI [of _ ?m]) simp
    next
      case False
      then have "memory_limit E > 0" using free by auto
      with False net le show ?thesis
        unfolding answers_def
        by (intro exI [of _ "Error (bs out_of_memory)"] exI [of _ "keyspace E ?s now"])
          (simp add: case_prod_beta reply_simps error_def)
    qed
  qed
qed

text \<open>What a counter command that succeeds does to any map that agrees on its key.\<close>

lemma incr_target:
  assumes ok: "store_ok E s" and live: "\<And>h x. view E s k = Some (HashV h, x) \<Longrightarrow> \<not> past now x"
    and p: "fst (incr_current E s k now) = Inr (i, ttl, old)" and range: "in_i64 (i + delta)"
  obtains x where "\<not> past now x" and "ttl = map_option (\<lambda>x. x - now) x"
    and "\<And>m. m k = keyspace E s now k \<Longrightarrow>
      spec_add delta now (k # rest) m = (Num (i + delta), m(k \<mapsto> (Str (dec_int (i + delta)), x)))"
proof (cases "keyspace E s now k")
  case None
  then have "i = 0" "ttl = None" using incr_current_spec(2) [OF ok live] p by simp_all
  with None range show thesis by (intro that [of None]) (simp_all add: spec_add_def past_def)
next
  case (Some q)
  then obtain b x where q: "keyspace E s now k = Some (Str b, x)" and b: "parse_i64 b = Some i"
    and ttl: "ttl = map_option (\<lambda>x. x - now) x"
    using incr_current_spec(2) [OF ok live] p by (cases q) (auto split: content.splits option.splits)
  have "\<not> past now x" using q by (auto simp: keyspace_at split: option.splits if_splits)
  with q b ttl range show thesis by (intro that [of x]) (simp_all add: spec_add_def)
qed

lemma answers_incr:
  assumes ok: "store_ok E s" and stale: "\<And>h x. view E s (hd args) = Some (HashV h, x) \<Longrightarrow> \<not> past now x"
  shows "answers True E s now (spec_add delta now args) w (handle_incr E s (c # args) w now delta)"
proof (cases args)
  case Nil
  then show ?thesis
    by (intro answersI [of _ _ "Error (bs wrong_arguments)"]) (simp_all add: handle_incr_def reply_simps spec_add_def error_def)
next
  case (Cons k rest)
  let ?s = "snd (incr_current E s k now)"
  have cur: "incr_current E s k now = (fst (incr_current E s k now), ?s)" by simp
  have live: "\<not> past now x" if "view E s k = Some (HashV h, x)" for h x using stale that Cons by simp
  note spec = incr_current_spec [OF ok live]
  have ok': "store_ok E ?s" using keeps_incr_current [OF ok] by (rule keeps_ok)
  show ?thesis
  proof (cases "fst (incr_current E s k now)")
    case (Inl err)
    then have "handle_incr E s (c # args) w now delta = (write_error w err, ?s)"
      by (simp add: handle_incr_def Cons case_prod_beta)
    moreover have "spec_add delta now args (keyspace E s now) = (Error err, keyspace E s now)"
      using Inl spec(2) by (auto simp: spec_add_def Cons error_def split: option.splits content.splits)
    ultimately show ?thesis by (intro answersI [of _ _ "Error err"]) (simp_all add: reply_simps spec(1))
  next
    case (Inr p)
    then obtain i ttl old where p: "fst (incr_current E s k now) = Inr (i, ttl, old)" by (cases p) auto
    show ?thesis
    proof (cases "in_i64 (i + delta)")
      case True
      obtain x where x: "\<not> past now x" "ttl = map_option (\<lambda>x. x - now) x"
        and f: "\<And>m. m k = keyspace E s now k \<Longrightarrow> spec_add delta now args m = (Num (i + delta), m(k \<mapsto> (Str (dec_int (i + delta)), x)))"
        by (rule incr_target [OF ok _ p True, where rest = rest, folded Cons], erule live, rule that)
      let ?net = "entry_size (length k) (length (dec_int (i + delta))) - old"
      have "handle_incr E s (c # args) w now delta =
        (let (fits, s1) = (if ?net > 0 then evict_if_needed E ?s ?net else (True, ?s))
         in if \<not> fits then (fail w out_of_memory, s1)
            else (write_signed_integer w (i + delta), set_accounted E s1 k (dec_int (i + delta)) ttl now))"
        using True p by (simp add: handle_incr_def Cons case_prod_beta i64_checked_add_def Let_def)
      with answers_add [where f = "spec_add delta now args" and w = w and net = ?net, OF ok' spec(1) f True x(1)]
      show ?thesis by (simp only: x(2))
    next
      case False
      let ?err = "bs (if delta > 0 then ''increment would produce overflow'' else ''decrement would produce overflow'')"
      have "handle_incr E s (c # args) w now delta = (write_error w ?err, ?s)"
        using False p by (simp add: handle_incr_def Cons case_prod_beta i64_checked_add_def)
      moreover have "spec_add delta now args (keyspace E s now) = (Error ?err, keyspace E s now)"
        using False p spec(2) by (auto simp: spec_add_def Cons error_def split: option.splits content.splits)
      ultimately show ?thesis by (intro answersI [of _ _ "Error ?err"]) (simp_all add: reply_simps spec(1))
    qed
  qed
qed

lemma answers_incrby:
  assumes "store_ok E s" and "\<And>h x. view E s (hd args) = Some (HashV h, x) \<Longrightarrow> \<not> past now x"
  shows "answers True E s now (spec_incrby 1 now args) w (handle_incrby E s (c # args) w now)"
    and "answers True E s now (spec_incrby (- 1) now args) w (handle_decrby E s (c # args) w now)"
proof -
  consider "length args < 2" | k n rest where "args = k # n # rest" by (cases args; cases "tl args") auto
  then have "answers True E s now (spec_incrby 1 now args) w (handle_incrby E s (c # args) w now)
    \<and> answers True E s now (spec_incrby (- 1) now args) w (handle_decrby E s (c # args) w now)"
  proof cases
    case 1
    then show ?thesis
      by (intro conjI answersI [of _ _ "Error (bs wrong_arguments)"])
        (auto simp: handle_incrby_def handle_decrby_def spec_incrby_def error_def reply_simps split: list.split)
  next
    case 2
    show ?thesis
    proof (cases "parse_i64 n")
      case None
      then show ?thesis
        by (intro conjI answersI [of _ _ "Error (bs not_an_integer)"])
          (simp_all add: 2 handle_incrby_def handle_decrby_def spec_incrby_def error_def reply_simps)
    next
      case (Some i)
      then have "i \<noteq> - (2 ^ 63)" using parse_i64_range by fastforce
      moreover have "spec_incrby j now args = spec_add (j * i) now args" for j
        by (rule ext) (simp add: spec_incrby_def 2 Some)
      moreover have "answers True E s now (spec_add d now args) w (handle_incr E s (c # args) w now d)" for d
        by (rule answers_incr [OF assms])
      ultimately show ?thesis using Some by (simp add: handle_incrby_def handle_decrby_def 2)
    qed
  qed
  then show "answers True E s now (spec_incrby 1 now args) w (handle_incrby E s (c # args) w now)"
    and "answers True E s now (spec_incrby (- 1) now args) w (handle_decrby E s (c # args) w now)" by simp_all
qed

lemma mget_loop_spec:
  "store_ok E s \<Longrightarrow>
    fst (mget_loop E s ks w now) = put w (concat (map (render \<circ> reply_value \<circ> string_of (keyspace E s now)) ks))
    \<and> keyspace E (snd (mget_loop E s ks w now)) now = keyspace E s now"
proof (induction ks arbitrary: s w)
  case (Cons k ks)
  have v: "fst (store_get E s k now) = string_of (keyspace E s now) k"
    by (simp add: store_get_effect(1) [OF Cons.prems] string_of_def)
  show ?case
    using Cons.IH [OF ok_store_get [OF Cons.prems]] store_get_effect(2) [OF Cons.prems, of k now] v
    by (simp add: case_prod_beta write_value_reply)
qed simp

lemma answers_mget:
  assumes "store_ok E s"
  shows "answers b E s now (spec_mget now args) w (handle_mget E s (c # args) w now)"
proof (rule answersI)
  show "fst (handle_mget E s (c # args) w now) = put w (render (fst (spec_mget now args (keyspace E s now))))"
    using mget_loop_spec [OF assms]
    by (cases "args = []") (simp_all add: handle_mget_def spec_mget_def reply_simps error_def write_array_header_put
        render.simps(6) unat_of_nat comp_def Suc_le_eq)
  show "spec_mget now args (keyspace E s now) = (fst (spec_mget now args (keyspace E s now)),
      keyspace E (snd (handle_mget E s (c # args) w now)) now)"
    using mget_loop_spec [OF assms] by (cases "args = []") (simp_all add: handle_mget_def spec_mget_def error_def Suc_le_eq)
qed

lemma mset_loop_spec:
  "store_ok E s \<Longrightarrow> keyspace E (mset_loop E s kvs now) now =
    keyspace E s now ++ map_of (rev (map (\<lambda>(k, v). (k, Str v, None)) kvs))"
proof (induction kvs arbitrary: s)
  case (Cons kv kvs)
  obtain k v where kv: "kv = (k, v)" by (cases kv)
  have "store_ok E (set_accounted E s k v None now)"
    using keeps_set_accounted [OF Cons.prems] by (rule keeps_ok)
  from Cons.IH [OF this] Cons.prems show ?case
    by (simp add: kv put_value_def past_def map_add_def fun_eq_iff split: option.split)
qed simp

lemma answers_mset:
  assumes "store_ok E s"
  shows "answers True E s now (spec_mset now args) w (handle_mset E s (c # args) w now)"
proof (cases "args = [] \<or> odd (length args)")
  case True
  then have "length (c # args) < 3 \<or> \<not> even (length (c # args) - 1)" by auto
  with True show ?thesis
    by (intro answersI [of _ _ "Error (bs ''wrong number of arguments for MSET'')"])
      (simp_all add: handle_mset_def spec_mset_def error_def reply_simps)
next
  case False
  then have args: "\<not> length args < 2" "args \<noteq> []" "even (length args)" by (cases args; cases "tl args"; simp)+
  let ?net = "mset_net_size E s (pairs_of args) now 0"
  show ?thesis
  proof (cases "as_i64 ?net > 0")
    case True
    show ?thesis
      by (rule answers_evicting [OF assms, of "unat ?net" _ _ "Simple (bs ''OK'')"])
        (use True args in \<open>simp_all add: handle_mset_def spec_mset_def case_prod_beta reply_simps Let_def
          mset_loop_spec [OF evict_keyspace(3) [OF assms]]\<close>)
  next
    case False
    with args show ?thesis
      by (intro answersI [of _ _ "Simple (bs ''OK'')"])
        (simp_all add: handle_mset_def spec_mset_def reply_simps mset_loop_spec [OF assms])
  qed
qed

lemma answers_expire_later:
  assumes ok: "store_ok E s" and i: "parse_i64 n = Some i" "i > 0"
  shows "answers b E s now (spec_expire now (k # n # rest)) w (handle_expire E s (c # k # n # rest) w now)"
proof (cases "keyspace E s now k")
  case None
  then have "shard_get E s k = None \<or> (\<exists>e. shard_get E s k = Some e \<and> expired now e)"
    by (auto simp: keyspace_at expired_past split: option.splits if_splits)
  with None i ok show ?thesis
    by (intro answersI [of _ _ "Num 0"]) (auto simp: handle_expire_def spec_expire_def reply_simps)
next
  case (Some p)
  then obtain e where e: "shard_get E s k = Some e" "\<not> expired now e"
    by (auto simp: keyspace_at expired_past split: option.splits if_splits)
  obtain ct x where p: "p = (ct, x)" by (cases p)
  show ?thesis
    using keyspace_modify_expiry [OF ok Some [unfolded p]] e i Some p
    by (intro answersI [of _ _ "Num 1"]) (simp_all add: handle_expire_def spec_expire_def reply_simps)
qed

lemma answers_expire:
  assumes "store_ok E s"
  shows "answers b E s now (spec_expire now args) w (handle_expire E s (c # args) w now)"
proof -
  consider "length args < 2" | k n rest where "args = k # n # rest" by (cases args; cases "tl args") auto
  then show ?thesis
  proof cases
    case 1
    then show ?thesis
      by (intro answersI [of _ _ "Error (bs wrong_arguments)"])
        (auto simp: handle_expire_def spec_expire_def error_def reply_simps split: list.split)
  next
    case 2
    have del: "store_ok E s \<Longrightarrow> keyspace E (snd (store_delete E s [k] now)) now = (keyspace E s now)(k := None)"
      using store_delete_effect [of s "[k]" now] by (auto simp: keyspace_def restrict_map_def fun_eq_iff)
    have cnt: "fst (store_delete E s [k] now) = (if keyspace E s now k = None then 0 else 1)"
      using store_delete_effect [OF assms, of "[k]" now] by (auto simp: Collect_conv_if)
    have same: "(keyspace E s now)(k := None) = keyspace E s now" if "keyspace E s now k = None"
      using that by auto
    show ?thesis
    proof (cases "parse_i64 n")
      case None
      then show ?thesis
        by (intro answersI [of _ _ "Error (bs not_an_integer)"])
          (simp_all add: 2 handle_expire_def spec_expire_def error_def reply_simps)
    next
      case (Some i)
      show ?thesis
      proof (cases "i > 0")
        case False
        with Some show ?thesis
          using assms del cnt same
          by (intro answersI [of _ _ "Num (if keyspace E s now k = None then 0 else 1)"])
            (auto simp: 2 handle_expire_def spec_expire_def reply_simps case_prod_beta simp del: store_delete.simps
              split: option.split)
      next
        case True
        with Some assms show ?thesis unfolding 2 by (intro answers_expire_later)
      qed
    qed
  qed
qed

lemma answers_persist:
  assumes "store_ok E s"
  shows "answers b E s now (spec_persist now args) w (handle_persist E s (c # args) w now)"
proof (cases args)
  case Nil
  then show ?thesis
    by (intro answersI [of _ _ "Error (bs wrong_arguments)"])
      (simp_all add: handle_persist_def spec_persist_def error_def reply_simps)
next
  case (Cons k rest)
  show ?thesis
  proof (cases "\<exists>ct x. keyspace E s now k = Some (ct, Some x)")
    case True
    then obtain ct x where live: "keyspace E s now k = Some (ct, Some x)" by blast
    then obtain e where "shard_get E s k = Some e" "expiry e = Some x" "\<not> x \<le> now"
      by (auto simp: keyspace_at past_def split: option.splits if_splits)
    then show ?thesis
      using keyspace_modify_expiry [OF assms live, of None] live
      by (intro answersI [of _ _ "Num 1"])
        (simp_all add: Cons handle_persist_def spec_persist_def reply_simps put_value_def past_def)
  next
    case False
    then have "spec_persist now args (keyspace E s now) = (Num 0, keyspace E s now)"
      by (auto simp: spec_persist_def Cons split: option.split)
    moreover have "x \<le> now" if "shard_get E s k = Some e" "expiry e = Some x" for e x
      using False that by (cases "x \<le> now") (simp_all add: keyspace_at past_def)
    ultimately show ?thesis
      using assms by (intro answersI [of _ _ "Num 0"])
        (auto simp: Cons handle_persist_def reply_simps split: option.split)
  qed
qed

lemma answers_hset:
  assumes "store_ok E s"
  shows "\<exists>res. handle_hset E s (c # args) w now = Some res \<and> answers b E s now (spec_hset now args) w res"
proof (cases "length args < 3 \<or> even (length args)")
  case True
  then have "handle_hset E s (c # args) w now = Some (fail w (quoted ''hset''), s)"
    by (cases args) (auto simp: handle_hset_def mod2_eq_if)
  moreover have "spec_hset now args (keyspace E s now) = (Error (bs (quoted ''hset'')), keyspace E s now)"
    using True by (cases args; cases "tl args") (auto simp: spec_hset_def error_def)
  ultimately show ?thesis
    by (auto intro!: answersI [of _ _ "Error (bs (quoted ''hset''))"] simp: reply_simps)
next
  case False
  then obtain k rest where args: "args = k # rest" "rest \<noteq> []" "even (length rest)" "\<not> length rest < 2"
    by (cases args; cases "tl args") auto
  obtain r s' where r: "hset E s k (pairs_of rest) now = Some (r, s')" "case keyspace E s now k of
         Some (Str _, _) \<Rightarrow> r = Inl wrongtype \<and> view E s' = view E s
       | Some (Fields m, x) \<Rightarrow> r = Inr (card (fst ` set (pairs_of rest) - dom m))
           \<and> keyspace E s' now = (keyspace E s now)(k \<mapsto> (Fields (m ++ map_of (rev (pairs_of rest))), x))
       | None \<Rightarrow> r = Inr (card (fst ` set (pairs_of rest)))
           \<and> keyspace E s' now = (keyspace E s now)(k \<mapsto> (Fields (map_of (rev (pairs_of rest))), None))"
    using hset_effect [OF assms, of k "pairs_of rest" now] by blast
  define rep where "rep = (case r of Inl e \<Rightarrow> Error e | Inr n \<Rightarrow> count_reply n)"
  have "handle_hset E s (c # args) w now = Some (put w (render rep), s')"
    using args r(1) by (simp add: handle_hset_def rep_def write_count_reply write_error_reply split: sum.split)
  moreover have "spec_hset now args (keyspace E s now) = (rep, keyspace E s' now)"
    using args r(2) by (auto simp: spec_hset_def rep_def Let_def dest: keyspace_cong split: option.splits content.splits)
  ultimately show ?thesis by (auto intro!: answersI [of _ _ rep])
qed

lemma answers_hget:
  assumes "store_ok E s"
  shows "answers b E s now (spec_hget now args) w (handle_hget E s (c # args) w now)"
proof -
  consider "length args < 2" | k f rest where "args = k # f # rest" by (cases args; cases "tl args") auto
  then show ?thesis
  proof cases
    case 1
    then show ?thesis
      by (intro answersI [of _ _ "Error (bs (quoted ''hget''))"])
        (auto simp: handle_hget_def spec_hget_def error_def reply_simps split: list.split)
  next
    case 2
    then show ?thesis
      using hget_effect [OF assms, of k f now]
      by (intro answersI [of _ _ "fst (spec_hget now args (keyspace E s now))"])
        (auto simp: handle_hget_def spec_hget_def reply_simps case_prod_beta reply_value_def
          split: option.splits content.splits sum.splits)
  qed
qed

lemma answers_hdel:
  assumes "store_ok E s"
  shows "answers b E s now (spec_hdel now args) w (handle_hdel E s (c # args) w now)"
proof -
  consider "length args < 2" | k fs where "args = k # fs" "fs \<noteq> []" by (cases args; cases "tl args") auto
  then show ?thesis
  proof cases
    case 1
    then show ?thesis
      by (intro answersI [of _ _ "Error (bs (quoted ''hdel''))"])
        (auto simp: handle_hdel_def spec_hdel_def error_def reply_simps split: list.split)
  next
    case 2
    have run: "handle_hdel E s (c # k # fs) w now =
        (case fst (hdel E s k fs now) of Inr n \<Rightarrow> write_integer w (of_nat n) | Inl e \<Rightarrow> write_error w e,
         snd (hdel E s k fs now))"
      using 2(2) by (cases fs) (simp_all add: handle_hdel_def case_prod_beta split: sum.split)
    show ?thesis
    proof (cases "\<exists>m x. keyspace E s now k = Some (Fields m, x)")
      case True
      then obtain m x where live: "keyspace E s now k = Some (Fields m, x)" by blast
      then show ?thesis
        using hdel_effect [OF assms live, of fs] 2
        by (intro answersI [of _ _ "count_reply (card (set fs \<inter> dom m))"])
          (simp_all add: run spec_hdel_def write_count_reply)
    next
      case False
      then have no: "keyspace E s now k \<noteq> Some (Fields m, x)" for m x by blast
      then show ?thesis
        using hdel_other(1,2) [OF assms no, of fs] 2 False
        by (intro answersI [of _ _ "if keyspace E s now k = None then Num 0 else Error wrongtype"])
          (auto simp: run spec_hdel_def reply_simps split: option.splits content.splits)
    qed
  qed
qed

end

end
