(* ===== verification/Aof.thy ===== *)
theory Aof
  imports Protocol Store "HOL-Library.Sublist"
begin

text \<open>
  The append-only file, \<^verbatim>\<open>src/src/aof.rs\<close>: buffered appends with the three fsync
  policies, the rewrite that replaces the log by a dump of the store, and the reader
  that replays a log at startup. Files are byte strings; the outcome of every system
  call is taken from a stream in the state, so that each operation may fail at each
  of its calls. A write that fails may have written some bytes before.
\<close>

section \<open>Buffered file writer\<close>

text \<open>
  \<^verbatim>\<open>BufWriter<File>\<close>: \<open>pending\<close> is its buffer, \<open>out\<close> what the file holds, \<open>durable\<close> what the
  last \<^verbatim>\<open>sync_data\<close> put on the disk. The outcome \<open>Some n\<close> is a call that fails, for a
  write after \<open>n\<close> bytes.
\<close>

record bufw =
  cap :: nat
  pending :: bytes
  out :: bytes
  durable :: bytes
  outcomes :: "nat \<Rightarrow> nat option"

definition syscall :: "bufw \<Rightarrow> nat option \<times> bufw" where
  "syscall w = (outcomes w 0, w\<lparr>outcomes := (\<lambda>i. outcomes w (Suc i))\<rparr>)"

definition file_write :: "bufw \<Rightarrow> bytes \<Rightarrow> bool \<times> nat \<times> bufw" where
  "file_write w data =
     (let (outcome, w) = syscall w;
          n = (case outcome of None \<Rightarrow> length data | Some n \<Rightarrow> min n (length data - 1))
      in (outcome = None, n, w\<lparr>out := out w @ take n data\<rparr>))"

definition flush_buf :: "bufw \<Rightarrow> bool \<times> bufw" where
  "flush_buf w =
     (if pending w = [] then (True, w)
      else let (ok, n, w') = file_write w (pending w) in (ok, w'\<lparr>pending := drop n (pending w)\<rparr>))"

definition buf_write_all :: "bufw \<Rightarrow> bytes \<Rightarrow> bool \<times> bufw" where
  "buf_write_all w data =
     (if length data < cap w - length (pending w) then (True, w\<lparr>pending := pending w @ data\<rparr>)
      else
        let (ok, w) = (if length data > cap w - length (pending w) then flush_buf w else (True, w))
        in if \<not> ok then (False, w)
           else if length data \<ge> cap w then (let (ok, n, w) = file_write w data in (ok, w))
           else (True, w\<lparr>pending := pending w @ data\<rparr>))"

definition sync_data :: "bufw \<Rightarrow> bool \<times> bufw" where
  "sync_data w =
     (case syscall w of (None, w) \<Rightarrow> (True, w\<lparr>durable := out w\<rparr>) | (Some _, w) \<Rightarrow> (False, w))"

section \<open>The log\<close>

datatype fsync_policy = Always | EverySec | No

definition fsync_parse :: "string \<Rightarrow> string + fsync_policy" where
  "fsync_parse s =
     (let l = to_ascii_lowercase s in
      if l = ''always'' then Inr Always
      else if l = ''everysec'' then Inr EverySec
      else if l = ''no'' then Inr No
      else Inl (''invalid aof_fsync policy: '' @ [CHR 0x27] @ l @ [CHR 0x27]
                @ '' (expected always|everysec|no)''))"

definition fsync_as_str :: "fsync_policy \<Rightarrow> string" where
  "fsync_as_str p = (case p of Always \<Rightarrow> ''always'' | EverySec \<Rightarrow> ''everysec'' | No \<Rightarrow> ''no'')"

text \<open>
  \<^verbatim>\<open>replaced\<close> is the content of the file at the log's path when it is no longer the file
  behind \<open>inner\<close>: a rewrite whose reopen failed after its rename.
\<close>

record aof =
  inner :: bufw
  fsync :: fsync_policy
  dirty :: bool
  size_bytes :: u64
  last_rewrite_size :: u64
  rewrite_in_progress :: bool
  replaced :: "bytes option"

definition path_content :: "aof \<Rightarrow> bytes" where
  "path_content a = (case replaced a of None \<Rightarrow> out (inner a) | Some b \<Rightarrow> b)"

text \<open>Opening for append: \<open>file\<close> is the content of the file, empty if it was created.\<close>

definition aof_open :: "bytes \<Rightarrow> fsync_policy \<Rightarrow> (nat \<Rightarrow> nat option) \<Rightarrow> aof option" where
  "aof_open file policy io =
     (case io 0 of
        Some _ \<Rightarrow> None
      | None \<Rightarrow>
          Some \<lparr>inner = \<lparr>cap = 64 * 1024, pending = [], out = file, durable = file,
                  outcomes = (\<lambda>i. io (Suc i))\<rparr>,
                fsync = policy, dirty = False, size_bytes = of_nat (length file),
                last_rewrite_size = of_nat (length file), rewrite_in_progress = False, replaced = None\<rparr>)"

fun write_resp_parts :: "bufw \<Rightarrow> bytes list \<Rightarrow> nat \<Rightarrow> nat option \<times> bufw" where
  "write_resp_parts w [] written = (Some written, w)"
| "write_resp_parts w (part # parts) written =
     (let len_hdr = bs ''$'' @ dec (length part) @ CRLF;
          (ok, w) = buf_write_all w len_hdr
      in if \<not> ok then (None, w)
         else let (ok, w) = buf_write_all w part
              in if \<not> ok then (None, w)
                 else let (ok, w) = buf_write_all w CRLF
                      in if \<not> ok then (None, w)
                         else write_resp_parts w parts (written + length len_hdr + length part + 2))"

definition write_resp_array :: "bufw \<Rightarrow> bytes list \<Rightarrow> nat option \<times> bufw" where
  "write_resp_array w command =
     (let header = bs ''*'' @ dec (length command) @ CRLF;
          (ok, w) = buf_write_all w header
      in if \<not> ok then (None, w) else write_resp_parts w command (length header))"

definition aof_append :: "aof \<Rightarrow> bytes list \<Rightarrow> bool \<times> aof" where
  "aof_append a command =
     (case write_resp_array (inner a) command of
        (None, w) \<Rightarrow> (False, a\<lparr>inner := w\<rparr>)
      | (Some written, w) \<Rightarrow>
          (case fsync a of
             Always \<Rightarrow>
               (let (ok, w) = flush_buf w in
                if \<not> ok then (False, a\<lparr>inner := w\<rparr>)
                else let (ok, w) = sync_data w in
                  if \<not> ok then (False, a\<lparr>inner := w\<rparr>)
                  else (True, a\<lparr>inner := w, size_bytes := size_bytes a + of_nat written\<rparr>))
           | _ \<Rightarrow> (True, a\<lparr>inner := w, dirty := True, size_bytes := size_bytes a + of_nat written\<rparr>)))"

definition aof_sync :: "aof \<Rightarrow> bool \<times> aof" where
  "aof_sync a =
     (let (ok, w) = flush_buf (inner a) in
      if \<not> ok then (False, a\<lparr>inner := w\<rparr>)
      else let (ok, w) = sync_data w in
        if \<not> ok then (False, a\<lparr>inner := w\<rparr>)
        else (True, a\<lparr>inner := w, dirty := False\<rparr>))"

definition should_rewrite :: "aof \<Rightarrow> u64 \<Rightarrow> u64 \<Rightarrow> bool" where
  "should_rewrite a min_size_bytes percentage =
     (let sz = size_bytes a in
      if sz < min_size_bytes then False
      else let base = max (last_rewrite_size a) min_size_bytes;
               trigger = u64_saturating_add base (u64_saturating_mul base percentage div 100)
           in sz \<ge> trigger)"

section \<open>Rewrite\<close>

definition write_resp_array_raw :: "bufw \<Rightarrow> bytes list \<Rightarrow> nat option \<times> bufw" where
  "write_resp_array_raw w parts =
     (let header = bs ''*'' @ dec (length parts) @ CRLF;
          (ok, w) = buf_write_all w header
      in if \<not> ok then (None, w) else write_resp_parts w parts (length header))"

definition emit_set :: "bufw \<Rightarrow> bytes \<Rightarrow> bytes \<Rightarrow> nat option \<times> bufw" where
  "emit_set w key v = write_resp_array_raw w [bs ''SET'', key, v]"

definition emit_hset :: "bufw \<Rightarrow> bytes \<Rightarrow> (bytes \<times> bytes) list \<Rightarrow> nat option \<times> bufw" where
  "emit_hset w key pairs =
     write_resp_array_raw w ([bs ''HSET'', key] @ concat (map (\<lambda>(f, x). [f, x]) pairs))"

definition emit_expire :: "bufw \<Rightarrow> bytes \<Rightarrow> u64 \<Rightarrow> nat option \<times> bufw" where
  "emit_expire w key ttl_secs = write_resp_array_raw w [bs ''EXPIRE'', key, dec (unat ttl_secs)]"

text \<open>One entry of the dump: nothing for an expired key or an empty hash (\<open>Inr\<close> with no bytes).\<close>

definition dump_entry :: "bufw \<Rightarrow> u64 \<Rightarrow> bytes \<times> entry \<Rightarrow> (nat \<times> nat) option \<times> bufw" where
  "dump_entry w now = (\<lambda>(key, e).
     if expired now e then (Some (0, 0), w)
     else if val e = HashV [] then (Some (0, 0), w)
     else
       (case (case val e of StringV v \<Rightarrow> emit_set w key v | HashV h \<Rightarrow> emit_hset w key h) of
          (None, w) \<Rightarrow> (None, w)
        | (Some n, w) \<Rightarrow>
            (case expiry e of
               None \<Rightarrow> (Some (1, n), w)
             | Some x \<Rightarrow>
                 let remaining = u64_saturating_sub x now in
                 if remaining > 0 then
                   (case emit_expire w key remaining of
                      (None, w) \<Rightarrow> (None, w)
                    | (Some n', w) \<Rightarrow> (Some (1, n + n'), w))
                 else (Some (1, n), w))))"

fun dump_entries :: "bufw \<Rightarrow> u64 \<Rightarrow> (bytes \<times> entry) list \<Rightarrow> u64 \<Rightarrow> u64 \<Rightarrow> (u64 \<times> u64) option \<times> bufw" where
  "dump_entries w now [] ks bytes = (Some (ks, bytes), w)"
| "dump_entries w now (p # ps) ks bytes =
     (case dump_entry w now p of
        (None, w) \<Rightarrow> (None, w)
      | (Some (k, n), w) \<Rightarrow> dump_entries w now ps (ks + of_nat k) (bytes + of_nat n))"

definition write_store_snapshot ::
  "'m env \<Rightarrow> 'm db \<Rightarrow> u64 \<Rightarrow> (nat \<Rightarrow> nat option) \<Rightarrow> (u64 \<times> u64) option \<times> bufw" where
  "write_store_snapshot E s now io =
     (let w = \<lparr>cap = 256 * 1024, pending = [], out = [], durable = [], outcomes = io\<rparr>;
          (outcome, w) = syscall w
      in if outcome \<noteq> None then (None, w)
         else (case dump_entries w now (concat (map (dm_iter (dash E)) (shards s))) 0 0 of
             (None, w) \<Rightarrow> (None, w)
           | (Some stats, w) \<Rightarrow>
               let (ok, w) = flush_buf w in
               if \<not> ok then (None, w)
               else let (ok, w) = sync_data w in (if ok then Some stats else None, w)))"

record rewrite_stats =
  keys_written :: u64
  bytes_written :: u64
  previous_bytes :: u64

definition set_io :: "aof \<Rightarrow> (nat \<Rightarrow> nat option) \<Rightarrow> aof" where
  "set_io a io = a\<lparr>inner := (inner a)\<lparr>outcomes := io\<rparr>\<rparr>"

definition rewrite_inner :: "'m env \<Rightarrow> 'm db \<Rightarrow> aof \<Rightarrow> rewrite_stats option \<times> aof \<times> 'm db" where
  "rewrite_inner E s a =
     (let previous = size_bytes a;
          (now, s) = get_timestamp s;
          (stats, temp) = write_store_snapshot E s now (outcomes (inner a));
          a = set_io a (outcomes temp)
      in case stats of
           None \<Rightarrow> (None, a, s)
         | Some (ks, bytes) \<Rightarrow>
             let (ok, w) = flush_buf (inner a); a = a\<lparr>inner := w\<rparr> in
             if \<not> ok then (None, a, s)
             else let (renamed, w) = syscall (inner a); a = a\<lparr>inner := w\<rparr> in
               if renamed \<noteq> None then (None, a, s)
               else let (opened, w) = syscall (inner a); a = a\<lparr>inner := w, replaced := Some (out temp)\<rparr> in
                 if opened \<noteq> None then (None, a, s)
                 else (Some \<lparr>keys_written = ks, bytes_written = bytes, previous_bytes = previous\<rparr>,
                       a\<lparr>inner := \<lparr>cap = 64 * 1024, pending = [], out = out temp, durable = durable temp,
                           outcomes = outcomes w\<rparr>,
                         replaced := None, size_bytes := bytes, last_rewrite_size := bytes, dirty := False\<rparr>, s))"

text \<open>\<open>None\<close>: another rewrite is running; \<open>Some None\<close>: the rewrite failed.\<close>

definition aof_rewrite :: "'m env \<Rightarrow> 'm db \<Rightarrow> aof \<Rightarrow> rewrite_stats option option \<times> aof \<times> 'm db" where
  "aof_rewrite E s a =
     (if rewrite_in_progress a then (None, a, s)
      else let (result, a, s) = rewrite_inner E s (a\<lparr>rewrite_in_progress := True\<rparr>)
           in (Some result, a\<lparr>rewrite_in_progress := False\<rparr>, s))"

section \<open>Replay\<close>

fun read_until_lf :: "bytes \<Rightarrow> bytes \<times> bytes" where
  "read_until_lf [] = ([], [])"
| "read_until_lf (b # inp) =
     (if b = LF then ([b], inp) else let (line, rest) = read_until_lf inp in (b # line, rest))"

definition ends_with_crlf :: "bytes \<Rightarrow> bool" where
  "ends_with_crlf line \<longleftrightarrow> length line \<ge> 2 \<and> drop (length line - 2) line = CRLF"

text \<open>\<^verbatim>\<open>str::parse::<usize>\<close> after the UTF-8 check: an optional plus sign and decimal digits.\<close>

definition parse_num :: "bytes \<Rightarrow> nat option" where
  "parse_num bytes =
     map_option unat (parse_u64 (if length bytes > 1 \<and> hd bytes = 43 then tl bytes else bytes))"

datatype replay_item = Eof | Cmd "bytes list" | Malformed

definition header_line :: "u8 \<Rightarrow> bytes \<Rightarrow> nat option" where
  "header_line mark line =
     (if \<not> ends_with_crlf line then None
      else if line ! 0 \<noteq> mark then None
      else parse_num (take (length line - 3) (tl line)))"

fun next_parts :: "nat \<Rightarrow> bytes \<Rightarrow> bytes list \<Rightarrow> replay_item \<times> bytes" where
  "next_parts 0 inp parts = (Cmd parts, inp)"
| "next_parts (Suc n) inp parts =
     (let (line, inp) = read_until_lf inp in
      if line = [] then (Malformed, inp)
      else (case header_line 36 line of
          None \<Rightarrow> (Malformed, inp)
        | Some blen \<Rightarrow>
            if length inp < blen then (Malformed, inp)
            else let buf = take blen inp; inp = drop blen inp in
              if length inp < 2 then (Malformed, inp)
              else if take 2 inp \<noteq> CRLF then (Malformed, drop 2 inp)
              else next_parts n (drop 2 inp) (parts @ [buf])))"

definition next_command :: "bytes \<Rightarrow> replay_item \<times> bytes" where
  "next_command inp =
     (let (line, inp) = read_until_lf inp in
      if line = [] then (Eof, inp)
      else (case header_line 42 line of
          None \<Rightarrow> (Malformed, inp)
        | Some count \<Rightarrow> next_parts count inp []))"

section \<open>Reference notions\<close>

lemma write_resp_array_raw_eq: "write_resp_array_raw = write_resp_array"
  by (simp add: fun_eq_iff write_resp_array_raw_def write_resp_array_def)


text \<open>The log of a list of commands, and what a reader gets from a file.\<close>

definition log_of :: "bytes list list \<Rightarrow> bytes" where
  "log_of cmds = concat (map frame cmds)"

lemma read_until_lf_append: "fst (read_until_lf inp) @ snd (read_until_lf inp) = inp"
  by (induction inp) (simp_all add: case_prod_beta)

lemma next_parts_shrinks: "length (snd (next_parts n inp parts)) \<le> length inp"
proof (induction n arbitrary: inp parts)
  case (Suc n)
  have "length (snd (read_until_lf inp)) \<le> length inp"
    using arg_cong [OF read_until_lf_append [of inp], of length] by simp
  moreover have "length (snd (next_parts n (drop b (snd (read_until_lf inp))) ps)) \<le> length inp" for b ps
    using Suc.IH [of "drop b (snd (read_until_lf inp))" ps] calculation by simp
  ultimately show ?case by (auto simp: case_prod_beta Let_def split: option.split)
qed simp

lemma next_command_shrinks: "next_command inp = (Cmd c, rest) \<Longrightarrow> length rest < length inp"
proof -
  assume cmd: "next_command inp = (Cmd c, rest)"
  let ?line = "fst (read_until_lf inp)" and ?inp = "snd (read_until_lf inp)"
  have "?line \<noteq> []" using cmd by (auto simp: next_command_def case_prod_beta)
  then have "length ?inp < length inp"
    using arg_cong [OF read_until_lf_append [of inp], of length] by (cases ?line) simp_all
  moreover obtain n where "next_parts n ?inp [] = (Cmd c, rest)"
    using cmd by (auto simp: next_command_def case_prod_beta split: if_splits option.splits)
  then have "length rest \<le> length ?inp" using next_parts_shrinks [of n ?inp "[]"] by simp
  ultimately show ?thesis by simp
qed

function read_log :: "bytes \<Rightarrow> bytes list list \<times> bool" where
  "read_log inp =
     (case next_command inp of
        (Cmd c, rest) \<Rightarrow> (let (cs, clean) = read_log rest in (c # cs, clean))
      | (Eof, rest) \<Rightarrow> ([], True)
      | (Malformed, rest) \<Rightarrow> ([], False))"
  by pat_completeness auto
termination
  by (relation "measure length") (auto dest: next_command_shrinks [OF sym])

declare read_log.simps [simp del]

section \<open>Reading back\<close>

lemma read_until_lf_line: "LF \<notin> set line \<Longrightarrow> read_until_lf (line @ LF # rest) = (line @ [LF], rest)"
  by (induction line) auto

lemma read_until_lf_none: "LF \<notin> set inp \<Longrightarrow> read_until_lf inp = (inp, [])"
  by (induction inp) auto

declare read_until_lf.simps [simp del]

lemma LF_dec: "LF \<notin> set (dec n)"
  using dec_digits [of LF n] by auto

lemma parse_num_dec: "n < 2 ^ 64 \<Longrightarrow> parse_num (dec n) = Some n"
proof -
  assume n: "n < 2 ^ 64"
  have "hd (dec n) \<noteq> 43"
    using dec_digits [of "hd (dec n)" n] by (auto simp: is_ascii_digit_def)
  moreover have "parse_u64 (dec n) = Some (of_nat n)"
    using n by (simp add: parse_u64_Some dec_digits)
  ultimately show ?thesis using n by (simp add: parse_num_def)
qed

lemma read_header:
  assumes "n < 2 ^ 64" and "mark \<noteq> LF"
  shows "read_until_lf (mark # dec n @ CR # LF # rest) = (mark # dec n @ CRLF, rest)"
    and "header_line mark (mark # dec n @ CRLF) = Some n"
proof -
  have "LF \<notin> set (mark # dec n @ [CR])" using assms(2) LF_dec [of n] by auto
  from read_until_lf_line [OF this, of rest]
  show "read_until_lf (mark # dec n @ CR # LF # rest) = (mark # dec n @ CRLF, rest)" by simp
  show "header_line mark (mark # dec n @ CRLF) = Some n"
    using parse_num_dec [OF assms(1)] by (simp add: header_line_def ends_with_crlf_def)
qed

definition small_command :: "bytes list \<Rightarrow> bool" where
  "small_command c \<longleftrightarrow> length c < 2 ^ 64 \<and> (\<forall>x \<in> set c. length x < 2 ^ 64)"

lemma next_parts_bulks:
  assumes "\<forall>x \<in> set xs. length x < 2 ^ 64"
  shows "next_parts (length xs) (concat (map bulk xs) @ rest) parts = (Cmd (parts @ xs), rest)"
  using assms
proof (induction xs arbitrary: parts)
  case (Cons x xs)
  have "bulk x @ concat (map bulk xs) @ rest = 36 # dec (length x) @ CR # LF # (x @ CRLF @ concat (map bulk xs) @ rest)"
    by (simp add: bulk_def byte_simps)
  with Cons show ?case by (simp add: read_header)
qed simp

lemma next_command_frame:
  assumes "small_command c"
  shows "next_command (frame c @ rest) = (Cmd c, rest)"
proof -
  have "frame c @ rest = 42 # dec (length c) @ CR # LF # (concat (map bulk c) @ rest)"
    by (simp add: frame_def byte_simps)
  moreover have "length c < 2 ^ 64" "\<forall>x \<in> set c. length x < 2 ^ 64" using assms by (simp_all add: small_command_def)
  ultimately show ?thesis
    using next_parts_bulks [of c rest "[]"] by (simp add: next_command_def read_header)
qed

text \<open>A proper non-empty prefix of a frame is malformed.\<close>

lemma read_until_lf_prefix:
  assumes "n < length (mark # dec k @ CRLF)" and "mark \<noteq> LF"
  shows "read_until_lf (take n (mark # dec k @ CRLF)) = (take n (mark # dec k @ CRLF), [])"
    and "n > 0 \<Longrightarrow> header_line mark (take n (mark # dec k @ CRLF)) = None"
proof -
  let ?pre = "mark # dec k @ [CR]"
  have "mark # dec k @ CRLF = ?pre @ [LF]" by simp
  then have pre: "take n (mark # dec k @ CRLF) = take n ?pre"
    using assms(1) by (simp only: take_append) simp
  have LF: "LF \<notin> set (take n ?pre)"
    using assms(2) LF_dec [of k] set_take_subset [of n ?pre] by auto
  then show "read_until_lf (take n (mark # dec k @ CRLF)) = (take n (mark # dec k @ CRLF), [])"
    unfolding pre by (rule read_until_lf_none)
  have "\<not> ends_with_crlf line" if "LF \<notin> set line" for line
    using that in_set_dropD [of LF "length line - 2" line] by (auto simp: ends_with_crlf_def)
  with LF show "header_line mark (take n (mark # dec k @ CRLF)) = None" if "n > 0"
    by (simp only: pre header_line_def) simp
qed

lemma next_parts_prefix:
  assumes "\<forall>x \<in> set xs. length x < 2 ^ 64" and "n < length (concat (map bulk xs))"
  shows "fst (next_parts (length xs) (take n (concat (map bulk xs))) parts) = Malformed"
  using assms
proof (induction xs arbitrary: n parts)
  case (Cons x xs)
  let ?h = "36 # dec (length x) @ CRLF"
  have b: "bulk x = ?h @ x @ CRLF" by (simp add: bulk_def byte_simps)
  have len: "length x < 2 ^ 64" using Cons.prems(1) by simp
  show ?case
  proof (cases "n < length ?h")
    case True
    then have "take n (concat (map bulk (x # xs))) = take n ?h"
      by (simp only: b list.map concat.simps append_assoc take_append) simp
    then show ?thesis
      using read_until_lf_prefix [OF True] by (cases "n = 0") (simp_all add: read_until_lf.simps(1))
  next
    case False
    then obtain m where n: "n = length ?h + m" using le_Suc_ex by (metis not_less)
    let ?rest = "take m (x @ CRLF @ concat (map bulk xs))"
    have inp: "take n (concat (map bulk (x # xs))) = 36 # dec (length x) @ CR # LF # ?rest"
      by (simp add: b n)
    show ?thesis
    proof (cases "m < length x + 2")
      case True
      then show ?thesis
        unfolding inp by (simp add: read_header [OF len] Let_def)
    next
      case False
      then obtain j where m: "m = length x + 2 + j" using le_Suc_ex by (metis not_less)
      have "j < length (concat (map bulk xs))" using Cons.prems(2) n m by (simp add: b)
      from Cons.IH [OF _ this, of "parts @ [x]"] Cons.prems(1)
      show ?thesis unfolding inp by (simp add: read_header [OF len] Let_def m)
    qed
  qed
qed simp

lemma next_command_prefix:
  assumes "small_command c" and "0 < n" and "n < length (frame c)"
  shows "fst (next_command (take n (frame c))) = Malformed"
proof -
  let ?h = "42 # dec (length c) @ CRLF"
  have f: "frame c = ?h @ concat (map bulk c)" by (simp add: frame_def byte_simps)
  have len: "length c < 2 ^ 64" "\<forall>x \<in> set c. length x < 2 ^ 64" using assms(1) by (simp_all add: small_command_def)
  show ?thesis
  proof (cases "n < length ?h")
    case True
    then have "take n (frame c) = take n ?h" by (simp only: f take_append) simp
    then show ?thesis using read_until_lf_prefix [OF True] assms(2) by (simp add: next_command_def)
  next
    case False
    then obtain m where n: "n = length ?h + m" using le_Suc_ex by (metis not_less)
    have "take n (frame c) = 42 # dec (length c) @ CR # LF # take m (concat (map bulk c))" by (simp add: f n)
    moreover have "m < length (concat (map bulk c))" using assms(3) n by (simp add: f)
    ultimately show ?thesis
      using next_parts_prefix [OF len(2), of m "[]"] by (simp add: next_command_def read_header [OF len(1)])
  qed
qed

lemma read_log_Nil [simp]: "read_log [] = ([], True)"
  by (subst read_log.simps) (simp add: next_command_def read_until_lf.simps(1))

lemma read_log_frame:
  "small_command c \<Longrightarrow> read_log (frame c @ rest) = (c # fst (read_log rest), snd (read_log rest))"
  by (subst read_log.simps) (simp add: next_command_frame case_prod_beta)

lemma log_of_simps [simp]: "log_of [] = []" "log_of (c # cs) = frame c @ log_of cs" "log_of (cs @ ds) = log_of cs @ log_of ds"
  by (simp_all add: log_of_def)

lemma read_log_of: "\<forall>c \<in> set cs. small_command c \<Longrightarrow> read_log (log_of cs) = (cs, True)"
  by (induction cs) (simp_all add: read_log_frame)

text \<open>Reading any prefix of a log.\<close>

lemma read_log_prefix:
  assumes "\<forall>c \<in> set cs. small_command c" and "n \<le> length (log_of cs)"
  shows "\<exists>j \<le> length cs. fst (read_log (take n (log_of cs))) = take j cs
    \<and> length (log_of (take j cs)) \<le> n \<and> (j < length cs \<longrightarrow> n < length (log_of (take (Suc j) cs)))
    \<and> (snd (read_log (take n (log_of cs))) \<longleftrightarrow> n = length (log_of (take j cs)))"
  using assms
proof (induction cs arbitrary: n)
  case (Cons c cs)
  have small: "small_command c" using Cons.prems by simp
  show ?case
  proof (cases "n < length (frame c)")
    case True
    have "read_log (take n (frame c)) = ([], n = 0)"
    proof (cases "n = 0")
      case False
      then have "fst (next_command (take n (frame c))) = Malformed"
        using next_command_prefix [OF small] True by simp
      then show ?thesis using False by (subst read_log.simps) (simp add: case_prod_beta)
    qed simp
    with True show ?thesis by (intro exI [of _ 0]) simp
  next
    case False
    then obtain m where n: "n = length (frame c) + m" using le_Suc_ex by (metis not_less)
    have "m \<le> length (log_of cs)" using Cons.prems n by simp
    with Cons obtain j where j: "j \<le> length cs" "fst (read_log (take m (log_of cs))) = take j cs"
      "length (log_of (take j cs)) \<le> m" "j < length cs \<longrightarrow> m < length (log_of (take (Suc j) cs))"
      "snd (read_log (take m (log_of cs))) \<longleftrightarrow> m = length (log_of (take j cs))" by auto
    then show ?thesis by (intro exI [of _ "Suc j"]) (simp add: n read_log_frame [OF small])
  qed
qed simp

section \<open>Buffered writes\<close>

text \<open>The bytes a writer has accepted, wherever they are.\<close>

definition stream :: "bufw \<Rightarrow> bytes" where
  "stream w = out w @ pending w"

text \<open>
  \<open>wrote w w' data n\<close>: the step from \<open>w\<close> to \<open>w'\<close> accepted the first \<open>n\<close> bytes of \<open>data\<close>; the
  file only grew and nothing was synced.
\<close>

definition wrote :: "bufw \<Rightarrow> bufw \<Rightarrow> bytes \<Rightarrow> nat \<Rightarrow> bool" where
  "wrote w w' data n \<longleftrightarrow> stream w' = stream w @ take n data \<and> prefix (out w) (out w')
     \<and> durable w' = durable w \<and> cap w' = cap w"

lemma wrote_refl [simp]: "wrote w w data 0"
  by (simp add: wrote_def)

lemma wrote_trans:
  "wrote w w' a (length a) \<Longrightarrow> wrote w' w'' b n \<Longrightarrow> wrote w w'' (a @ b) (length a + n)"
  by (auto simp: wrote_def intro: prefix_order.trans)

lemma wrote_append: "wrote w w' a n \<Longrightarrow> n \<le> length a \<Longrightarrow> wrote w w' (a @ b) n"
  by (simp add: wrote_def)

lemma wrote_all: "wrote w w' a (length a) \<longleftrightarrow> stream w' = stream w @ a \<and> prefix (out w) (out w')
     \<and> durable w' = durable w \<and> cap w' = cap w"
  by (simp add: wrote_def)

lemma file_write_effect:
  "\<exists>n \<le> length data. fst (snd (file_write w data)) = n \<and> (fst (file_write w data) \<longrightarrow> n = length data)
    \<and> out (snd (snd (file_write w data))) = out w @ take n data
    \<and> pending (snd (snd (file_write w data))) = pending w
    \<and> durable (snd (snd (file_write w data))) = durable w \<and> cap (snd (snd (file_write w data))) = cap w"
  by (auto simp: file_write_def syscall_def Let_def split: option.split)

lemma flush_buf_effect:
  "wrote w (snd (flush_buf w)) [] 0 \<and> (fst (flush_buf w) \<longrightarrow> pending (snd (flush_buf w)) = [])"
  using file_write_effect [of "pending w" w]
  by (auto simp: flush_buf_def wrote_def stream_def case_prod_beta)

lemma buf_write_all_effect:
  assumes "0 < cap w"
  shows "\<exists>n \<le> length data. wrote w (snd (buf_write_all w data)) data n \<and> (fst (buf_write_all w data) \<longrightarrow> n = length data)"
proof (cases "length data < cap w - length (pending w)")
  case True
  then show ?thesis by (simp add: buf_write_all_def wrote_def stream_def)
next
  case big: False
  define p where "p = (if length data > cap w - length (pending w) then flush_buf w else (True, w))"
  have w1: "wrote w (snd p) [] 0" and empty: "fst p \<Longrightarrow> length data \<ge> cap w \<Longrightarrow> pending (snd p) = []"
    using assms big flush_buf_effect [of w] by (cases "pending w"; auto simp: p_def split: if_splits)+
  have run: "buf_write_all w data = (if \<not> fst p then (False, snd p)
      else if length data \<ge> cap (snd p) then (fst (file_write (snd p) data), snd (snd (file_write (snd p) data)))
      else (True, (snd p)\<lparr>pending := pending (snd p) @ data\<rparr>))"
    using big by (simp add: buf_write_all_def p_def case_prod_beta Let_def)
  have cap: "cap (snd p) = cap w" using w1 by (simp add: wrote_def)
  show ?thesis
  proof (cases "fst p \<and> cap w \<le> length data")
    case True
    obtain n where "n \<le> length data" "fst (file_write (snd p) data) \<longrightarrow> n = length data"
      "out (snd (snd (file_write (snd p) data))) = out (snd p) @ take n data"
      "pending (snd (snd (file_write (snd p) data))) = []"
      "durable (snd (snd (file_write (snd p) data))) = durable (snd p)"
      "cap (snd (snd (file_write (snd p) data))) = cap (snd p)"
      using file_write_effect [of data "snd p"] empty True by auto
    then show ?thesis
      using True run cap w1 empty by (intro exI [of _ n]) (auto simp: wrote_def stream_def intro: prefix_order.trans)
  next
    case False
    with w1 cap show ?thesis
      by (cases "fst p") (auto simp: run wrote_def stream_def)
  qed
qed

text \<open>A frame is written piece by piece, up to the first failure.\<close>

fun write_pieces :: "bufw \<Rightarrow> bytes list \<Rightarrow> bool \<times> bufw" where
  "write_pieces w [] = (True, w)"
| "write_pieces w (p # ps) =
     (let (ok, w) = buf_write_all w p in if ok then write_pieces w ps else (False, w))"

definition bulk_pieces :: "bytes \<Rightarrow> bytes list" where
  "bulk_pieces x = [bs ''$'' @ dec (length x) @ CRLF, x, CRLF]"

lemma write_pieces_effect:
  assumes "0 < cap w"
  shows "\<exists>n \<le> length (concat ps). wrote w (snd (write_pieces w ps)) (concat ps) n
    \<and> (fst (write_pieces w ps) \<longrightarrow> n = length (concat ps))"
  using assms
proof (induction ps arbitrary: w)
  case (Cons p ps)
  obtain ok w1 where r: "buf_write_all w p = (ok, w1)" by (cases "buf_write_all w p")
  obtain n1 where n1: "n1 \<le> length p" "wrote w w1 p n1" "ok \<longrightarrow> n1 = length p"
    using buf_write_all_effect [OF Cons.prems, of p] r by auto
  then have c1: "0 < cap w1" using Cons.prems by (simp add: wrote_def)
  show ?case
  proof (cases ok)
    case True
    obtain n where n: "n \<le> length (concat ps)" "wrote w1 (snd (write_pieces w1 ps)) (concat ps) n"
      "fst (write_pieces w1 ps) \<longrightarrow> n = length (concat ps)" using Cons.IH [OF c1] by auto
    have "wrote w (snd (write_pieces w1 ps)) (p @ concat ps) (length p + n)"
      using wrote_trans n n1 True by blast
    then show ?thesis using n True r by (intro exI [of _ "length p + n"]) simp
  next
    case False
    then show ?thesis using n1 wrote_append [OF n1(2,1), of "concat ps"] r by (intro exI [of _ n1]) simp
  qed
qed simp

lemma concat_bulk_pieces: "concat (concat (map bulk_pieces xs)) = concat (map bulk xs)"
  by (induction xs) (simp_all add: bulk_pieces_def bulk_def)

lemma write_resp_parts_pieces:
  "write_resp_parts w parts k =
    (if fst (write_pieces w (concat (map bulk_pieces parts))) then Some (k + length (concat (map bulk parts))) else None,
     snd (write_pieces w (concat (map bulk_pieces parts))))"
  by (induction parts arbitrary: w k) (simp_all add: bulk_pieces_def bulk_def Let_def case_prod_beta)

lemma write_resp_array_effect:
  assumes "0 < cap w"
  shows "\<exists>n \<le> length (frame c). wrote w (snd (write_resp_array w c)) (frame c) n
    \<and> (fst (write_resp_array w c) = Some (length (frame c)) \<and> n = length (frame c) \<or> fst (write_resp_array w c) = None)"
proof -
  let ?h = "bs ''*'' @ dec (length c) @ CRLF"
  let ?ps = "?h # concat (map bulk_pieces c)"
  have f: "frame c = concat ?ps" by (simp add: frame_def concat_bulk_pieces)
  have "write_resp_array w c =
      (if fst (write_pieces w ?ps) then Some (length (frame c)) else None, snd (write_pieces w ?ps))"
    by (simp add: write_resp_array_def write_resp_parts_pieces f concat_bulk_pieces Let_def case_prod_beta)
  with write_pieces_effect [OF assms, of ?ps] show ?thesis by (auto simp: f)
qed

section \<open>Durability\<close>

lemma sync_data_effect:
  "pending (snd (sync_data w)) = pending w \<and> out (snd (sync_data w)) = out w \<and> cap (snd (sync_data w)) = cap w
    \<and> durable (snd (sync_data w)) = (if fst (sync_data w) then out w else durable w)"
  by (auto simp: sync_data_def syscall_def split: option.split)

text \<open>
  \<open>aof_run p a cs ss\<close>: a log opened on the file of some commands, then appended to and
  synced. \<open>cs\<close> are the commands whose append was acknowledged, in order, and \<open>ss\<close> those
  that the fsync policy promises to keep. Syncs may fail.
\<close>

inductive aof_run :: "fsync_policy \<Rightarrow> aof \<Rightarrow> bytes list list \<Rightarrow> bytes list list \<Rightarrow> bool" for p where
  opened: "aof_open (log_of cs) p io = Some a \<Longrightarrow> \<forall>c \<in> set cs. small_command c \<Longrightarrow> aof_run p a cs cs"
| append: "aof_run p a cs ss \<Longrightarrow> small_command c \<Longrightarrow> aof_append a c = (True, a') \<Longrightarrow>
    aof_run p a' (cs @ [c]) (if p = Always then cs @ [c] else ss)"
| sync: "aof_run p a cs ss \<Longrightarrow> aof_sync a = (ok, a') \<Longrightarrow> aof_run p a' cs (if ok then cs else ss)"

definition log_inv :: "fsync_policy \<Rightarrow> aof \<Rightarrow> bytes list list \<Rightarrow> bytes list list \<Rightarrow> bool" where
  "log_inv p a cs ss \<longleftrightarrow> fsync a = p \<and> 0 < cap (inner a) \<and> stream (inner a) = log_of cs
     \<and> prefix (durable (inner a)) (out (inner a)) \<and> prefix (log_of ss) (durable (inner a))
     \<and> prefix ss cs \<and> (\<forall>c \<in> set cs. small_command c)"

lemma log_inv_append:
  assumes "log_inv p a cs ss" and "small_command c" and "aof_append a c = (True, a')"
  shows "log_inv p a' (cs @ [c]) (if p = Always then cs @ [c] else ss)"
proof -
  have cap: "0 < cap (inner a)" using assms(1) by (simp add: log_inv_def)
  obtain t w where w: "write_resp_array (inner a) c = (Some t, w)"
    using assms(3) by (auto simp: aof_append_def split: prod.splits option.splits)
  have wr: "wrote (inner a) w (frame c) (length (frame c))"
    using write_resp_array_effect [OF cap, of c] w by auto
  show ?thesis
  proof (cases "fsync a = Always")
    case False
    then have "inner a' = w" "fsync a' = fsync a"
      using assms(3) w by (auto simp: aof_append_def split: fsync_policy.splits)
    then show ?thesis
      using assms(1,2) wr False by (auto simp: log_inv_def wrote_def intro: prefix_order.trans)
  next
    case True
    let ?w1 = "snd (flush_buf w)"
    have flushed: "fst (flush_buf w)" "fst (sync_data ?w1)" "inner a' = snd (sync_data ?w1)" "fsync a' = fsync a"
      using assms(3) w True by (auto simp: aof_append_def case_prod_beta split: if_splits)
    have "wrote w ?w1 [] 0" "pending ?w1 = []" using flush_buf_effect [of w] flushed by auto
    then have "out ?w1 = log_of (cs @ [c])" "cap ?w1 = cap (inner a)"
      using wr assms(1) by (simp_all add: wrote_def log_inv_def stream_def)
    then show ?thesis
      using assms(1,2) flushed sync_data_effect [of ?w1] True \<open>pending ?w1 = []\<close>
      by (simp add: log_inv_def stream_def)
  qed
qed

lemma log_inv_sync:
  assumes "log_inv p a cs ss" and "aof_sync a = (ok, a')"
  shows "log_inv p a' cs (if ok then cs else ss)"
proof -
  let ?w = "snd (flush_buf (inner a))"
  have w: "wrote (inner a) ?w [] 0" "fst (flush_buf (inner a)) \<longrightarrow> pending ?w = []"
    using flush_buf_effect [of "inner a"] by auto
  show ?thesis
  proof (cases "fst (flush_buf (inner a))")
    case False
    then show ?thesis
      using assms w by (auto simp: aof_sync_def case_prod_beta log_inv_def wrote_def intro: prefix_order.trans)
  next
    case True
    then have a': "inner a' = snd (sync_data ?w)" "ok = fst (sync_data ?w)" "fsync a' = fsync a"
      using assms(2) by (auto simp: aof_sync_def case_prod_beta split: if_splits)
    have "out ?w = log_of cs" using w True assms(1) by (simp add: wrote_def log_inv_def stream_def)
    then show ?thesis
      using assms(1) w a' sync_data_effect [of ?w]
      by (auto simp: log_inv_def wrote_def stream_def intro: prefix_order.trans)
  qed
qed

lemma aof_run_inv: "aof_run p a cs ss \<Longrightarrow> log_inv p a cs ss"
proof (induction rule: aof_run.induct)
  case (opened cs io a)
  then show ?case by (auto simp: log_inv_def aof_open_def stream_def split: option.splits)
next
  case (append a cs ss c a')
  then show ?case by (blast intro: log_inv_append)
next
  case (sync a cs ss ok a')
  then show ?case by (blast intro: log_inv_sync)
qed

lemma length_log_of_mono: "prefix xs ys \<Longrightarrow> length (log_of xs) \<le> length (log_of ys)"
  by (auto simp: prefix_def)

section \<open>The dump written by a rewrite\<close>

definition entry_commands :: "u64 \<Rightarrow> bytes \<times> entry \<Rightarrow> bytes list list" where
  "entry_commands now = (\<lambda>(key, e).
     if expired now e \<or> val e = HashV [] then []
     else (case val e of
             StringV v \<Rightarrow> [bs ''SET'', key, v]
           | HashV h \<Rightarrow> [bs ''HSET'', key] @ concat (map (\<lambda>(f, x). [f, x]) h))
          # (case expiry e of None \<Rightarrow> [] | Some x \<Rightarrow> [[bs ''EXPIRE'', key, dec (unat (x - now))]]))"

definition dump_commands :: "'m env \<Rightarrow> 'm db \<Rightarrow> u64 \<Rightarrow> bytes list list" where
  "dump_commands E s now = concat (map (entry_commands now) (concat (map (dm_iter (dash E)) (shards s))))"

lemma write_resp_array_Some:
  assumes "0 < cap w" and "write_resp_array w c = (Some n, w')"
  shows "wrote w w' (frame c) (length (frame c))" and "n = length (frame c)" and "0 < cap w'"
  using write_resp_array_effect [OF assms(1), of c] assms by (auto simp: wrote_def)

lemma dump_entry_Some:
  assumes "0 < cap w" and "dump_entry w now p = (Some (k, n), w')"
  shows "wrote w w' (log_of (entry_commands now p)) (length (log_of (entry_commands now p)))
    \<and> n = length (log_of (entry_commands now p)) \<and> k = (if entry_commands now p = [] then 0 else 1)"
proof -
  obtain key e where p: "p = (key, e)" by (cases p)
  show ?thesis
  proof (cases "expired now e \<or> val e = HashV []")
    case True
    then have "dump_entry w now p = (Some (0, 0), w)" by (auto simp: dump_entry_def p)
    then show ?thesis using True assms(2) by (auto simp: p entry_commands_def)
  next
    case False
    define c where "c = (case val e of
             StringV v \<Rightarrow> [bs ''SET'', key, v]
           | HashV h \<Rightarrow> [bs ''HSET'', key] @ concat (map (\<lambda>(f, x). [f, x]) h))"
    have first: "(case val e of StringV v \<Rightarrow> emit_set w key v | HashV h \<Rightarrow> emit_hset w key h) = write_resp_array w c"
      by (simp add: c_def emit_set_def emit_hset_def write_resp_array_raw_eq split: entry_value.split)
    obtain n1 w1 where w1: "write_resp_array w c = (Some n1, w1)"
      using assms(2) False by (auto simp: dump_entry_def p first split: prod.splits option.splits)
    note wr1 = write_resp_array_Some [OF assms(1) w1]
    show ?thesis
    proof (cases "expiry e")
      case None
      then show ?thesis
        using assms(2) False wr1 by (auto simp: dump_entry_def p first w1 entry_commands_def c_def [symmetric])
    next
      case (Some x)
      let ?d = "[bs ''EXPIRE'', key, dec (unat (x - now))]"
      have x: "now < x" using False Some by (auto simp: expired_def)
      then have rem: "u64_saturating_sub x now = x - now" "x - now > 0"
        by (auto simp: u64_saturating_sub_def word_gt_0)
      obtain n2 where w2: "write_resp_array w1 ?d = (Some n2, w')" and n: "n = n1 + n2" "k = 1"
        using assms(2) False rem Some
        by (auto simp: dump_entry_def p first w1 emit_expire_def write_resp_array_raw_eq split: prod.splits option.splits)
      note wr2 = write_resp_array_Some [OF wr1(3) w2]
      show ?thesis
        using wrote_trans [OF wr1(1) wr2(1)] wr1(2) wr2(2) n False Some
        by (simp add: p entry_commands_def c_def [symmetric])
    qed
  qed
qed

lemma dump_entries_Some:
  assumes "0 < cap w" and "dump_entries w now ps ks n = (Some (ks', n'), w')"
  shows "wrote w w' (log_of (concat (map (entry_commands now) ps))) (length (log_of (concat (map (entry_commands now) ps))))
    \<and> n' = n + of_nat (length (log_of (concat (map (entry_commands now) ps))))
    \<and> ks' = ks + of_nat (length (filter (\<lambda>p. entry_commands now p \<noteq> []) ps))"
  using assms
proof (induction ps arbitrary: w ks n)
  case (Cons p ps)
  obtain k m w1 where w1: "dump_entry w now p = (Some (k, m), w1)"
    using Cons.prems(2) by (auto split: prod.splits option.splits)
  note e = dump_entry_Some [OF Cons.prems(1) w1]
  have "dump_entries w1 now ps (ks + of_nat k) (n + of_nat m) = (Some (ks', n'), w')"
    using Cons.prems(2) w1 by simp
  moreover have "0 < cap w1" using e Cons.prems(1) by (simp add: wrote_def)
  ultimately show ?case
    using Cons.IH [of w1 "ks + of_nat k" "n + of_nat m"] e
      wrote_trans [of w w1 "log_of (entry_commands now p)" w' "log_of (concat (map (entry_commands now) ps))"
        "length (log_of (concat (map (entry_commands now) ps)))"]
    by auto
qed simp

lemma write_store_snapshot_Some:
  assumes "write_store_snapshot E s now io = (Some (ks, n), w)"
  shows "out w = log_of (dump_commands E s now)" and "durable w = out w"
    and "n = of_nat (length (log_of (dump_commands E s now)))"
proof -
  let ?w0 = "\<lparr>cap = 262144, pending = [], out = [], durable = [], outcomes = (\<lambda>i. io (Suc i))\<rparr> :: bufw"
  obtain w1 where d: "dump_entries ?w0 now (concat (map (dm_iter (dash E)) (shards s))) 0 0 = (Some (ks, n), w1)"
    and f: "fst (flush_buf w1)" "fst (sync_data (snd (flush_buf w1)))" "w = snd (sync_data (snd (flush_buf w1)))"
    using assms
    by (auto simp: write_store_snapshot_def syscall_def case_prod_beta Let_def split: prod.splits option.splits if_splits)
  have "wrote ?w0 w1 (log_of (dump_commands E s now)) (length (log_of (dump_commands E s now)))
    \<and> n = of_nat (length (log_of (dump_commands E s now)))"
    using dump_entries_Some [OF _ d] by (simp add: dump_commands_def)
  moreover have "wrote w1 (snd (flush_buf w1)) [] 0" "pending (snd (flush_buf w1)) = []"
    using flush_buf_effect [of w1] f(1) by auto
  ultimately have "out (snd (flush_buf w1)) = log_of (dump_commands E s now)"
    "n = of_nat (length (log_of (dump_commands E s now)))"
    by (auto simp: wrote_def stream_def)
  then show "out w = log_of (dump_commands E s now)" "durable w = out w"
    "n = of_nat (length (log_of (dump_commands E s now)))"
    using sync_data_effect [of "snd (flush_buf w1)"] f by simp_all
qed

lemma replaced_append: "replaced (snd (aof_append a c)) = replaced a"
  by (auto simp: aof_append_def case_prod_beta Let_def split: prod.split option.split fsync_policy.split)

lemma rewrite_inner_effect:
  assumes run: "rewrite_inner E s a = (r, a', s')" and "replaced a = None"
  shows "same_entries s s' \<and> (case r of
      Some st \<Rightarrow> replaced a' = None \<and> out (inner a') = log_of (dump_commands E s (clock s 0))
        \<and> durable (inner a') = out (inner a') \<and> pending (inner a') = []
        \<and> size_bytes a' = of_nat (length (out (inner a'))) \<and> last_rewrite_size a' = size_bytes a'
        \<and> bytes_written st = size_bytes a'
    | None \<Rightarrow> stream (inner a') = stream (inner a)
        \<and> (replaced a' = None \<or> replaced a' = Some (log_of (dump_commands E s (clock s 0)))))"
proof -
  let ?s = "s\<lparr>clock := (\<lambda>i. clock s (Suc i))\<rparr>"
  obtain stats temp where ws: "write_store_snapshot E ?s (clock s 0) (outcomes (inner a)) = (stats, temp)"
    by (cases "write_store_snapshot E ?s (clock s 0) (outcomes (inner a))")
  have dump: "dump_commands E ?s = dump_commands E s" by (simp add: dump_commands_def fun_eq_iff)
  define w where "w = (inner a)\<lparr>outcomes := outcomes temp\<rparr>"
  have w: "stream w = stream (inner a)" by (simp add: w_def stream_def)
  have fl: "stream (snd (flush_buf w)) = stream (inner a)"
    using flush_buf_effect [of w] w by (simp add: wrote_def)
  show ?thesis
  proof (cases stats)
    case None
    then show ?thesis
      using run ws assms(2) w by (auto simp: rewrite_inner_def get_timestamp_def set_io_def w_def same_entries_def)
  next
    case (Some st)
    obtain ks n where st: "st = (ks, n)" by (cases st)
    note dumped = write_store_snapshot_Some [OF ws [unfolded Some st], unfolded dump]
    show ?thesis
      using run ws Some st assms(2) dumped fl
      by (auto simp: rewrite_inner_def get_timestamp_def set_io_def w_def [symmetric] same_entries_def syscall_def
          stream_def case_prod_beta Let_def split: if_splits)
  qed
qed

text \<open>On a disk that never fails every operation succeeds.\<close>

definition reliable :: "bufw \<Rightarrow> bool" where
  "reliable w \<longleftrightarrow> outcomes w = (\<lambda>_. None)"

lemma reliable_update [simp]:
  "reliable (w\<lparr>pending := x\<rparr>) = reliable w" "reliable (w\<lparr>out := x\<rparr>) = reliable w" "reliable (w\<lparr>durable := x\<rparr>) = reliable w"
  by (simp_all add: reliable_def)

lemma reliable_syscall [simp]: "reliable w \<Longrightarrow> syscall w = (None, w)"
  by (cases w) (simp add: syscall_def reliable_def)

lemma reliable_file_write [simp]: "reliable w \<Longrightarrow> file_write w data = (True, length data, w\<lparr>out := out w @ data\<rparr>)"
  by (simp add: file_write_def)

lemma reliable_flush: "reliable w \<Longrightarrow> fst (flush_buf w) \<and> reliable (snd (flush_buf w))"
  by (simp add: flush_buf_def)

lemma reliable_write_all: "reliable w \<Longrightarrow> fst (buf_write_all w data) \<and> reliable (snd (buf_write_all w data))"
  using reliable_flush [of w] by (simp add: buf_write_all_def case_prod_beta Let_def)

lemma reliable_sync: "reliable w \<Longrightarrow> fst (sync_data w) \<and> reliable (snd (sync_data w))"
  by (simp add: sync_data_def)

lemma reliable_pieces: "reliable w \<Longrightarrow> fst (write_pieces w ps) \<and> reliable (snd (write_pieces w ps))"
  by (induction ps arbitrary: w) (simp_all add: case_prod_beta reliable_write_all)

lemma reliable_write_array: "reliable w \<Longrightarrow> \<exists>n w'. write_resp_array w c = (Some n, w') \<and> reliable w'"
  using reliable_write_all [of w "bs ''*'' @ dec (length c) @ CRLF"]
    reliable_pieces [of "snd (buf_write_all w (bs ''*'' @ dec (length c) @ CRLF))" "concat (map bulk_pieces c)"]
  by (simp add: write_resp_array_def write_resp_parts_pieces case_prod_beta Let_def)

lemma reliable_dump_entry:
  assumes w: "reliable w"
  shows "\<exists>k n w'. dump_entry w now p = (Some (k, n), w') \<and> reliable w'"
proof -
  obtain key e where p: "p = (key, e)" by (cases p)
  obtain c where c: "(case val e of StringV v \<Rightarrow> emit_set w key v | HashV h \<Rightarrow> emit_hset w key h) = write_resp_array w c"
    by (cases "val e") (auto simp: emit_set_def emit_hset_def write_resp_array_raw_eq)
  obtain n w1 where w1: "write_resp_array w c = (Some n, w1)" "reliable w1" using reliable_write_array [OF w] by blast
  have "\<exists>n' w2. emit_expire w1 key t = (Some n', w2) \<and> reliable w2" for t
    unfolding emit_expire_def write_resp_array_raw_eq by (rule reliable_write_array [OF w1(2)])
  then obtain m w2 where w2: "\<And>t. emit_expire w1 key t = (Some (m t), w2 t)" "\<And>t. reliable (w2 t)" by metis
  show ?thesis
    using w w1 w2 by (auto simp: dump_entry_def p c Let_def split: option.split)
qed

lemma reliable_dump_entries:
  "reliable w \<Longrightarrow> \<exists>r w'. dump_entries w now ps ks n = (Some r, w') \<and> reliable w'"
proof (induction ps arbitrary: w ks n)
  case (Cons p ps)
  obtain k m w1 where w1: "dump_entry w now p = (Some (k, m), w1)" "reliable w1"
    using reliable_dump_entry [OF Cons.prems] by blast
  with Cons.IH [OF w1(2)] show ?case by simp
qed simp

lemma reliable_store_snapshot:
  "\<exists>r w. write_store_snapshot E s now (\<lambda>_. None) = (Some r, w) \<and> reliable w"
proof -
  let ?w = "\<lparr>cap = 262144, pending = [], out = [], durable = [], outcomes = (\<lambda>_. None)\<rparr> :: bufw"
  have w: "reliable ?w" by (simp add: reliable_def)
  obtain r w1 where w1: "dump_entries ?w now (concat (map (dm_iter (dash E)) (shards s))) 0 0 = (Some r, w1)" "reliable w1"
    using reliable_dump_entries [OF w] by blast
  have f: "fst (flush_buf w1)" "reliable (snd (flush_buf w1))" using reliable_flush [OF w1(2)] by auto
  show ?thesis
    using w w1 f reliable_sync [OF f(2)] by (simp add: write_store_snapshot_def case_prod_beta Let_def)
qed

lemma aof_rewrite_reliable:
  assumes "reliable (inner a)" and "\<not> rewrite_in_progress a"
  shows "\<exists>st a' s'. aof_rewrite E s a = (Some (Some st), a', s')"
proof -
  have io: "outcomes (inner a) = (\<lambda>_. None)" using assms(1) by (simp add: reliable_def)
  let ?s = "s\<lparr>clock := (\<lambda>i. clock s (Suc i))\<rparr>"
  obtain r w where w: "write_store_snapshot E ?s (clock s 0) (\<lambda>_. None) = (Some r, w)" "reliable w"
    using reliable_store_snapshot by blast
  have r: "reliable ((inner a)\<lparr>outcomes := outcomes w\<rparr>)" using w(2) by (simp add: reliable_def)
  obtain ks n where "r = (ks, n)" by (cases r)
  then show ?thesis
    using assms(2) io w reliable_flush [OF r]
    by (simp add: aof_rewrite_def rewrite_inner_def get_timestamp_def set_io_def case_prod_beta Let_def)
qed

section \<open>Properties\<close>

text \<open>A log on a disk that never fails, after one command under each policy, for the concrete instances.\<close>

definition demo_aof :: "fsync_policy \<Rightarrow> aof" where
  "demo_aof p = the (aof_open [] p (\<lambda>_. None))"

definition demo_append :: "fsync_policy \<Rightarrow> aof" where
  "demo_append p = snd (aof_append (demo_aof p) [[80]])"

lemma dec_digit: "n < 10 \<Longrightarrow> dec n = [48 + of_nat n]"
  by (subst dec.simps) simp

lemma frame_demo: "frame [[80]] = [42, 49, 13, 10, 36, 49, 13, 10, 80, 13, 10]"
  by (simp add: frame_def bulk_def byte_simps dec_digit)

lemma demo_append:
  "aof_append (demo_aof p) [[80]] = (True, demo_append p)"
  "out (inner (demo_append p)) = (if p = Always then frame [[80]] else [])"
  "pending (inner (demo_append p)) = (if p = Always then [] else frame [[80]])"
proof -
  have "fst (aof_append (demo_aof p) [[80]])
    \<and> out (inner (snd (aof_append (demo_aof p) [[80]]))) = (if p = Always then frame [[80]] else [])
    \<and> pending (inner (snd (aof_append (demo_aof p) [[80]]))) = (if p = Always then [] else frame [[80]])"
    by (cases p) (simp_all add: demo_aof_def aof_open_def aof_append_def write_resp_array_def buf_write_all_def
        flush_buf_def file_write_def sync_data_def syscall_def frame_demo byte_simps dec_digit Let_def)
  then show "aof_append (demo_aof p) [[80]] = (True, demo_append p)"
    "out (inner (demo_append p)) = (if p = Always then frame [[80]] else [])"
    "pending (inner (demo_append p)) = (if p = Always then [] else frame [[80]])"
    by (simp_all add: demo_append_def prod_eq_iff)
qed

lemma demo_run: "aof_run p (demo_append p) [[[80]]] (if p = Always then [[[80]]] else [])"
proof -
  have "aof_open (log_of []) p (\<lambda>_. None) = Some (demo_aof p)" by (simp add: demo_aof_def aof_open_def)
  then have "aof_run p (demo_aof p) [] []" by (rule aof_run.opened) simp
  note run = aof_run.append [OF this _ demo_append(1)]
  show ?thesis by (cases "p = Always") (use run in \<open>simp_all add: small_command_def\<close>)
qed



text \<open>C14: A rewrite that reports success has replaced the log by exactly the dump of the
  live entries, synced to the disk, restarts the size accounting from its length
  and changes no entry. A rewrite that fails keeps every byte that was logged,
  unless the new file was renamed into place and could not be reopened: then
  whatever is appended afterwards, acknowledged or not, never reaches the file at
  the log's path.\<close>

theorem aof_rewrite_correct:
  assumes "aof_rewrite E s a = (Some r, a', s')" and "replaced a = None"
  shows "same_entries s s' \<and> \<not> rewrite_in_progress a'
    \<and> (case r of
         Some st \<Rightarrow> path_content a' = log_of (dump_commands E s (clock s 0)) \<and> durable (inner a') = path_content a'
           \<and> pending (inner a') = [] \<and> size_bytes a' = of_nat (length (path_content a'))
           \<and> last_rewrite_size a' = size_bytes a' \<and> bytes_written st = size_bytes a'
       | None \<Rightarrow> stream (inner a') = stream (inner a)
           \<and> (replaced a' = None \<or> (\<forall>c. path_content (snd (aof_append a' c)) = log_of (dump_commands E s (clock s 0)))))"
proof -
  define a0 where "a0 = a\<lparr>rewrite_in_progress := True\<rparr>"
  have run: "rewrite_inner E s a0 = (r, fst (snd (rewrite_inner E s a0)), s')"
    and a': "a' = (fst (snd (rewrite_inner E s a0)))\<lparr>rewrite_in_progress := False\<rparr>"
    using assms(1) by (auto simp: aof_rewrite_def a0_def case_prod_beta split: if_splits)
  have a0: "replaced a0 = None" "inner a0 = inner a" by (simp_all add: a0_def assms(2))
  note eff = rewrite_inner_effect [OF run a0(1)]
  show ?thesis
    using eff by (auto simp: a' a0 path_content_def replaced_append split: option.splits)
qed

theorem aof_rewrite_correct_witness:
  "\<exists>st a' s'. aof_rewrite small_env small_db_k (demo_aof No) = (Some (Some st), a', s')
    \<and> path_content a' = log_of (dump_commands small_env small_db_k (clock small_db_k 0))"
proof -
  obtain st a' s' where r: "aof_rewrite small_env small_db_k (demo_aof No) = (Some (Some st), a', s')"
    using aof_rewrite_reliable [of "demo_aof No" small_env small_db_k]
    by (auto simp: demo_aof_def aof_open_def reliable_def)
  moreover have "replaced (demo_aof No) = None" by (simp add: demo_aof_def aof_open_def)
  ultimately show ?thesis using aof_rewrite_correct [OF r] by (intro exI [of _ st] exI [of _ a'] exI [of _ s']) simp
qed

text \<open>The automatic rewrite starts exactly when the log has reached the minimum size and
  has grown by the percentage past the larger of the last rewrite's size and the
  minimum size, computed without overflow at any size and percentage: a fresh log
  is not rewritten at the minimum size but only a percentage above it.\<close>

theorem should_rewrite_spec:
  "should_rewrite a min_size percentage \<longleftrightarrow>
     (let base = max (unat (last_rewrite_size a)) (unat min_size) in
      unat min_size \<le> unat (size_bytes a)
      \<and> min (base + min (base * unat percentage) (2 ^ 64 - 1) div 100) (2 ^ 64 - 1) \<le> unat (size_bytes a))"
proof -
  have max: "unat (max x y) = max (unat x) (unat y)" for x y :: u64
    by (simp add: max_def word_le_nat_alt)
  show ?thesis
    by (auto simp: should_rewrite_def Let_def word_le_nat_alt word_less_nat_alt max unat_u64_saturating_add
        unat_u64_saturating_mul unat_div)
qed

end
