(* ===== verification/Snapshot.thy ===== *)
theory Snapshot
  imports Store Eviction
begin

text \<open>
  The snapshot file, \<^verbatim>\<open>src/src/persistence.rs\<close>: saving the live entries of the store
  and loading them at startup. The \<^verbatim>\<open>bincode\<close> encoding of one entry is a parameter, the
  record \<open>codec\<close>. A save writes a temporary file and renames it over the old one; its
  argument \<open>io\<close> gives the outcome of each file operation in turn, \<open>None\<close> for success.
  A load gets no file, a file that cannot be opened, or the bytes of the file.
\<close>

section \<open>Little-endian integers\<close>

text \<open>\<^verbatim>\<open>to_le_bytes\<close> and \<^verbatim>\<open>from_le_bytes\<close>.\<close>

fun le_bytes :: "nat \<Rightarrow> nat \<Rightarrow> bytes" where
  "le_bytes 0 n = []"
| "le_bytes (Suc k) n = of_nat (n mod 256) # le_bytes k (n div 256)"

fun from_le :: "bytes \<Rightarrow> nat" where
  "from_le [] = 0"
| "from_le (b # rest) = unat b + 256 * from_le rest"

lemma length_le_bytes [simp]: "length (le_bytes k n) = k"
  by (induction k n rule: le_bytes.induct) simp_all

lemma from_le_bytes: "from_le (le_bytes k n) = n mod 256 ^ k"
proof (induction k n rule: le_bytes.induct)
  case (2 k n)
  have "unat (of_nat (n mod 256) :: u8) = n mod 256" by (simp add: unat_of_nat)
  with 2 show ?case by (simp add: mod_mult2_eq)
qed simp

section \<open>Data\<close>

datatype snapshot_value = SStr bytes | SHash "(bytes \<times> bytes) list"

record snapshot_entry =
  skey :: bytes
  svalue :: snapshot_value
  sexpiry :: "u64 option"

record legacy_entry =
  lkey :: bytes
  lvalue :: bytes
  lexpiry :: "u64 option"

record codec =
  serialize :: "snapshot_entry \<Rightarrow> bytes + bytes"
  deserialize :: "bytes \<Rightarrow> snapshot_entry option"
  deserialize_legacy :: "bytes \<Rightarrow> bytes + legacy_entry"

record saver =
  save_in_progress :: bool
  last_save_time :: u64
  snapshot_file :: "bytes option"

section \<open>Saving\<close>

definition SNAPSHOT_MAGIC :: bytes where "SNAPSHOT_MAGIC = bs ''RDST''"
definition SNAPSHOT_VERSION :: u8 where "SNAPSHOT_VERSION = 1"

definition to_snapshot :: "bytes \<times> entry \<Rightarrow> snapshot_entry" where
  "to_snapshot = (\<lambda>(key, e).
     \<lparr>skey = key, svalue = (case val e of StringV b \<Rightarrow> SStr b | HashV h \<Rightarrow> SHash h), sexpiry = expiry e\<rparr>)"

text \<open>The first of a row of file operations that fails, with the code's message for it.\<close>

type_synonym file_io = "nat \<Rightarrow> bytes option"

fun first_failure :: "file_io \<Rightarrow> nat \<Rightarrow> string list \<Rightarrow> bytes option" where
  "first_failure io n [] = None"
| "first_failure io n (msg # msgs) =
     (case io n of Some e \<Rightarrow> Some (bs msg @ e) | None \<Rightarrow> first_failure io (Suc n) msgs)"

fun encode_entries ::
  "codec \<Rightarrow> file_io \<Rightarrow> nat \<Rightarrow> u64 \<Rightarrow> (bytes \<times> entry) list \<Rightarrow> u64 \<Rightarrow> bytes \<Rightarrow> bytes + u64 \<times> bytes \<times> nat" where
  "encode_entries C io n now [] count buf = Inr (count, buf, n)"
| "encode_entries C io n now (p # ps) count buf =
     (if expired now (snd p) then encode_entries C io n now ps count buf
      else (case serialize C (to_snapshot p) of
          Inl e \<Rightarrow> Inl (bs ''Failed to serialize entry: '' @ e)
        | Inr encoded \<Rightarrow>
            (case first_failure io n [''Failed to write entry length: '', ''Failed to write entry data: ''] of
               Some e \<Rightarrow> Inl e
             | None \<Rightarrow> encode_entries C io (n + 2) now ps (count + 1)
                 (buf @ le_bytes 4 (length encoded) @ encoded))))"

definition save_body ::
  "codec \<Rightarrow> 'm env \<Rightarrow> 'm db \<Rightarrow> u64 \<Rightarrow> file_io \<Rightarrow> bytes + nat \<times> bytes" where
  "save_body C E s now io =
     (case first_failure io 0 [''Failed to create snapshot file: '', ''Failed to write header: '',
         ''Failed to write version: '', ''Failed to write timestamp: '', ''Failed to get position: '',
         ''Failed to write entry count: ''] of
        Some e \<Rightarrow> Inl e
      | None \<Rightarrow>
          let header = SNAPSHOT_MAGIC @ [SNAPSHOT_VERSION] @ le_bytes 8 (unat now);
              entry_count_pos = length header
          in case encode_entries C io 6 now (concat (map (dm_iter (dash E)) (shards s))) 0 (header @ le_bytes 8 0) of
               Inl e \<Rightarrow> Inl e
             | Inr (count, buf, n) \<Rightarrow>
                 (case first_failure io n [''Failed to seek: '', ''Failed to write entry count: '',
                     ''Failed to flush: '', ''Failed to rename snapshot file: ''] of
                    Some e \<Rightarrow> Inl e
                  | None \<Rightarrow> Inr (unat count,
                      take entry_count_pos buf @ le_bytes 8 (unat count) @ drop (entry_count_pos + 8) buf)))"

definition save_snapshot_sync ::
  "codec \<Rightarrow> 'm env \<Rightarrow> 'm db \<Rightarrow> saver \<Rightarrow> file_io \<Rightarrow> (bytes + nat) \<times> 'm db \<times> saver" where
  "save_snapshot_sync C E s p io =
     (if save_in_progress p then (Inl (bs ''Background save already in progress''), s, p)
      else
        let p = p\<lparr>save_in_progress := True\<rparr>;
            (now, s) = get_timestamp s;
            (result, p) = (case save_body C E s now io of
                Inl e \<Rightarrow> (Inl e, p)
              | Inr (count, buf) \<Rightarrow> (Inr count, p\<lparr>snapshot_file := Some buf, last_save_time := now\<rparr>))
        in (result, s, p\<lparr>save_in_progress := False\<rparr>))"

section \<open>Loading\<close>

definition short_read :: bytes where
  "short_read = bs ''failed to fill whole buffer''"

definition load_value :: "snapshot_value \<Rightarrow> entry_value" where
  "load_value v = (case v of
     SStr b \<Rightarrow> StringV b
   | SHash fs \<Rightarrow> HashV (foldl (\<lambda>h (f, x). hm_insert h f x) [] fs))"

definition decode_entry :: "codec \<Rightarrow> bytes \<Rightarrow> bytes + bytes \<times> entry_value \<times> u64 option" where
  "decode_entry C entry_data =
     (case deserialize C entry_data of
        Some e \<Rightarrow> Inr (skey e, load_value (svalue e), sexpiry e)
      | None \<Rightarrow> (case deserialize_legacy C entry_data of
          Inr e \<Rightarrow> Inr (lkey e, StringV (lvalue e), lexpiry e)
        | Inl err \<Rightarrow> Inl (bs ''Failed to deserialize entry: '' @ err)))"

definition load_entry :: "'m env \<Rightarrow> 'm db \<Rightarrow> u64 \<Rightarrow> bytes \<Rightarrow> entry_value \<Rightarrow> u64 option \<Rightarrow> 'm db" where
  "load_entry E s now key v x =
     (let ttl = Option.bind x (\<lambda>exp. if exp > now then Some (exp - now) else None);
          s = mem_add E s (calculate_entry_size (length key) v)
      in shard_insert E s key
           \<lparr>val = v, expiry = map_option (\<lambda>t. now + t) ttl, last_accessed = 0, queue_type = 0, access_count = 0\<rparr>)"

fun load_entries :: "codec \<Rightarrow> 'm env \<Rightarrow> u64 \<Rightarrow> nat \<Rightarrow> bytes \<Rightarrow> nat \<Rightarrow> 'm db \<Rightarrow> (bytes + nat) \<times> 'm db" where
  "load_entries C E now 0 inp loaded s = (Inr loaded, s)"
| "load_entries C E now (Suc n) inp loaded s =
     (if length inp < 4 then (Inr loaded, s)
      else
        let entry_len = from_le (take 4 inp); inp = drop 4 inp in
        if length inp < entry_len then (Inl (bs ''Failed to read entry data: '' @ short_read), s)
        else (case decode_entry C (take entry_len inp) of
            Inl e \<Rightarrow> (Inl e, s)
          | Inr (key, v, x) \<Rightarrow>
              if (case x of Some exp \<Rightarrow> now \<ge> exp | None \<Rightarrow> False)
              then load_entries C E now n (drop entry_len inp) loaded s
              else load_entries C E now n (drop entry_len inp) (loaded + 1) (load_entry E s now key v x)))"

definition load_snapshot ::
  "codec \<Rightarrow> 'm env \<Rightarrow> 'm db \<Rightarrow> (bytes + bytes) option \<Rightarrow> (bytes + nat) \<times> 'm db" where
  "load_snapshot C E s buf =
     (case buf of
        None \<Rightarrow> (Inr 0, s)
      | Some (Inl e) \<Rightarrow> (Inl (bs ''Failed to open snapshot: '' @ e), s)
      | Some (Inr inp) \<Rightarrow>
          if length inp < 4 then (Inl (bs ''Failed to read magic: '' @ short_read), s)
          else if take 4 inp \<noteq> SNAPSHOT_MAGIC then (Inl (bs ''Invalid snapshot file (bad magic)''), s)
          else let inp = drop 4 inp in
            if length inp < 1 then (Inl (bs ''Failed to read version: '' @ short_read), s)
            else if inp ! 0 \<noteq> SNAPSHOT_VERSION then
              (Inl (bs ''Unsupported snapshot version: '' @ dec (unat (inp ! 0))), s)
            else let inp = drop 1 inp in
              if length inp < 8 then (Inl (bs ''Failed to read timestamp: '' @ short_read), s)
              else let inp = drop 8 inp in
                if length inp < 8 then (Inl (bs ''Failed to read entry count: '' @ short_read), s)
                else
                  let entry_count = from_le (take 8 inp);
                      (now, s) = get_timestamp s
                  in load_entries C E now entry_count (drop 8 inp) 0 s)"

section \<open>Facts\<close>

text \<open>What the code relies on: decoding inverts encoding.\<close>

definition codec_ok :: "codec \<Rightarrow> bool" where
  "codec_ok C \<longleftrightarrow> (\<forall>e b. serialize C e = Inr b \<longrightarrow> deserialize C b = Some e)"

text \<open>Every live entry can be encoded in less than \<open>2 ^ 32\<close> bytes, the width of the length field.\<close>

definition encodable :: "codec \<Rightarrow> bytes \<times> entry \<Rightarrow> bool" where
  "encodable C p \<longleftrightarrow> (\<exists>b. serialize C (to_snapshot p) = Inr b \<and> length b < 2 ^ 32)"

definition encoding :: "codec \<Rightarrow> bytes \<times> entry \<Rightarrow> bytes" where
  "encoding C p = (case serialize C (to_snapshot p) of Inr b \<Rightarrow> le_bytes 4 (length b) @ b | Inl _ \<Rightarrow> [])"

abbreviation live :: "u64 \<Rightarrow> (bytes \<times> entry) list \<Rightarrow> (bytes \<times> entry) list" where
  "live now ps \<equiv> filter (\<lambda>p. \<not> expired now (snd p)) ps"

lemma first_failure_None: "first_failure io n msgs = None \<longleftrightarrow> (\<forall>i < length msgs. io (n + i) = None)"
  by (induction msgs arbitrary: n) (simp_all add: All_less_Suc2 split: option.split)

lemma first_failure_none [simp]: "first_failure (\<lambda>_. None) n msgs = None"
  by (simp add: first_failure_None del: first_failure.simps)

declare first_failure.simps [simp del]

lemma encode_entries_ok:
  assumes "\<forall>p \<in> set (live now ps). encodable C p"
  shows "encode_entries C (\<lambda>_. None) n now ps count buf =
    Inr (count + of_nat (length (live now ps)), buf @ concat (map (encoding C) (live now ps)),
      n + 2 * length (live now ps))"
  using assms
  by (induction ps arbitrary: n count buf) (auto simp: encodable_def encoding_def add.assoc)

lemma load_hash: "distinct (map fst (acc @ h)) \<Longrightarrow> foldl (\<lambda>h (f, x). hm_insert h f x) acc h = acc @ h"
proof (induction h arbitrary: acc)
  case (Cons p h)
  obtain f x where p: "p = (f, x)" by (cases p)
  have "hm_insert acc f x = acc @ [(f, x)]"
    using Cons.prems by (induction acc) (auto simp: p hm_insert_def)
  then show ?case using Cons.prems Cons.IH [of "acc @ [p]"] by (simp add: p)
qed simp

lemma load_to_snapshot: "entry_ok e \<Longrightarrow> load_value (svalue (to_snapshot (k, e))) = val e"
  using load_hash [of "[]"]
  by (auto simp: load_value_def to_snapshot_def entry_ok_def hm_ok_def split: entry_value.split)

lemma decode_encoding:
  assumes "codec_ok C" and "encodable C (k, e)" and "entry_ok e"
  obtains b where "encoding C (k, e) = le_bytes 4 (length b) @ b" and "length b < 2 ^ 32"
    and "decode_entry C b = Inr (k, val e, expiry e)"
proof -
  obtain b where b: "serialize C (to_snapshot (k, e)) = Inr b" "length b < 2 ^ 32"
    using assms(2) by (auto simp: encodable_def)
  moreover have "deserialize C b = Some (to_snapshot (k, e))" using assms(1) b by (simp add: codec_ok_def)
  ultimately show thesis
    using load_to_snapshot [OF assms(3), of k]
    by (intro that [of b]) (simp_all add: encoding_def decode_entry_def, simp_all add: to_snapshot_def)
qed

text \<open>What loading the entries \<open>ps\<close> at time \<open>now\<close> puts into an empty store.\<close>

definition loaded_view :: "u64 \<Rightarrow> (bytes \<times> entry) list \<Rightarrow> bytes \<rightharpoonup> entry_value \<times> u64 option" where
  "loaded_view now ps = map_of (map (\<lambda>(k, e). (k, val e, expiry e)) (live now ps))"

lemma loaded_view_Cons:
  "loaded_view now (p # ps) = (if expired now (snd p) then loaded_view now ps
    else (loaded_view now ps)(fst p \<mapsto> (val (snd p), expiry (snd p))))"
  by (simp add: loaded_view_def case_prod_beta)

context store_env
begin

lemma load_entry_effect:
  assumes ok: "store_ok E s" and new: "view E s k = None" and v: "case v of HashV h \<Rightarrow> hm_ok h | StringV _ \<Rightarrow> True"
    and x: "\<not> past now x"
  shows "store_ok E (load_entry E s now k v x)" and "view E (load_entry E s now k v x) = (view E s)(k \<mapsto> (v, x))"
    and "memory_limit E > 0 \<Longrightarrow> drift E (load_entry E s now k v x) = drift E s"
    and "s3fifo_queues (load_entry E s now k v x) = s3fifo_queues s"
proof -
  have "map_option (\<lambda>t. now + t) (Option.bind x (\<lambda>exp. if exp > now then Some (exp - now) else None)) = x"
    using x by (cases x) (simp_all add: past_def)
  then have conv: "load_entry E s now k v x = shard_insert E (mem_add E s (size_of k v)) k
      \<lparr>val = v, expiry = x, last_accessed = 0, queue_type = 0, access_count = 0\<rparr>"
    by (simp add: load_entry_def size_of_def)
  have ok1: "store_ok E (mem_add E s (size_of k v))" using ok by (rule ok_intros)
  show ok': "store_ok E (load_entry E s now k v x)"
    unfolding conv using ok1 v by (intro ok_insert_entry) (simp_all add: entry_ok_def)
  show view: "view E (load_entry E s now k v x) = (view E s)(k \<mapsto> (v, x))"
    unfolding conv using ok1 by simp
  show "s3fifo_queues (load_entry E s now k v x) = s3fifo_queues s"
    by (simp add: conv shard_insert_def Let_def mem_add_def)
  show "drift E (load_entry E s now k v x) = drift E s" if "memory_limit E > 0"
  proof (rule drift_update [OF ok ok', of k])
    show "memory_used (load_entry E s now k v x) = memory_used s
        + of_nat (stored_size E (load_entry E s now k v x) k) - of_nat (stored_size E s k)"
      using that by (simp add: stored_size_def new view) (simp add: conv shard_insert_def mem_add_def Let_def)
  qed (simp add: view)
qed

lemma entries_length: "store_ok E s \<Longrightarrow> length (concat (map (dm_iter (dash E)) (shards s))) = store_len E s"
  using mem_shards [of s] by (auto simp: store_len_def length_concat comp_def intro!: arg_cong [where f = sum_list])

lemma load_entries_effect:
  assumes "codec_ok C" and "\<forall>p \<in> set ps. encodable C p \<and> entry_ok (snd p)" and "distinct (map fst ps)"
    and "\<forall>p \<in> set ps. view E s (fst p) = None" and "store_ok E s"
  shows "\<exists>s'. load_entries C E now (length ps) (concat (map (encoding C) ps)) n s = (Inr (n + length (live now ps)), s')
    \<and> store_ok E s' \<and> view E s' = view E s ++ loaded_view now ps
    \<and> (memory_limit E > 0 \<longrightarrow> drift E s' = drift E s) \<and> s3fifo_queues s' = s3fifo_queues s"
  using assms(2-)
proof (induction ps arbitrary: n s)
  case (Cons p ps)
  obtain k e where p: "p = (k, e)" by (cases p)
  have e: "encodable C (k, e)" "entry_ok e" using Cons.prems(1) p by auto
  obtain b where b: "encoding C (k, e) = le_bytes 4 (length b) @ b" "length b < 2 ^ 32"
      "decode_entry C b = Inr (k, val e, expiry e)"
    by (rule decode_encoding [OF assms(1) e])
  have len: "from_le (le_bytes 4 (length b)) = length b" using b(2) by (simp add: from_le_bytes)
  have step: "load_entries C E now (length (p # ps)) (concat (map (encoding C) (p # ps))) n s =
      (if expired now e then load_entries C E now (length ps) (concat (map (encoding C) ps)) n s
       else load_entries C E now (length ps) (concat (map (encoding C) ps)) (n + 1) (load_entry E s now k (val e) (expiry e)))"
    by (simp add: p b(1,3) len expired_def)
  show ?case
  proof (cases "expired now e")
    case True
    then show ?thesis
      unfolding step using Cons by (simp add: p loaded_view_Cons)
  next
    case False
    let ?s = "load_entry E s now k (val e) (expiry e)"
    have eff: "store_ok E ?s" "view E ?s = (view E s)(k \<mapsto> (val e, expiry e))"
        "memory_limit E > 0 \<Longrightarrow> drift E ?s = drift E s" "s3fifo_queues ?s = s3fifo_queues s"
      using load_entry_effect [OF Cons.prems(4), of k "val e" now "expiry e"] Cons.prems(3) e(2) False
      by (simp_all add: p entry_ok_def expired_past split: entry_value.splits)
    have "\<forall>p \<in> set ps. view E ?s (fst p) = None" using Cons.prems(2,3) by (auto simp: eff(2) p)
    then obtain s' where s': "load_entries C E now (length ps) (concat (map (encoding C) ps)) (n + 1) ?s =
          (Inr (n + 1 + length (live now ps)), s')"
        "store_ok E s'" "view E s' = view E ?s ++ loaded_view now ps"
        "memory_limit E > 0 \<longrightarrow> drift E s' = drift E ?s" "s3fifo_queues s' = s3fifo_queues ?s"
      using Cons.IH [of ?s "n + 1"] Cons.prems eff(1) by auto
    have "loaded_view now ps k = None" using Cons.prems(2) by (auto simp: loaded_view_def p map_of_eq_None_iff image_iff)
    then have "(view E s)(k \<mapsto> (val e, expiry e)) ++ loaded_view now ps =
        view E s ++ loaded_view now (p # ps)"
      using False by (auto simp: loaded_view_Cons p map_add_def fun_eq_iff split: option.split)
    with s' eff False show ?thesis unfolding step by (intro exI [of _ s']) (simp add: p)
  qed
qed (simp add: loaded_view_def)

end

text \<open>The file a successful save leaves.\<close>

lemma save_body_ok:
  assumes "\<forall>p \<in> set (live now (concat (map (dm_iter (dash E)) (shards s)))). encodable C p"
    and "length (live now (concat (map (dm_iter (dash E)) (shards s)))) < 2 ^ 64"
  shows "save_body C E s now (\<lambda>_. None) =
    (let ps = live now (concat (map (dm_iter (dash E)) (shards s)))
     in Inr (length ps, SNAPSHOT_MAGIC @ [SNAPSHOT_VERSION] @ le_bytes 8 (unat now) @ le_bytes 8 (length ps)
          @ concat (map (encoding C) ps)))"
  using assms by (simp add: save_body_def encode_entries_ok Let_def SNAPSHOT_MAGIC_def)

lemma save_body_clock: "save_body C E (s\<lparr>clock := c\<rparr>) now io = save_body C E s now io"
  by (simp add: save_body_def cong: option.case_cong)

lemma load_snapshot_file:
  assumes "length ps < 2 ^ 64"
  shows "load_snapshot C E s (Some (Inr (SNAPSHOT_MAGIC @ [SNAPSHOT_VERSION] @ le_bytes 8 t @ le_bytes 8 (length ps)
      @ concat (map (encoding C) ps)))) =
    load_entries C E (clock s 0) (length ps) (concat (map (encoding C) ps)) 0 (s\<lparr>clock := (\<lambda>i. clock s (Suc i))\<rparr>)"
  using assms
  by (simp add: load_snapshot_def SNAPSHOT_MAGIC_def from_le_bytes get_timestamp_def)

lemma same_entries_clock [simp]: "same_entries s (s\<lparr>clock := c\<rparr>)"
  by (simp add: same_entries_def)

lemma loaded_view_at:
  "distinct (map fst ps) \<Longrightarrow> loaded_view now ps k =
    (case map_of ps k of Some e \<Rightarrow> if expired now e then None else Some (val e, expiry e) | None \<Rightarrow> None)"
proof (induction ps)
  case (Cons p ps)
  then have "fst p = k \<Longrightarrow> map_of ps k = None" by (auto simp: map_of_eq_None_iff)
  with Cons show ?case by (cases p) (auto simp: loaded_view_Cons split: option.split)
qed (simp add: loaded_view_def)

lemma map_of_live:
  "distinct (map fst ps) \<Longrightarrow> map_of (live now ps) k =
    (case map_of ps k of Some e \<Rightarrow> if expired now e then None else Some e | None \<Rightarrow> None)"
proof (induction ps)
  case (Cons p ps)
  then have "fst p = k \<Longrightarrow> map_of ps k = None" by (auto simp: map_of_eq_None_iff)
  with Cons show ?case by (cases p) (auto split: option.split)
qed simp

lemma expired_mono: "expired now e \<Longrightarrow> now \<le> t \<Longrightarrow> expired t e"
  by (auto simp: expired_def split: option.splits)

definition snapshot_of :: "codec \<Rightarrow> u64 \<Rightarrow> (bytes \<times> entry) list \<Rightarrow> bytes" where
  "snapshot_of C now ps = SNAPSHOT_MAGIC @ [SNAPSHOT_VERSION] @ le_bytes 8 (unat now) @ le_bytes 8 (length ps)
     @ concat (map (encoding C) ps)"

abbreviation all_entries :: "'m env \<Rightarrow> 'm db \<Rightarrow> (bytes \<times> entry) list" where
  "all_entries E s \<equiv> concat (map (dm_iter (dash E)) (shards s))"

context store_env
begin

lemma save_effect:
  assumes ok: "store_ok E s" and enc: "\<And>k e. shard_get E s k = Some e \<Longrightarrow> encodable C (k, e)"
    and len: "store_len E s < 2 ^ 64" and idle: "\<not> save_in_progress p"
  shows "save_snapshot_sync C E s p (\<lambda>_. None) =
    (Inr (length (live (clock s 0) (all_entries E s))), s\<lparr>clock := (\<lambda>i. clock s (Suc i))\<rparr>,
     p\<lparr>save_in_progress := False, last_save_time := clock s 0,
       snapshot_file := Some (snapshot_of C (clock s 0) (live (clock s 0) (all_entries E s)))\<rparr>)"
proof -
  have "encodable C p" if "p \<in> set (live now (all_entries E s))" for p now
    using that enc [of "fst p" "snd p"] entries_mem [OF ok, of "fst p" "snd p"] by (simp del: set_concat)
  then have all: "\<forall>p \<in> set (live (clock s 0) (all_entries E s)). encodable C p" by blast
  have small: "length (live (clock s 0) (all_entries E s)) < 2 ^ 64"
    using len unfolding entries_length [OF ok, symmetric] by (rule le_less_trans [OF length_filter_le])
  have "save_body C E s (clock s 0) (\<lambda>_. None) = Inr (length (live (clock s 0) (all_entries E s)),
      snapshot_of C (clock s 0) (live (clock s 0) (all_entries E s)))"
    unfolding save_body_ok [OF all small] Let_def snapshot_of_def ..
  then show ?thesis
    using idle by (simp add: save_snapshot_sync_def get_timestamp_def save_body_clock)
qed

lemma load_effect:
  assumes "store_ok E s" and "view E s = Map.empty" and "codec_ok C" and "length ps < 2 ^ 64"
    and "\<forall>p \<in> set ps. encodable C p \<and> entry_ok (snd p)" and "distinct (map fst ps)"
  shows "\<exists>s'. load_snapshot C E s (Some (Inr (snapshot_of C t ps))) = (Inr (length (live (clock s 0) ps)), s')
    \<and> store_ok E s' \<and> view E s' = loaded_view (clock s 0) ps \<and> (memory_limit E > 0 \<longrightarrow> drift E s' = drift E s)"
proof -
  let ?s = "s\<lparr>clock := (\<lambda>i. clock s (Suc i))\<rparr>"
  have s: "store_ok E ?s" "view E ?s = Map.empty" "drift E ?s = drift E s"
    using assms(1,2) ok_same_entries [of s ?s] same_entriesD(3,4) [of s ?s E] by (simp_all add: drift_def)
  show ?thesis
    using load_entries_effect [OF assms(3,5,6) _ s(1), of "clock s 0" 0] s
      load_snapshot_file [OF assms(4), of C E s "unat t"] by (auto simp: snapshot_of_def)
qed

lemma loaded_keyspace:
  assumes ok: "store_ok E s" and le: "now \<le> now'"
    and v: "view E' s' = loaded_view now' (live now (all_entries E s))"
  shows "now' \<le> t \<Longrightarrow> keyspace E' s' t = keyspace E s t"
    and "length (live now' (live now (all_entries E s))) = card (dom (keyspace E s now'))"
proof -
  let ?es = "all_entries E s"
  have dist: "distinct (map fst ?es)" "distinct (map fst (live now ?es))"
    using entries_distinct [OF ok] by (simp_all add: distinct_map_filter)
  have "map_of ?es k = Some e \<longleftrightarrow> shard_get E s k = Some e" for k e
    by (simp only: map_of_eq_Some_iff [OF dist(1)] entries_mem [OF ok])
  then have get: "map_of ?es k = shard_get E s k" for k by (metis not_Some_eq)
  have view': "view E' s' k = (case shard_get E s k of
      Some e \<Rightarrow> if expired now' e then None else Some (val e, expiry e) | None \<Rightarrow> None)" for k
    using expired_mono [OF _ le]
    by (auto simp: v loaded_view_at [OF dist(2)] map_of_live [OF dist(1)] get split: option.split)
  show "keyspace E' s' t = keyspace E s t" if "now' \<le> t"
    using expired_mono [OF _ that]
    by (auto simp: keyspace_def view' view_def [of E s] visible_def expired_past fun_eq_iff split: option.split)
  have "live now' (live now ?es) = live now' ?es"
    using le by (auto intro!: filter_cong dest: expired_mono)
  moreover have "length (live now' ?es) = card (fst ` set (live now' ?es))"
    using distinct_card [OF distinct_map_filter [OF dist(1)], of "\<lambda>p. \<not> expired now' (snd p)"] by simp
  moreover have "fst ` set (live now' ?es) = dom (keyspace E s now')"
  proof -
    have "k \<in> fst ` set (live now' ?es) \<longleftrightarrow> (\<exists>e. shard_get E s k = Some e \<and> \<not> expired now' e)" for k
      using entries_mem [OF ok, of k] by (force simp del: set_concat)
    moreover have "k \<in> dom (keyspace E s now') \<longleftrightarrow> (\<exists>e. shard_get E s k = Some e \<and> \<not> expired now' e)" for k
      by (auto simp: keyspace_def view_def visible_def expired_past split: bind_splits)
    ultimately show ?thesis by blast
  qed
  ultimately show "length (live now' (live now ?es)) = card (dom (keyspace E s now'))" by simp
qed

end

text \<open>Loading never touches the queues; with empty queues S3-FIFO finds nothing to evict.\<close>

definition unqueued :: "'m db \<Rightarrow> bool" where
  "unqueued s \<longleftrightarrow> (\<forall>i < store_num_shards s. small_queue (s3fifo_queues s ! i) = [] \<and> main_queue (s3fifo_queues s ! i) = [])"

lemma load_entries_queues:
  "s3fifo_queues (snd (load_entries C E now n inp k s)) = s3fifo_queues s
    \<and> store_num_shards (snd (load_entries C E now n inp k s)) = store_num_shards s"
proof (induction n arbitrary: inp k s)
  case (Suc n)
  have "s3fifo_queues (load_entry E s now key v x) = s3fifo_queues s
      \<and> store_num_shards (load_entry E s now key v x) = store_num_shards s" for key v x
    by (simp add: load_entry_def shard_insert_def mem_add_def Let_def)
  with Suc show ?case by (simp add: Let_def split: sum.split option.split)
qed simp

lemma load_snapshot_unqueued: "unqueued s \<Longrightarrow> unqueued (snd (load_snapshot C E s f))"
  using load_entries_queues [of C E]
  by (simp add: load_snapshot_def unqueued_def get_timestamp_def Let_def split: option.split sum.split)

lemma load_snapshot_shards: "store_num_shards (snd (load_snapshot C E s f)) = store_num_shards s"
  using load_entries_queues [of C E] by (simp add: load_snapshot_def get_timestamp_def Let_def split: option.split sum.split)

lemma s3fifo_attempts_unqueued:
  assumes "unqueued s" and "0 < store_num_shards s"
  shows "\<exists>r. s3fifo_attempts E n s = (0, s\<lparr>rng := r\<rparr>)"
  using assms
proof (induction n arbitrary: s)
  case 0
  show ?case by (rule exI [of _ "rng s"]) simp
next
  case (Suc n)
  let ?s = "s\<lparr>rng := (\<lambda>i. rng s (Suc i))\<rparr>"
  have "unat (rng s 0) mod store_num_shards s < store_num_shards s" using Suc.prems by simp
  then have "pop_victim E ?s (unat (rng s 0) mod store_num_shards s) = (None, ?s)"
    using Suc.prems by (simp add: pop_victim_def unqueued_def)
  then have "s3fifo_attempts E (Suc n) s = s3fifo_attempts E n ?s"
    by (simp add: draw_usize_def)
  with Suc.IH [of ?s] Suc.prems show ?case by (auto simp: unqueued_def)
qed

lemma evict_unqueued:
  assumes "unqueued s" and "0 < store_num_shards s" and "policy_of (conf E) = AllKeysS3Fifo"
  shows "\<exists>r. evict_loop E n needed freed s = s\<lparr>rng := r\<rparr>"
proof (cases n)
  case (Suc m)
  obtain r where "s3fifo_attempts E (store_num_shards s) s = (0, s\<lparr>rng := r\<rparr>)"
    using s3fifo_attempts_unqueued [OF assms(1,2)] by blast
  then show ?thesis
    using assms(3) Suc by (auto simp: evict_one_def evict_s3fifo_def intro: exI [of _ "rng s"])
qed (auto intro: exI [of _ "rng s"])

section \<open>The bincode layout\<close>

text \<open>
  A codec with the documented default layout of \<^verbatim>\<open>bincode\<close>: 64-bit little-endian lengths,
  32-bit variant numbers, one byte for an option. It shows that the assumption on the
  codec can be met, and serves the concrete instances below.
\<close>

definition put_vec :: "bytes \<Rightarrow> bytes" where
  "put_vec b = le_bytes 8 (length b) @ b"

definition get_num :: "nat \<Rightarrow> bytes \<Rightarrow> (nat \<times> bytes) option" where
  "get_num k inp = (if length inp < k then None else Some (from_le (take k inp), drop k inp))"

definition get_vec :: "bytes \<Rightarrow> (bytes \<times> bytes) option" where
  "get_vec inp = Option.bind (get_num 8 inp) (\<lambda>(n, inp). if length inp < n then None else Some (take n inp, drop n inp))"

fun get_pairs :: "nat \<Rightarrow> bytes \<Rightarrow> ((bytes \<times> bytes) list \<times> bytes) option" where
  "get_pairs 0 inp = Some ([], inp)"
| "get_pairs (Suc n) inp =
     Option.bind (get_vec inp) (\<lambda>(f, inp). Option.bind (get_vec inp) (\<lambda>(x, inp).
       map_option (\<lambda>(ps, inp). ((f, x) # ps, inp)) (get_pairs n inp)))"

definition put_value_le :: "snapshot_value \<Rightarrow> bytes" where
  "put_value_le v = (case v of
     SStr b \<Rightarrow> le_bytes 4 0 @ put_vec b
   | SHash fs \<Rightarrow> le_bytes 4 1 @ le_bytes 8 (length fs) @ concat (map (\<lambda>(f, x). put_vec f @ put_vec x) fs))"

definition get_value_le :: "bytes \<Rightarrow> (snapshot_value \<times> bytes) option" where
  "get_value_le inp = Option.bind (get_num 4 inp) (\<lambda>(tag, inp).
     if tag = 0 then map_option (\<lambda>(b, inp). (SStr b, inp)) (get_vec inp)
     else if tag = 1 then Option.bind (get_num 8 inp) (\<lambda>(n, inp). map_option (\<lambda>(fs, inp). (SHash fs, inp)) (get_pairs n inp))
     else None)"

definition put_option_le :: "u64 option \<Rightarrow> bytes" where
  "put_option_le x = (case x of None \<Rightarrow> [0] | Some t \<Rightarrow> 1 # le_bytes 8 (unat t))"

definition get_option_le :: "bytes \<Rightarrow> u64 option option" where
  "get_option_le inp =
     (case inp of
        tag # inp \<Rightarrow> if tag = 0 then Some None
          else if tag = 1 then map_option (\<lambda>(n, _). Some (of_nat n)) (get_num 8 inp) else None
      | [] \<Rightarrow> None)"

definition small_value :: "snapshot_value \<Rightarrow> bool" where
  "small_value v = (case v of
     SStr b \<Rightarrow> length b < 2 ^ 64
   | SHash fs \<Rightarrow> length fs < 2 ^ 64 \<and> (\<forall>(f, x) \<in> set fs. length f < 2 ^ 64 \<and> length x < 2 ^ 64))"

definition bincode :: codec where
  "bincode =
     \<lparr>serialize = (\<lambda>e. if length (skey e) < 2 ^ 64 \<and> small_value (svalue e)
        then Inr (put_vec (skey e) @ put_value_le (svalue e) @ put_option_le (sexpiry e)) else Inl []),
      deserialize = (\<lambda>inp. Option.bind (get_vec inp) (\<lambda>(k, inp). Option.bind (get_value_le inp) (\<lambda>(v, inp).
        map_option (\<lambda>x. \<lparr>skey = k, svalue = v, sexpiry = x\<rparr>) (get_option_le inp)))),
      deserialize_legacy = (\<lambda>inp. case Option.bind (get_vec inp) (\<lambda>(k, inp). Option.bind (get_vec inp) (\<lambda>(v, inp).
        map_option (\<lambda>x. \<lparr>lkey = k, lvalue = v, lexpiry = x\<rparr>) (get_option_le inp))) of
          Some e \<Rightarrow> Inr e | None \<Rightarrow> Inl [])\<rparr>"

lemma get_num_le [simp]: "n < 256 ^ k \<Longrightarrow> get_num k (le_bytes k n @ rest) = Some (n, rest)"
  by (simp add: get_num_def from_le_bytes)

lemma get_put_vec [simp]: "length b < 2 ^ 64 \<Longrightarrow> get_vec (put_vec b @ rest) = Some (b, rest)"
  by (simp add: get_vec_def put_vec_def)

lemma get_put_pairs:
  "\<forall>(f, x) \<in> set fs. length f < 2 ^ 64 \<and> length x < 2 ^ 64 \<Longrightarrow>
    get_pairs (length fs) (concat (map (\<lambda>(f, x). put_vec f @ put_vec x) fs) @ rest) = Some (fs, rest)"
  by (induction fs) auto

lemma get_put_value: "small_value v \<Longrightarrow> get_value_le (put_value_le v @ rest) = Some (v, rest)"
proof (cases v)
  case (SHash fs)
  assume "small_value v"
  then show ?thesis
    using get_put_pairs [of fs rest] SHash by (simp add: get_value_le_def put_value_le_def small_value_def)
qed (simp add: get_value_le_def put_value_le_def small_value_def)

lemma unat_u64_less: "unat (t :: u64) < 256 ^ 8"
  by (rule order_less_le_trans [OF unsigned_less]) simp

lemma get_put_option: "get_option_le (put_option_le x) = Some x"
proof (cases x)
  case (Some t)
  then show ?thesis
    using get_num_le [OF unat_u64_less, of t "[]"] by (simp add: get_option_le_def put_option_le_def)
qed (simp add: get_option_le_def put_option_le_def)

lemma bincode_ok: "codec_ok bincode"
proof (unfold codec_ok_def, intro allI impI)
  fix e b
  assume "serialize bincode e = Inr b"
  then have "length (skey e) < 2 ^ 64" "small_value (svalue e)"
    "b = put_vec (skey e) @ put_value_le (svalue e) @ put_option_le (sexpiry e)"
    by (auto simp: bincode_def split: if_splits)
  then show "deserialize bincode b = Some e"
    by (simp add: bincode_def get_put_value get_put_option)
qed

lemma small_db_k_encodable: "shard_get small_env small_db_k k = Some e \<Longrightarrow> encodable bincode (k, e)"
proof -
  assume e: "shard_get small_env small_db_k k = Some e"
  then have "view small_env small_db_k k = Some (val e, expiry e)" by (simp add: view_def)
  then have "k = [107]" "val e = StringV [118]" "expiry e = Some 105" by (auto simp: small_db_k_view split: if_splits)
  then show ?thesis
    by (simp add: encodable_def bincode_def to_snapshot_def small_value_def put_value_le_def put_vec_def put_option_le_def)
qed

lemma small_db_k_clock: "clock small_db_k i = 100"
  by (simp add: small_db_k_def store_set_def small_db_def store_new_def sampled_uptime_def draw_u32_def unqueue_old_def
      place_in_queue_def shard_insert_def with_queue_def unqueue_def Let_def case_prod_beta split: option.split)

section \<open>Properties\<close>

text \<open>A snapshot that is saved and loaded restores the data: if every entry can be encoded
  (in less than \<open>2 ^ 32\<close> bytes, the width of the length field), saving succeeds, and
  loading the file into a fresh store, with any number of shards and any
  configuration, at a later time, succeeds and reports the number of live keys.
  From then on both stores show a client the same keys, values and expiry times,
  and the accounting of the new store is exact.\<close>

theorem snapshot_roundtrip:
  assumes "dashmap (dash E)" and "store_ok E s" and "dashmap (dash E')" and "0 < n" and "codec_ok C"
    and "\<And>k e. shard_get E s k = Some e \<Longrightarrow> encodable C (k, e)" and "store_len E s < 2 ^ 64"
    and "\<not> save_in_progress p" and "clock s 0 \<le> clk 0"
  shows "\<exists>c s1 p' s2. save_snapshot_sync C E s p (\<lambda>_. None) = (Inr c, s1, p') \<and> same_entries s s1 \<and> \<not> save_in_progress p'
    \<and> load_snapshot C E' (store_new E' n clk rnd) (map_option Inr (snapshot_file p')) = (Inr (card (dom (keyspace E s (clk 0)))), s2)
    \<and> (\<forall>t \<ge> clk 0. keyspace E' s2 t = keyspace E s t)
    \<and> store_ok E' s2 \<and> (memory_limit E' > 0 \<longrightarrow> memory_used s2 = of_nat (total_size E' s2))"
proof -
  have env: "store_env E" "store_env E'" using assms(1,3) by (simp_all add: store_env_def)
  let ?ps = "live (clock s 0) (all_entries E s)" and ?s0 = "store_new E' n clk rnd"
  note save = store_env.save_effect [OF env(1) assms(2,6-8)]
  have s0: "store_ok E' ?s0" "view E' ?s0 = Map.empty" "drift E' ?s0 = 0" "clock ?s0 = clk"
    using store_env.store_new_effect [OF env(2) assms(4), of clk rnd]
    by (auto simp: drift_def fun_eq_iff store_new_def case_prod_beta)
  have ps: "\<forall>p \<in> set ?ps. encodable C p \<and> entry_ok (snd p)" "distinct (map fst ?ps)"
    using assms(6) store_env.entry_ok_at [OF env(1) assms(2)] store_env.entries_mem [OF env(1) assms(2)]
      store_env.entries_distinct [OF env(1) assms(2)]
    by (auto simp: distinct_map_filter simp del: set_concat)
  have len: "length ?ps < 2 ^ 64"
    using assms(7) store_env.entries_length [OF env(1) assms(2)] by (metis le_less_trans length_filter_le)
  obtain s2 where s2: "load_snapshot C E' ?s0 (Some (Inr (snapshot_of C (clock s 0) ?ps))) = (Inr (length (live (clk 0) ?ps)), s2)"
      "store_ok E' s2" "view E' s2 = loaded_view (clk 0) ?ps" "memory_limit E' > 0 \<longrightarrow> drift E' s2 = 0"
    using store_env.load_effect [OF env(2) s0(1,2) assms(5) len ps, of "clock s 0"] s0(3,4) by auto
  note same = store_env.loaded_keyspace [OF env(1) assms(2,9) s2(3)]
  show ?thesis
    by (rule exI [of _ "length ?ps"], rule exI [of _ "s\<lparr>clock := (\<lambda>i. clock s (Suc i))\<rparr>"],
        rule exI [of _ "p\<lparr>save_in_progress := False, last_save_time := clock s 0,
          snapshot_file := Some (snapshot_of C (clock s 0) ?ps)\<rparr>"], rule exI [of _ s2])
      (use save s2 same in \<open>simp add: drift_def\<close>)
qed

theorem snapshot_roundtrip_witness:
  "\<exists>c s1 p' s2. save_snapshot_sync bincode small_env small_db_k
      \<lparr>save_in_progress = False, last_save_time = 0, snapshot_file = None\<rparr> (\<lambda>_. None) = (Inr c, s1, p')
    \<and> load_snapshot bincode small_env (store_new small_env 3 (\<lambda>_. 103) (\<lambda>_. 0)) (map_option Inr (snapshot_file p')) = (Inr 1, s2)
    \<and> keyspace small_env s2 104 = [[107] \<mapsto> (Str [118], Some 105)]"
proof -
  have env: "store_env small_env" using small_env_dashmap by (simp add: store_env_def)
  have len: "store_len small_env small_db_k = 1"
    by (simp add: store_env.store_len_card [OF env small_db_k_ok] small_db_k_view)
  let ?p = "\<lparr>save_in_progress = False, last_save_time = 0, snapshot_file = None\<rparr>"
  have len': "store_len small_env small_db_k < 2 ^ 64" by (simp add: len)
  have idle: "\<not> save_in_progress ?p" and three: "0 < (3 :: nat)" by simp_all
  have clk: "clock small_db_k 0 \<le> (\<lambda>_. 103) (0 :: nat)" by (simp add: small_db_k_clock)
  obtain c s1 p' s2 where r: "save_snapshot_sync bincode small_env small_db_k ?p (\<lambda>_. None) = (Inr c, s1, p')"
      "load_snapshot bincode small_env (store_new small_env 3 (\<lambda>_. 103) (\<lambda>_. 0)) (map_option Inr (snapshot_file p')) =
        (Inr (card (dom (keyspace small_env small_db_k 103))), s2)"
      "\<forall>t \<ge> 103. keyspace small_env s2 t = keyspace small_env small_db_k t"
    using snapshot_roundtrip [OF small_env_dashmap small_db_k_ok small_env_dashmap three bincode_ok
        small_db_k_encodable len' idle clk, of "\<lambda>_. 0"] by blast
  have "keyspace small_env s2 104 = keyspace small_env small_db_k 104" using r(3) by simp
  then show ?thesis
    using r(1,2) by (intro exI [of _ c] exI [of _ s1] exI [of _ p'] exI [of _ s2]) (simp add: small_db_k_keyspace)
qed



text \<open>C40: Entries that come from a snapshot cannot be evicted by S3-FIFO: loading puts them
  into no queue. Whatever the file holds, if after the load a write does not fit
  the limit, \<^verbatim>\<open>evict_if_needed\<close> removes nothing and refuses.\<close>

theorem snapshot_load_not_evictable:
  assumes "0 < n" and "policy_of (conf E) = AllKeysS3Fifo" and "memory_limit E > 0"
    and "load_snapshot C E (store_new E n clk rnd) f = (r, s)"
    and "memory_used s + of_nat needed > memory_limit E"
  shows "\<not> fst (evict_if_needed E s needed) \<and> same_entries s (snd (evict_if_needed E s needed))"
proof -
  obtain a b c where caps: "queue_capacities (memory_limit E) n = (a, b, c)"
    by (cases "queue_capacities (memory_limit E) n") auto
  have "unqueued (store_new E n clk rnd)" "store_num_shards (store_new E n clk rnd) = n"
    by (simp_all add: unqueued_def store_new_def caps s3fifo_new_def)
  then have "unqueued s" using load_snapshot_unqueued [of "store_new E n clk rnd" C E f] assms(4) by simp
  moreover have "store_num_shards s = n"
    using assms(4) load_snapshot_shards [of C E "store_new E n clk rnd" f] \<open>store_num_shards (store_new E n clk rnd) = n\<close> by simp
  ultimately obtain q where q: "evict_loop E 100 needed 0 s = s\<lparr>rng := q\<rparr>"
    using evict_unqueued assms(1,2) by metis
  have "\<not> memory_used s + of_nat needed \<le> memory_limit E" using assms(5) by simp
  then show ?thesis
    using assms(2,3) q by (simp add: evict_if_needed_def same_entries_def)
qed

text \<open>A store filled from a snapshot with one entry of 66 bytes, under S3-FIFO with a limit of 80.\<close>

definition fifo_env :: "(bytes, entry) hash_map env" where
  "fifo_env = hash_env (\<lambda>_. 0)
     (small_config\<lparr>memory := (memory small_config)\<lparr>eviction_policy := ''allkeys-s3fifo'', max_memory := 80\<rparr>\<rparr>) 0"

definition one_entry :: entry where
  "one_entry = \<lparr>val = StringV [118], expiry = None, last_accessed = 0, queue_type = 0, access_count = 0\<rparr>"

definition fifo_db :: "(bytes, entry) hash_map db" where
  "fifo_db = snd (load_snapshot bincode fifo_env (store_new fifo_env 1 (\<lambda>_. 0) (\<lambda>_. 0))
     (Some (Inr (snapshot_of bincode 0 [([107], one_entry)]))))"

lemma fifo_env_policy: "policy_of (conf fifo_env) = AllKeysS3Fifo" "memory_limit fifo_env = 80"
proof -
  have "policy_from_str ''allkeys-s3fifo'' = AllKeysS3Fifo" by code_simp
  then show "policy_of (conf fifo_env) = AllKeysS3Fifo" by (simp add: fifo_env_def hash_env_def policy_of_def)
qed (simp add: fifo_env_def hash_env_def)

lemma fifo_db_memory: "memory_used fifo_db = 66"
proof -
  have env: "store_env fifo_env" unfolding fifo_env_def by (rule hash_store.store_env_axioms)
  let ?s = "store_new fifo_env 1 (\<lambda>_. 0) (\<lambda>_. 0)"
  have s0: "store_ok fifo_env ?s" "view fifo_env ?s = Map.empty" "drift fifo_env ?s = 0"
    using store_env.store_new_effect [OF env, of 1 "\<lambda>_. 0" "\<lambda>_. 0"] by (auto simp: drift_def)
  have ps: "\<forall>p \<in> set [([107], one_entry)]. encodable bincode p \<and> entry_ok (snd p)"
    by (simp add: one_entry_def entry_ok_def encodable_def bincode_def to_snapshot_def small_value_def put_value_le_def
        put_vec_def put_option_le_def)
  have "length [([107] :: bytes, one_entry)] < 2 ^ 64" by simp
  from store_env.load_effect [OF env s0(1,2) bincode_ok this ps, of 0] s0(3)
  obtain s' where s': "fifo_db = s'"
      "store_ok fifo_env s'" "view fifo_env s' = loaded_view (clock ?s 0) [([107], one_entry)]"
      "memory_limit fifo_env > 0 \<longrightarrow> drift fifo_env s' = 0"
    by (auto simp: fifo_db_def)
  then have "view fifo_env s' = [[107] \<mapsto> (StringV [118], None)]"
    by (simp add: loaded_view_Cons loaded_view_def one_entry_def expired_def)
  then have "total_size fifo_env s' = 66"
    by (simp add: store_env.total_view [OF env s'(2)] size_of_def)
  then show ?thesis using s' fifo_env_policy(2) by (simp add: drift_def)
qed

theorem snapshot_load_not_evictable_witness: "\<not> fst (evict_if_needed fifo_env fifo_db 60)"
  using snapshot_load_not_evictable [OF _ fifo_env_policy(1), of 1 bincode "\<lambda>_. 0" "\<lambda>_. 0"
      "Some (Inr (snapshot_of bincode 0 [([107], one_entry)]))" _ fifo_db 60]
  by (simp add: fifo_env_policy fifo_db_memory) (simp add: fifo_db_def prod_eq_iff)

end
