(* ===== verification/Commands.thy ===== *)
theory Commands
  imports Redis_Spec Aof Snapshot
begin

text \<open>
  The command dispatcher \<^verbatim>\<open>execute_command\<close> of \<^verbatim>\<open>src/src/main.rs\<close> with the commands it
  handles itself, over the state of the whole process: the store, the counters, the
  append-only file, the snapshot flags and the background jobs that commands start.
\<close>

unbundle bit_operations_syntax

section \<open>Process state\<close>

text \<open>
  What does not change while the server runs: the store's environment, the snapshot
  codec, the comparison \<^verbatim>\<open>ct_eq\<close> of the \<^verbatim>\<open>subtle\<close> crate, the process id and whether a
  tokio runtime is attached to the thread.
\<close>

record 'm host =
  env :: "'m env"
  bin :: codec
  ct_eq :: "bytes \<Rightarrow> bytes \<Rightarrow> bool"
  process_id :: u32
  has_runtime :: bool

datatype job = SaveJob | RewriteJob

text \<open>
  \<open>save_io\<close> are the outcomes of the file operations of the saves to come, \<open>uptimes\<close> the
  readings of \<^verbatim>\<open>START_TIME.elapsed()\<close>, \<open>jobs\<close> the background threads and tasks that were
  started.
\<close>

record 'm server =
  store :: "'m db"
  local_cmd_count :: u64
  total_commands :: u64
  total_connections :: u64
  active_connections :: u64
  rejected_connections :: u64
  aof_handle :: "aof option"
  snapshots :: saver
  save_io :: "nat \<Rightarrow> file_io"
  uptimes :: "nat \<Rightarrow> u64"
  jobs :: "job list"

type_synonym 'm result = "(resp_writer \<times> bool \<times> 'm server) option"

definition aof_log :: "'m server \<Rightarrow> bytes list \<Rightarrow> 'm server" where
  "aof_log st command =
     (case aof_handle st of
        Some a \<Rightarrow> st\<lparr>aof_handle := Some (snd (aof_append a command))\<rparr>
      | None \<Rightarrow> st)"

text \<open>Commands are counted in a thread-local counter that is added to the total in batches of 256.\<close>

definition count_command :: "'m server \<Rightarrow> 'm server" where
  "count_command st =
     (let new_count = local_cmd_count st + 1 in
      if new_count \<ge> 256 then st\<lparr>total_commands := total_commands st + 256, local_cmd_count := 0\<rparr>
      else st\<lparr>local_cmd_count := new_count\<rparr>)"

section \<open>Commands without a handler on the store\<close>

definition handle_auth ::
  "'m host \<Rightarrow> bytes list \<Rightarrow> resp_writer \<Rightarrow> bool \<Rightarrow> resp_writer \<times> bool" where
  "handle_auth H command w auth =
     (let pw = password (security (conf (env H))) in
      if pw = '''' then (fail w ''ERR Client sent AUTH, but no password is set'', auth)
      else if length command < 2 then
        (fail w (''ERR wrong number of arguments for '' @ [CHR 0x27] @ ''auth'' @ [CHR 0x27] @ '' command''), auth)
      else if ct_eq H (command ! 1) (bs pw) then (write_simple_string w (bs ''OK''), True)
      else (fail w ''ERR invalid password'', auth))"

text \<open>
  \<^verbatim>\<open>format_bytes\<close>: \<^verbatim>\<open>{:.2}\<close> of \<^verbatim>\<open>bytes as f64 / 2^k\<close>. The conversion rounds to 53 bits, the
  division by a power of two is exact, and printing rounds the exact value to two
  decimals, ties to even.
\<close>

definition hundredths :: "nat \<Rightarrow> nat \<Rightarrow> nat" where
  "hundredths n k =
     (let p = round53 n * 100; q = p div 2 ^ k; r = p mod 2 ^ k in
      if 2 * r > 2 ^ k \<or> (2 * r = 2 ^ k \<and> odd q) then q + 1 else q)"

definition fixed2 :: "nat \<Rightarrow> bytes" where
  "fixed2 h = dec (h div 100) @ bs ''.'' @ dec (h mod 100 div 10) @ dec (h mod 10)"

definition format_bytes :: "u64 \<Rightarrow> bytes" where
  "format_bytes n =
     (if n \<ge> 1024 * (1024 * 1024) then fixed2 (hundredths (unat n) 30) @ bs ''GB''
      else if n \<ge> 1024 * 1024 then fixed2 (hundredths (unat n) 20) @ bs ''MB''
      else if n \<ge> 1024 then fixed2 (hundredths (unat n) 10) @ bs ''KB''
      else dec (unat n) @ bs ''B'')"

definition info_line :: "string \<Rightarrow> bytes \<Rightarrow> bytes" where
  "info_line name v = bs name @ v @ CRLF"

definition handle_info :: "'m host \<Rightarrow> resp_writer \<Rightarrow> 'm server \<Rightarrow> resp_writer \<times> 'm server" where
  "handle_info H w st =
     (let uptime = uptimes st 0;
          st = st\<lparr>uptimes := (\<lambda>i. uptimes st (Suc i))\<rparr>;
          db_size = store_len (env H) (store st);
          max_mem = memory_limit (env H);
          info = concat
            [info_line ''# Server'' [], info_line ''redis_version:7.0.0'' [],
             info_line ''redis_mode:standalone'' [], info_line ''os:Redistill'' [],
             info_line ''arch_bits:64'' [], info_line ''process_id:'' (dec (unat (process_id H))),
             info_line ''uptime_in_seconds:'' (dec (unat uptime)), CRLF,
             info_line ''# Clients'' [],
             info_line ''connected_clients:'' (dec (unat (active_connections st))), CRLF,
             info_line ''# Memory'' [],
             info_line ''used_memory:'' (dec (unat (memory_used (store st)))),
             info_line ''used_memory_human:'' (format_bytes (memory_used (store st))),
             info_line ''maxmemory:'' (dec (unat max_mem)),
             info_line ''maxmemory_human:'' (if max_mem > 0 then format_bytes max_mem else bs ''unlimited''),
             info_line ''maxmemory_policy:'' (bs (policy_as_str (policy_of (conf (env H))))),
             info_line ''evicted_keys:'' (dec (unat (evicted_keys (store st)))), CRLF,
             info_line ''# Stats'' [],
             info_line ''total_connections_received:'' (dec (unat (total_connections st))),
             info_line ''total_commands_processed:'' (dec (unat (total_commands st))),
             info_line ''rejected_connections:'' (dec (unat (rejected_connections st))), CRLF,
             info_line ''# Keyspace'' [],
             info_line ''db0:keys='' (dec db_size @ bs '',expires=0,avg_ttl=0'')]
      in (write_bulk_string w info, st))"

definition handle_save :: "'m host \<Rightarrow> resp_writer \<Rightarrow> 'm server \<Rightarrow> resp_writer \<times> 'm server" where
  "handle_save H w st =
     (if \<not> enabled (persistence (conf (env H))) then (fail w ''persistence is disabled'', st)
      else
        let (result, s, p) = save_snapshot_sync (bin H) (env H) (store st) (snapshots st) (save_io st 0);
            st = st\<lparr>store := s, snapshots := p, save_io := (\<lambda>i. save_io st (Suc i))\<rparr>
        in (case result of
              Inr count \<Rightarrow> write_simple_string w (bs ''OK'')
            | Inl e \<Rightarrow> write_error w e, st))"

text \<open>The thread that \<^verbatim>\<open>BGSAVE\<close> starts is a job: \<open>run_save_job\<close> is its body.\<close>

definition handle_bgsave :: "'m host \<Rightarrow> resp_writer \<Rightarrow> 'm server \<Rightarrow> resp_writer \<times> 'm server" where
  "handle_bgsave H w st =
     (if \<not> enabled (persistence (conf (env H))) then (fail w ''persistence is disabled'', st)
      else
        let was_saving = save_in_progress (snapshots st);
            st = st\<lparr>snapshots := (snapshots st)\<lparr>save_in_progress := True\<rparr>\<rparr>
        in if was_saving then (fail w ''Background save already in progress'', st)
           else (write_simple_string w (bs ''Background saving started''), st\<lparr>jobs := jobs st @ [SaveJob]\<rparr>))"

definition run_save_job :: "'m host \<Rightarrow> 'm server \<Rightarrow> 'm server" where
  "run_save_job H st =
     (let st = st\<lparr>snapshots := (snapshots st)\<lparr>save_in_progress := False\<rparr>\<rparr>;
          (result, s, p) = save_snapshot_sync (bin H) (env H) (store st) (snapshots st) (save_io st 0)
      in st\<lparr>store := s, snapshots := p, save_io := (\<lambda>i. save_io st (Suc i))\<rparr>)"

definition handle_bgrewriteaof :: "'m host \<Rightarrow> resp_writer \<Rightarrow> 'm server \<Rightarrow> resp_writer \<times> 'm server" where
  "handle_bgrewriteaof H w st =
     (case aof_handle st of
        None \<Rightarrow> (fail w ''AOF is disabled'', st)
      | Some a \<Rightarrow>
          if rewrite_in_progress a then
            (fail w ''Background append only file rewriting already in progress'', st)
          else if has_runtime H then
            (write_simple_string w (bs ''Background append only file rewriting started''),
             st\<lparr>jobs := jobs st @ [RewriteJob]\<rparr>)
          else (fail w ''internal error: no tokio runtime'', st))"

definition run_rewrite_job :: "'m host \<Rightarrow> 'm server \<Rightarrow> 'm server" where
  "run_rewrite_job H st =
     (case aof_handle st of
        None \<Rightarrow> st
      | Some a \<Rightarrow> (let (result, a, s) = aof_rewrite (env H) (store st) a
                 in st\<lparr>aof_handle := Some a, store := s\<rparr>))"

section \<open>Dispatch\<close>

text \<open>\<open>cmd[..3]\<close> and the fourth letter, compared ignoring case.\<close>

definition is_cmd4 :: "bytes \<Rightarrow> string \<Rightarrow> bool" where
  "is_cmd4 cmd name \<longleftrightarrow>
     eq_ignore_case_3 (take 3 cmd) (take 3 (bs name)) \<and> (cmd ! 3 OR 0x20) = bs name ! 3"

definition lowered :: "bytes \<Rightarrow> bytes" where
  "lowered cmd = map (\<lambda>b. b OR 0x20) cmd"

definition requires_auth :: "bytes \<Rightarrow> bool" where
  "requires_auth cmd \<longleftrightarrow>
     \<not> (length cmd = 4 \<and> is_cmd4 cmd ''auth'') \<and> \<not> (length cmd = 4 \<and> is_cmd4 cmd ''ping'')"

definition on_store :: "'m server \<Rightarrow> bool \<Rightarrow> resp_writer \<times> 'm db \<Rightarrow> 'm result" where
  "on_store st auth = (\<lambda>(w, s). Some (w, auth, st\<lparr>store := s\<rparr>))"

definition on_server :: "bool \<Rightarrow> resp_writer \<times> 'm server \<Rightarrow> 'm result" where
  "on_server auth = (\<lambda>(w, st). Some (w, auth, st))"

definition logged :: "bytes list \<Rightarrow> 'm result \<Rightarrow> 'm result" where
  "logged command = map_option (\<lambda>(w, auth, st). (w, auth, aof_log st command))"

definition unknown_command :: "resp_writer \<Rightarrow> bool \<Rightarrow> 'm server \<Rightarrow> 'm result" where
  "unknown_command w auth st = Some (fail w ''unknown command'', auth, st)"

definition execute_3 ::
  "'m host \<Rightarrow> 'm server \<Rightarrow> bytes list \<Rightarrow> resp_writer \<Rightarrow> bool \<Rightarrow> u64 \<Rightarrow> 'm result" where
  "execute_3 H st command w auth now =
     (let E = env H; s = store st; cmd = command ! 0 in
      if eq_ignore_case_3 cmd (bs ''set'') then logged command (on_store st auth (handle_set E s command w now))
      else if eq_ignore_case_3 cmd (bs ''ttl'') then on_store st auth (handle_ttl E s command w now)
      else if eq_ignore_case_3 cmd (bs ''get'') then
        (if length command \<ge> 2 then
           let (v, s) = store_get E s (command ! 1) now in on_store st auth (write_value w v, s)
         else Some (fail w wrong_arguments, auth, st))
      else if eq_ignore_case_3 cmd (bs ''del'') then
        (if length command \<ge> 2 then
           let (count, s) = store_delete E s (tl command) now
           in logged command (on_store st auth (write_integer w (of_nat count), s))
         else Some (fail w wrong_arguments, auth, st))
      else unknown_command w auth st)"

definition execute_4 ::
  "'m host \<Rightarrow> 'm server \<Rightarrow> bytes list \<Rightarrow> resp_writer \<Rightarrow> bool \<Rightarrow> u64 \<Rightarrow> 'm result" where
  "execute_4 H st command w auth now =
     (let E = env H; s = store st; cmd = command ! 0; lower = lowered cmd in
      if is_cmd4 cmd ''ping'' then Some (write_simple_string w (bs ''PONG''), auth, st)
      else if is_cmd4 cmd ''keys'' then Some (write_array w (store_keys E s now), auth, st)
      else if is_cmd4 cmd ''save'' then on_server auth (handle_save H w st)
      else if is_cmd4 cmd ''incr'' then logged command (on_store st auth (handle_incr E s command w now 1))
      else if is_cmd4 cmd ''decr'' then logged command (on_store st auth (handle_incr E s command w now (- 1)))
      else if is_cmd4 cmd ''pttl'' then on_store st auth (handle_pttl E s command w now)
      else if is_cmd4 cmd ''mget'' then on_store st auth (handle_mget E s command w now)
      else if is_cmd4 cmd ''mset'' then logged command (on_store st auth (handle_mset E s command w now))
      else if is_cmd4 cmd ''auth'' then (let (w, auth) = handle_auth H command w auth in Some (w, auth, st))
      else if is_cmd4 cmd ''info'' then on_server auth (handle_info H w st)
      else if lower = bs ''scan'' then Option.bind (handle_scan E s command w now) (on_store st auth)
      else if lower = bs ''hset'' then
        logged command (Option.bind (handle_hset E s command w now) (on_store st auth))
      else if lower = bs ''hget'' then on_store st auth (handle_hget E s command w now)
      else if lower = bs ''hdel'' then logged command (on_store st auth (handle_hdel E s command w now))
      else if lower = bs ''type'' then
        (if length command < 2 then Some (fail w wrong_arguments, auth, st)
         else let (t, s) = key_type E s (command ! 1) now in on_store st auth (write_simple_string w (bs t), s))
      else unknown_command w auth st)"

definition execute_6 ::
  "'m host \<Rightarrow> 'm server \<Rightarrow> bytes list \<Rightarrow> resp_writer \<Rightarrow> bool \<Rightarrow> u64 \<Rightarrow> 'm result" where
  "execute_6 H st command w auth now =
     (let E = env H; s = store st; cmd = command ! 0 in
      if eq_ignore_case_6 cmd (bs ''exists'') then
        (if length command \<ge> 2 then Some (write_integer w (of_nat (store_exists E s (tl command) now)), auth, st)
         else Some (fail w wrong_arguments, auth, st))
      else if eq_ignore_case_6 cmd (bs ''bgsave'') then on_server auth (handle_bgsave H w st)
      else if eq_ignore_case_6 cmd (bs ''dbsize'') then Some (write_integer w (of_nat (store_len E s)), auth, st)
      else if eq_ignore_case_6 cmd (bs ''config'') then Some (write_array w [], auth, st)
      else if eq_ignore_case_6 cmd (bs ''incrby'') then logged command (on_store st auth (handle_incrby E s command w now))
      else if eq_ignore_case_6 cmd (bs ''decrby'') then logged command (on_store st auth (handle_decrby E s command w now))
      else if eq_ignore_case_6 cmd (bs ''expire'') then logged command (on_store st auth (handle_expire E s command w now))
      else unknown_command w auth st)"

definition execute_7 ::
  "'m host \<Rightarrow> 'm server \<Rightarrow> bytes list \<Rightarrow> resp_writer \<Rightarrow> bool \<Rightarrow> u64 \<Rightarrow> 'm result" where
  "execute_7 H st command w auth now =
     (let E = env H; s = store st; lower = lowered (command ! 0) in
      if lower = bs ''flushdb'' then on_store st auth (write_simple_string w (bs ''OK''), flush_store E s)
      else if lower = bs ''command'' then Some (write_array w [], auth, st)
      else if lower = bs ''persist'' then logged command (on_store st auth (handle_persist E s command w now))
      else if lower = bs ''hgetall'' then on_store st auth (handle_hgetall E s command w now)
      else unknown_command w auth st)"

definition execute_8 ::
  "'m host \<Rightarrow> 'm server \<Rightarrow> bytes list \<Rightarrow> resp_writer \<Rightarrow> bool \<Rightarrow> 'm result" where
  "execute_8 H st command w auth =
     (let lower = lowered (command ! 0) in
      if lower = bs ''lastsave'' then Some (write_integer w (last_save_time (snapshots st)), auth, st)
      else if lower = bs ''flushall'' then on_store st auth (write_simple_string w (bs ''OK''), flush_store (env H) (store st))
      else unknown_command w auth st)"

definition execute_command ::
  "'m host \<Rightarrow> 'm server \<Rightarrow> bytes list \<Rightarrow> resp_writer \<Rightarrow> bool \<Rightarrow> u64 \<Rightarrow> 'm result" where
  "execute_command H st command w auth now =
     (let st = count_command st in
      if command = [] then Some (fail w ''empty command'', auth, st)
      else
        let cmd = command ! 0 in
        if requires_auth cmd \<and> \<not> auth then Some (fail w ''NOAUTH Authentication required'', auth, st)
        else if length cmd = 3 then execute_3 H st command w auth now
        else if length cmd = 4 then execute_4 H st command w auth now
        else if length cmd = 6 then execute_6 H st command w auth now
        else if length cmd = 7 then execute_7 H st command w auth now
        else if length cmd = 8 then execute_8 H st command w auth
        else if length cmd = 12 then
          (if lowered cmd = bs ''bgrewriteaof'' then on_server auth (handle_bgrewriteaof H w st)
           else unknown_command w auth st)
        else unknown_command w auth st)"

section \<open>Command names\<close>

lemma bs_inject [simp]: "bs s = bs t \<longleftrightarrow> s = t"
proof -
  have "inj (of_char :: char \<Rightarrow> u8)"
  proof (rule injI)
    fix c d :: char
    assume "(of_char c :: u8) = of_char d"
    then have "unat (of_nat (of_char c) :: u8) = unat (of_nat (of_char d) :: u8)"
      by (simp only: of_nat_of_char)
    then have "(of_char c :: nat) mod 256 = of_char d mod 256" by (simp add: unat_of_nat)
    then have "(of_char c :: nat) = of_char d" by simp
    then show "c = d" by simp
  qed
  then show ?thesis unfolding bs_def by (rule inj_map_eq_map)
qed

lemma length_lowered [simp]: "length (lowered cmd) = length cmd"
  by (simp add: lowered_def)

text \<open>All the ways in which the dispatcher compares names come to the same.\<close>

lemma length_3: "length xs = 3 \<longleftrightarrow> (\<exists>a b c. xs = [a, b, c])"
  by (auto simp: numeral_3_eq_3 length_Suc_conv)

lemma length_4: "length xs = 4 \<longleftrightarrow> (\<exists>a b c d. xs = [a, b, c, d])"
  by (auto simp: numeral_eq_Suc length_Suc_conv)

lemma length_6: "length xs = 6 \<longleftrightarrow> (\<exists>a b c d e f. xs = [a, b, c, d, e, f])"
  by (auto simp: numeral_eq_Suc length_Suc_conv)

lemma is_name_3: "length cmd = 3 \<Longrightarrow> length name = 3 \<Longrightarrow> eq_ignore_case_3 cmd (bs name) \<longleftrightarrow> lowered cmd = bs name"
  unfolding length_3 by (auto simp: eq_ignore_case_3_def lowered_def bs_def)

lemma is_name_4: "length cmd = 4 \<Longrightarrow> length name = 4 \<Longrightarrow> is_cmd4 cmd name \<longleftrightarrow> lowered cmd = bs name"
  unfolding length_4 by (auto simp: is_cmd4_def eq_ignore_case_3_def lowered_def bs_def numeral_3_eq_3)

lemma is_name_6: "length cmd = 6 \<Longrightarrow> length name = 6 \<Longrightarrow> eq_ignore_case_6 cmd (bs name) \<longleftrightarrow> lowered cmd = bs name"
  unfolding length_6 by (auto simp: eq_ignore_case_6_def lowered_def bs_def)

lemma requires_auth_name: "requires_auth cmd \<longleftrightarrow> lowered cmd \<noteq> bs ''auth'' \<and> lowered cmd \<noteq> bs ''ping''"
proof -
  have "lowered cmd = bs n \<Longrightarrow> length cmd = length n" for n by (metis length_bs length_lowered)
  then show ?thesis using is_name_4 [of cmd] by (auto simp: requires_auth_def)
qed

lemma name_length: "length cmd \<noteq> length name \<Longrightarrow> lowered cmd \<noteq> bs name"
  by (metis length_bs length_lowered)

lemmas name_simps = is_name_3 is_name_4 is_name_6

section \<open>What a command may do\<close>

text \<open>
  The commands that are appended to the log, those that change the keyspace without
  being logged, and those that do not keep the memory accounting.
\<close>

definition named :: "string list \<Rightarrow> bytes list \<Rightarrow> bool" where
  "named names command \<longleftrightarrow> command \<noteq> [] \<and> lowered (command ! 0) \<in> bs ` set names"

definition is_logged :: "bytes list \<Rightarrow> bool" where
  "is_logged command \<longleftrightarrow>
     named [''set'', ''incr'', ''decr'', ''mset'', ''hset'', ''hdel'', ''incrby'', ''decrby'', ''expire'', ''persist''] command
     \<or> named [''del''] command \<and> length command \<ge> 2"

definition is_flush :: "bytes list \<Rightarrow> bool" where
  "is_flush command \<longleftrightarrow> named [''flushdb'', ''flushall''] command"

definition replied :: "resp_writer \<Rightarrow> resp_writer \<Rightarrow> bool" where
  "replied w w' \<longleftrightarrow> (\<exists>r. w' = put w (render r))"

definition outcome_ok ::
  "'m host \<Rightarrow> 'm server \<Rightarrow> bytes list \<Rightarrow> resp_writer \<Rightarrow> bool \<Rightarrow> u64 \<Rightarrow> 'm result \<Rightarrow> bool" where
  "outcome_ok H st command w auth now res \<longleftrightarrow>
     (\<exists>w' auth' st'. res = Some (w', auth', st') \<and> replied w w' \<and> store_ok (env H) (store st')
       \<and> (is_flush command \<or> named [''hdel''] command \<or> keeps (env H) (store st) (store st'))
       \<and> (is_flush command \<or> is_logged command
            \<or> keyspace (env H) (store st') now = keyspace (env H) (store st) now)
       \<and> aof_handle st' =
           (if is_logged command then map_option (\<lambda>a. snd (aof_append a command)) (aof_handle st) else aof_handle st)
       \<and> (auth' = auth \<or> named [''auth''] command) \<and> (auth \<longrightarrow> auth'))"

named_theorems replied_intros "every handler writes one reply"

lemma replied_reply [replied_intros]:
  "replied w (write_simple_string w x)" "replied w (write_error w x)" "replied w (write_null w)"
  "replied w (write_integer w n)" "replied w (write_bulk_string w x)" "replied w (write_value w v)"
  "replied w (write_array w xs)"
  by (auto simp: replied_def reply_simps)

lemma answers_replied: "answers b E s now f w res \<Longrightarrow> replied w (fst res)"
  by (auto simp: answers_def replied_def)

lemma replied_incr [replied_intros]: "replied w (fst (handle_incr E s command w now delta))"
proof -
  have "replied w (write_signed_integer w i)" if "i64_checked_add a b = Some i" for a b i
    using that by (auto simp: replied_def i64_checked_add_def write_signed_integer_reply split: if_splits)
  then show ?thesis
    by (auto simp: handle_incr_def Let_def case_prod_beta intro: replied_intros split: sum.split option.split)
qed

lemma replied_incrby [replied_intros]:
  "replied w (fst (handle_incrby E s command w now))" "replied w (fst (handle_decrby E s command w now))"
  by (auto simp: handle_incrby_def handle_decrby_def intro: replied_intros split: option.split)

lemma replied_hgetall [replied_intros]: "replied w (fst (handle_hgetall E s command w now))"
  by (auto simp: handle_hgetall_def case_prod_beta intro: replied_intros split: sum.split)

lemma replied_scan:
  assumes "handle_scan E s command w now = Some (w', s')"
  shows "replied w w'"
proof -
  have "replied w (foldl write_bulk_string (write_array_header (write_bulk_string (write_array_header w 2) x)
      (of_nat (length ks))) ks)" for x ks
    unfolding replied_def
    by (rule exI [of _ "Arr [Bulk x, Arr (map Bulk ks)]"])
      (simp add: write_array_header_put foldl_write_bulk_reply reply_simps render.simps unat_of_nat comp_def,
        simp add: numeral_2_eq_2)
  then show ?thesis
    using assms by (auto simp: handle_scan_def Let_def intro: replied_intros split: if_splits option.splits sum.splits prod.splits)
qed

lemma save_store: "\<exists>c. fst (snd (save_snapshot_sync C E s p io)) = s\<lparr>clock := c\<rparr>"
proof (cases "save_in_progress p")
  case True
  then show ?thesis by (intro exI [of _ "clock s"]) (simp add: save_snapshot_sync_def)
qed (auto simp: save_snapshot_sync_def get_timestamp_def case_prod_beta Let_def)

lemma spec_reads:
  "snd (spec_get now args m) = m" "snd (spec_exists now args m) = m" "snd (spec_type now args m) = m"
  "snd (spec_ttl now args m) = m" "snd (spec_pttl now args m) = m" "snd (spec_mget now args m) = m"
  "snd (spec_hget now args m) = m"
  by (auto simp: spec_get_def spec_exists_def spec_type_def spec_ttl_def spec_pttl_def spec_mget_def spec_hget_def
      error_def split: list.split option.split content.split)

lemma answers_read:
  assumes "answers False E s now f w res" and "\<And>m. snd (f m) = m"
  shows "keyspace E (snd res) now = keyspace E s now"
  using assms by (auto simp: answers_def) (metis snd_conv)

lemma count_command_simps [simp]:
  "store (count_command st) = store st" "aof_handle (count_command st) = aof_handle st"
  by (simp_all add: count_command_def Let_def)

text \<open>Commands run in a process whose store is the environment of the host.\<close>

locale server_env = store_env "env H" for H :: "'m host"
begin

lemma keeps_clock [keeps_intros]: "store_ok (env H) s \<Longrightarrow> keeps (env H) s (s\<lparr>clock := c\<rparr>)"
  using ok_same_entries [of s "s\<lparr>clock := c\<rparr>"] same_entriesD(4) [of s "s\<lparr>clock := c\<rparr>" "env H"]
  by (simp add: keeps_def drift_def)

lemma keyspace_clock [simp]: "keyspace E (s\<lparr>clock := c\<rparr>) = keyspace E s"
  by (rule keyspace_cong) (simp add: same_entriesD(3))

lemma outcome_store:
  assumes "replied w (fst p)" and "keeps (env H) (store st) (snd p)" and "\<not> is_logged command"
    and "keyspace (env H) (snd p) now = keyspace (env H) (store st) now"
  shows "outcome_ok H st command w auth now (on_store st auth p)"
  using assms keeps_ok [OF assms(2)] by (simp add: outcome_ok_def on_store_def case_prod_beta)

lemma outcome_logged:
  assumes "replied w (fst p)" and "is_logged command" and "store_ok (env H) (snd p)"
    and "named [''hdel''] command \<or> keeps (env H) (store st) (snd p)"
  shows "outcome_ok H st command w auth now (logged command (on_store st auth p))"
  using assms by (auto simp: outcome_ok_def on_store_def logged_def case_prod_beta aof_log_def split: option.split)

lemma outcome_reply:
  assumes "replied w w'" and "store_ok (env H) (store st)" and "\<not> is_logged command"
  shows "outcome_ok H st command w auth now (Some (w', auth, st))"
  using assms by (simp add: outcome_ok_def)

lemma outcome_server:
  assumes "replied w (fst p)" and "store_ok (env H) (store st)" and "\<not> is_logged command"
    and "\<exists>c. store (snd p) = (store st)\<lparr>clock := c\<rparr>" and "aof_handle (snd p) = aof_handle st"
  shows "outcome_ok H st command w auth now (on_server auth p)"
proof -
  obtain c where "store (snd p) = (store st)\<lparr>clock := c\<rparr>" using assms(4) by blast
  then show ?thesis
    using assms keeps_clock [OF assms(2), of c] keeps_ok [OF keeps_clock [OF assms(2), of c]]
    by (simp add: outcome_ok_def on_server_def case_prod_beta)
qed

lemma outcome_if:
  "(b \<Longrightarrow> outcome_ok H st command w auth now x) \<Longrightarrow> (\<not> b \<Longrightarrow> outcome_ok H st command w auth now y)
   \<Longrightarrow> outcome_ok H st command w auth now (if b then x else y)"
  by simp

lemma outcome_3:
  assumes ok: "store_ok (env H) (store st)" and len: "length c = 3"
  shows "outcome_ok H st (c # args) w auth now (execute_3 H st (c # args) w auth now)"
proof -
  let ?E = "env H" and ?s = "store st"
  have get: "keyspace ?E (snd (store_get ?E ?s k now)) now = keyspace ?E ?s now" for k
    using store_get_effect(2) [OF ok, of k now] by simp
  note intros = outcome_if outcome_store outcome_logged outcome_reply replied_intros
    keeps_intros keeps_ok [OF keeps_handle_set] keeps_ok [OF keeps_store_delete] ok
    answers_replied [OF answers_set [OF ok]] answers_replied [OF answers_ttl [OF ok]]
    answers_read [OF answers_ttl [OF ok] spec_reads(4)] get
  show ?thesis
    unfolding execute_3_def Let_def case_prod_beta unknown_command_def nth_Cons_0 list.sel
    using len by (intro intros) (auto simp: is_logged_def named_def name_simps name_length intro: intros)
qed

lemma outcome_option:
  assumes "\<exists>p. r = Some p \<and> outcome_ok H st command w auth now (f p)"
  shows "outcome_ok H st command w auth now (Option.bind r f)"
  using assms by auto

lemma outcome_scan:
  assumes "store_ok (env H) (store st)" and "\<not> is_logged command"
  shows "outcome_ok H st command w auth now
    (Option.bind (handle_scan (env H) (store st) command w now) (on_store st auth))"
proof (rule outcome_option)
  obtain w' where w': "handle_scan (env H) (store st) command w now = Some (w', store st)"
    using handle_scan_returns by blast
  with outcome_store [of w "(w', store st)" st command now auth] replied_scan [OF w'] assms
  show "\<exists>p. handle_scan (env H) (store st) command w now = Some p
      \<and> outcome_ok H st command w auth now (on_store st auth p)" by simp
qed

lemma outcome_hset:
  assumes "store_ok (env H) (store st)" and "is_logged (c # args)"
  shows "outcome_ok H st (c # args) w auth now
    (logged (c # args) (Option.bind (handle_hset (env H) (store st) (c # args) w now) (on_store st auth)))"
proof -
  obtain p where p: "handle_hset (env H) (store st) (c # args) w now = Some p"
      "answers False (env H) (store st) now (spec_hset now args) w p"
    using answers_hset [OF assms(1), of c args w now False] by blast
  moreover have "keeps (env H) (store st) (snd p)"
    using handle_hset_returns [OF assms(1), of "c # args" w now] p(1) by auto
  ultimately show ?thesis
    using outcome_logged [of w p "c # args" st auth now] answers_replied [OF p(2)] assms(2) by (simp add: keeps_ok)
qed

lemma outcome_auth:
  assumes "store_ok (env H) (store st)" and "named [''auth''] command"
  shows "outcome_ok H st command w auth now 
    (Some (fst (handle_auth H command w auth), snd (handle_auth H command w auth), st))"
proof -
  have "replied w (fst (handle_auth H command w auth))" "auth \<longrightarrow> snd (handle_auth H command w auth)"
    by (simp_all add: handle_auth_def Let_def replied_intros)
  moreover have "\<not> is_logged command" using assms(2) by (auto simp: is_logged_def named_def)
  ultimately show ?thesis using assms by (simp add: outcome_ok_def)
qed

lemma server_commands:
  "replied w (fst (handle_save H w st))" "\<exists>c. store (snd (handle_save H w st)) = (store st)\<lparr>clock := c\<rparr>"
  "aof_handle (snd (handle_save H w st)) = aof_handle st"
  "replied w (fst (handle_bgsave H w st))" "\<exists>c. store (snd (handle_bgsave H w st)) = (store st)\<lparr>clock := c\<rparr>"
  "aof_handle (snd (handle_bgsave H w st)) = aof_handle st"
  "replied w (fst (handle_info H w st))" "\<exists>c. store (snd (handle_info H w st)) = (store st)\<lparr>clock := c\<rparr>"
  "aof_handle (snd (handle_info H w st)) = aof_handle st"
  "replied w (fst (handle_bgrewriteaof H w st))"
  "\<exists>c. store (snd (handle_bgrewriteaof H w st)) = (store st)\<lparr>clock := c\<rparr>"
  "aof_handle (snd (handle_bgrewriteaof H w st)) = aof_handle st"
proof -
  have self: "\<exists>c. store st = (store st)\<lparr>clock := c\<rparr>" by (rule exI [of _ "clock (store st)"]) simp
  show "replied w (fst (handle_save H w st))" "aof_handle (snd (handle_save H w st)) = aof_handle st"
    by (simp_all add: handle_save_def case_prod_beta Let_def replied_intros split: sum.split)
  show "\<exists>c. store (snd (handle_save H w st)) = (store st)\<lparr>clock := c\<rparr>"
    using self save_store [of "bin H" "env H" "store st" "snapshots st" "save_io st 0"]
    by (simp add: handle_save_def case_prod_beta Let_def)
  show "replied w (fst (handle_bgsave H w st))" "aof_handle (snd (handle_bgsave H w st)) = aof_handle st"
      "\<exists>c. store (snd (handle_bgsave H w st)) = (store st)\<lparr>clock := c\<rparr>"
    using self by (simp_all add: handle_bgsave_def Let_def replied_intros)
  show "replied w (fst (handle_info H w st))" "aof_handle (snd (handle_info H w st)) = aof_handle st"
      "\<exists>c. store (snd (handle_info H w st)) = (store st)\<lparr>clock := c\<rparr>"
    using self by (simp_all only: handle_info_def Let_def fst_conv snd_conv replied_intros) simp_all
  show "replied w (fst (handle_bgrewriteaof H w st))" "aof_handle (snd (handle_bgrewriteaof H w st)) = aof_handle st"
      "\<exists>c. store (snd (handle_bgrewriteaof H w st)) = (store st)\<lparr>clock := c\<rparr>"
    using self by (simp_all add: handle_bgrewriteaof_def replied_intros split: option.split)
qed

lemma keeps_key_type [keeps_intros]: "store_ok (env H) s \<Longrightarrow> keeps (env H) s (snd (key_type (env H) s k now))"
  using key_type_effect(3,4) [of s k now] by (simp add: keeps_def)

lemma hgetall_keyspace:
  "store_ok (env H) s \<Longrightarrow> keyspace (env H) (snd (handle_hgetall (env H) s command w now)) now = keyspace (env H) s now"
  using hgetall_effect(2) [of s "command ! 1" now]
  by (auto simp: handle_hgetall_def case_prod_beta split: sum.split)

lemma outcome_4:
  assumes ok: "store_ok (env H) (store st)" and len: "length c = 4"
  shows "outcome_ok H st (c # args) w auth now (execute_4 H st (c # args) w auth now)"
proof -
  note intros = outcome_if outcome_store outcome_logged outcome_reply outcome_server outcome_scan outcome_hset
    outcome_auth server_commands replied_intros keeps_intros keeps_ok [OF keeps_handle_incr] keeps_ok [OF keeps_handle_mset]
    ok_handle_hdel ok hgetall_keyspace key_type_effect(2)
    answers_replied [OF answers_mset [OF ok]] answers_replied [OF answers_hdel [OF ok]]
    answers_replied [OF answers_pttl [OF ok]] answers_read [OF answers_pttl [OF ok] spec_reads(5)]
    answers_replied [OF answers_mget [OF ok]] answers_read [OF answers_mget [OF ok] spec_reads(6)]
    answers_replied [OF answers_hget [OF ok]] answers_read [OF answers_hget [OF ok] spec_reads(7)]
  show ?thesis
    unfolding execute_4_def Let_def case_prod_beta unknown_command_def nth_Cons_0
    using len by (intro intros) (auto simp: is_logged_def named_def name_simps name_length intro: intros)
qed

lemma outcome_6:
  assumes ok: "store_ok (env H) (store st)" and len: "length c = 6"
  shows "outcome_ok H st (c # args) w auth now (execute_6 H st (c # args) w auth now)"
proof -
  note intros = outcome_if outcome_store outcome_logged outcome_reply outcome_server
    server_commands replied_intros keeps_intros keeps_ok [OF keeps_handle_incrby(1)] keeps_ok [OF keeps_handle_incrby(2)]
    keeps_ok [OF keeps_handle_expire] ok answers_replied [OF answers_expire [OF ok]]
  show ?thesis
    unfolding execute_6_def Let_def unknown_command_def nth_Cons_0
    using len by (intro intros) (auto simp: is_logged_def named_def name_simps name_length intro: intros)
qed

lemma flush_effect:
  assumes "store_ok (env H) s"
  shows "store_ok (env H) (flush_store (env H) s)" and "view (env H) (flush_store (env H) s) = Map.empty"
    and "keyspace (env H) (flush_store (env H) s) now = Map.empty"
proof -
  let ?s = "s\<lparr>clock := (\<lambda>i. clock s (Suc i))\<rparr>"
  have ok: "store_ok (env H) ?s" using keeps_ok [OF keeps_clock [OF assms]] .
  obtain m where f: "flush_store (env H) s = (store_clear (env H) ?s)\<lparr>memory_used := m\<rparr>"
    by (simp add: flush_store_def get_timestamp_def Let_def)
  have same: "same_entries (store_clear (env H) ?s) (flush_store (env H) s)"
    by (simp add: f same_entries_def)
  show "store_ok (env H) (flush_store (env H) s)"
    using ok_same_entries [OF store_clear_effect(1) [OF ok] same] by (simp add: f)
  show v: "view (env H) (flush_store (env H) s) = Map.empty"
    using store_clear_effect(2) [OF ok] by (simp add: same_entriesD(3) [OF same] fun_eq_iff)
  show "keyspace (env H) (flush_store (env H) s) now = Map.empty"
    by (simp add: keyspace_def v fun_eq_iff)
qed

lemma outcome_flush:
  assumes "store_ok (env H) (store st)" and "is_flush command" and "\<not> is_logged command"
  shows "outcome_ok H st command w auth now (on_store st auth (write_simple_string w x, flush_store (env H) (store st)))"
  using assms flush_effect(1) [OF assms(1)] by (simp add: outcome_ok_def on_store_def replied_intros)

lemma outcome_7:
  assumes ok: "store_ok (env H) (store st)" and len: "length c = 7"
  shows "outcome_ok H st (c # args) w auth now (execute_7 H st (c # args) w auth now)"
proof -
  note intros = outcome_if outcome_store outcome_logged outcome_reply outcome_flush replied_intros
    keeps_intros keeps_ok [OF keeps_handle_persist] ok answers_replied [OF answers_persist [OF ok]] hgetall_keyspace
  show ?thesis
    unfolding execute_7_def Let_def unknown_command_def nth_Cons_0
    using len by (intro intros) (auto simp: is_logged_def is_flush_def named_def name_length intro: intros)
qed

lemma outcome_8:
  assumes ok: "store_ok (env H) (store st)" and len: "length c = 8"
  shows "outcome_ok H st (c # args) w auth now (execute_8 H st (c # args) w auth)"
proof -
  note intros = outcome_if outcome_reply outcome_flush replied_intros ok
  show ?thesis
    unfolding execute_8_def Let_def unknown_command_def nth_Cons_0
    using len by (intro intros) (auto simp: is_logged_def is_flush_def named_def name_length intro: intros)
qed

lemma outcome_count: "outcome_ok H (count_command st) command w auth now res \<longleftrightarrow> outcome_ok H st command w auth now res"
  by (simp add: outcome_ok_def)

lemma execute_outcome:
  assumes ok: "store_ok (env H) (store st)" and auth: "auth"
  shows "outcome_ok H st command w auth now (execute_command H st command w auth now)"
proof (cases command)
  case Nil
  then show ?thesis
    using ok by (simp add: execute_command_def Let_def outcome_ok_def replied_intros is_logged_def named_def)
next
  case (Cons c args)
  let ?st = "count_command st"
  have ok': "store_ok (env H) (store ?st)" using ok by simp
  have len: "length c \<in> {3, 4, 6, 7}" if "is_logged (c # args)"
    using that by (auto simp: is_logged_def named_def dest!: arg_cong [where f = length])
  have "outcome_ok H ?st (c # args) w auth now (execute_command H st (c # args) w auth now)"
    unfolding execute_command_def Let_def unknown_command_def nth_Cons_0
    using auth outcome_3 [OF ok', of c args w auth now] outcome_4 [OF ok', of c args w auth now]
      outcome_6 [OF ok', of c args w auth now] outcome_7 [OF ok', of c args w auth now]
      outcome_8 [OF ok', of c args w auth now]
    by (auto intro!: outcome_server outcome_reply server_commands replied_intros ok dest: len)
  then show ?thesis by (simp add: Cons outcome_count)
qed

lemma unauthenticated:
  assumes "\<not> auth"
  shows "execute_command H st command w auth now =
    (if command = [] then Some (fail w ''empty command'', auth, count_command st)
     else if named [''auth''] command then
       Some (fst (handle_auth H command w auth), snd (handle_auth H command w auth), count_command st)
     else if named [''ping''] command then Some (write_simple_string w (bs ''PONG''), auth, count_command st)
     else Some (fail w ''NOAUTH Authentication required'', auth, count_command st))"
proof (cases command)
  case (Cons c args)
  have "lowered c = bs n \<Longrightarrow> length c = length n" for n by (metis length_bs length_lowered)
  then show ?thesis
    using assms by (auto simp: Cons execute_command_def execute_4_def requires_auth_name named_def name_simps Let_def case_prod_beta)
qed (simp add: execute_command_def Let_def)

text \<open>Logged in or not, a command returns with one reply and a good store.\<close>

lemma execute_any:
  assumes ok: "store_ok (env H) (store st)"
  shows "\<exists>r auth' st'. execute_command H st command w auth now = Some (put w (render r), auth', st')
    \<and> store_ok (env H) (store st') \<and> (aof_handle st = None \<longrightarrow> aof_handle st' = None)
    \<and> (is_flush command \<or> named [''hdel''] command \<or> keeps (env H) (store st) (store st'))"
proof (cases auth)
  case True
  then show ?thesis
    using execute_outcome [OF ok True, of command w now] by (auto simp: outcome_ok_def replied_def)
next
  case False
  have "replied w (fst (handle_auth H command w auth))" by (simp add: handle_auth_def Let_def replied_intros)
  then have "\<exists>r auth'. execute_command H st command w auth now = Some (put w (render r), auth', count_command st)"
    unfolding unauthenticated [OF False] using replied_intros by (auto simp: replied_def)
  then show ?thesis using ok by auto
qed

section \<open>Implementation of the specification\<close>

lemma answers_get:
  assumes "store_ok (env H) s"
  shows "answers b (env H) s now (spec_get now (k # args)) w
    (write_value w (fst (store_get (env H) s k now)), snd (store_get (env H) s k now))"
  using store_get_effect(1,2) [OF assms, of k now]
  by (intro answersI [of _ _ "reply_value (string_of (keyspace (env H) s now) k)"])
    (auto simp: spec_get_def write_value_reply string_of_def split: option.split content.split)

lemma answers_del:
  assumes "store_ok (env H) s" and "args \<noteq> []"
  shows "answers b (env H) s now (spec_del now args) w
    (write_integer w (of_nat (fst (store_delete (env H) s args now))), snd (store_delete (env H) s args now))"
proof (rule answersI)
  show "spec_del now args (keyspace (env H) s now) =
      (count_reply (card {k \<in> set args. keyspace (env H) s now k \<noteq> None}),
       keyspace (env H) (snd (write_integer w (of_nat (fst (store_delete (env H) s args now))),
         snd (store_delete (env H) s args now))) now)"
    using store_delete_effect [OF assms(1), of args now] assms(2)
    by (auto simp: spec_del_def keyspace_def restrict_map_def fun_eq_iff)
  show "fst (write_integer w (of_nat (fst (store_delete (env H) s args now))), snd (store_delete (env H) s args now)) =
      put w (render (count_reply (card {k \<in> set args. keyspace (env H) s now k \<noteq> None})))"
    using store_delete_effect [OF assms(1), of args now] by (simp add: write_count_reply)
qed

lemma answers_exists:
  "args \<noteq> [] \<Longrightarrow> answers b (env H) s now (spec_exists now args) w (write_integer w (of_nat (store_exists (env H) s args now)), s)"
  by (rule answersI) (simp_all add: spec_exists_def write_count_reply store_exists_effect)

lemma answers_type:
  assumes "store_ok (env H) s"
  shows "answers b (env H) s now (spec_type now (k # args)) w
    (write_simple_string w (bs (fst (key_type (env H) s k now))), snd (key_type (env H) s k now))"
  using key_type_effect(1,2) [OF assms, of k now]
  by (intro answersI) (auto simp: spec_type_def write_simple_string_reply)

end

text \<open>
  The data commands: name, whether the command may evict keys to make room, and what
  it does to the keyspace.
\<close>

definition command_table :: "u64 \<Rightarrow> (string \<times> bool \<times> (bytes list \<Rightarrow> ks \<Rightarrow> reply \<times> ks)) list" where
  "command_table now =
     [(''set'', True, spec_set now), (''get'', False, spec_get now), (''del'', False, spec_del now),
      (''ttl'', False, spec_ttl now), (''pttl'', False, spec_pttl now), (''exists'', False, spec_exists now),
      (''type'', False, spec_type now), (''expire'', False, spec_expire now), (''persist'', False, spec_persist now),
      (''incr'', True, spec_add 1 now), (''decr'', True, spec_add (- 1) now),
      (''incrby'', True, spec_incrby 1 now), (''decrby'', True, spec_incrby (- 1) now),
      (''mget'', False, spec_mget now), (''mset'', True, spec_mset now),
      (''hset'', False, spec_hset now), (''hget'', False, spec_hget now), (''hdel'', False, spec_hdel now),
      (''ping'', False, (\<lambda>args m. (Simple (bs ''PONG''), m))),
      (''flushdb'', False, (\<lambda>args m. (Simple (bs ''OK''), Map.empty))),
      (''flushall'', False, (\<lambda>args m. (Simple (bs ''OK''), Map.empty)))]"

definition counter_names :: "string list" where
  "counter_names = [''incr'', ''decr'', ''incrby'', ''decrby'']"

text \<open>\<open>implements\<close>: the result of a command answers \<open>f\<close> and leaves the login state.\<close>

definition implements ::
  "bool \<Rightarrow> 'm env \<Rightarrow> 'm db \<Rightarrow> u64 \<Rightarrow> (ks \<Rightarrow> reply \<times> ks) \<Rightarrow> resp_writer \<Rightarrow> bool \<Rightarrow> 'm result \<Rightarrow> bool" where
  "implements evicting E s now f w auth res \<longleftrightarrow>
     (\<exists>w' st'. res = Some (w', auth, st') \<and> answers evicting E s now f w (w', store st'))"

lemma store_aof_log [simp]: "store (aof_log st command) = store st"
  by (simp add: aof_log_def split: option.split)

lemma implements_store:
  assumes "answers b E s now f w p"
  shows "implements b E s now f w auth (on_store st auth p)"
    and "implements b E s now f w auth (logged command (on_store st auth p))"
  using assms by (simp_all add: implements_def on_store_def logged_def case_prod_beta)

lemma implements_reply: "answers b E (store st) now f w (w', store st) \<Longrightarrow> implements b E (store st) now f w auth (Some (w', auth, st))"
  by (simp add: implements_def)

lemmas dispatch_simps = command_table_def name_simps Let_def case_prod_beta

context server_env
begin

lemma answers_fail:
  "f (keyspace (env H) s now) = error msg (keyspace (env H) s now) \<Longrightarrow> answers b (env H) s now f w (fail w msg, s)"
  by (rule answersI [of _ _ "Error (bs msg)"]) (simp_all add: write_error_reply error_def)

lemma implements_3:
  assumes ok: "store_ok (env H) (store st)" and len: "length c = 3" and "(name, b, f) \<in> set (command_table now)"
    and "lowered c = bs name"
  shows "implements b (env H) (store st) now (f args) w auth (execute_3 H st (c # args) w auth now)"
proof -
  have n: "length name = 3" using assms(2,4) by (metis length_bs length_lowered)
  consider "name = ''set''" | "name = ''get''" | "name = ''del''" | "name = ''ttl''"
    using assms(3) n by (auto simp: command_table_def)
  then show ?thesis
  proof cases
    case 2
    then show ?thesis
      using assms answers_get [OF ok] answers_fail [of "spec_get now []" "store st" now wrong_arguments False w]
      by (cases args) (auto simp: execute_3_def dispatch_simps spec_get_def
          intro!: implements_store implements_reply)
  next
    case 3
    then show ?thesis
      using assms answers_del [OF ok] answers_fail [of "spec_del now []" "store st" now wrong_arguments False w]
      by (cases "args = []") (auto simp: execute_3_def dispatch_simps spec_del_def Suc_le_eq
          intro!: implements_store implements_reply)
  qed (use assms answers_set [OF ok] answers_ttl [OF ok] in
      \<open>auto simp: execute_3_def dispatch_simps intro!: implements_store\<close>)
qed

lemma implements_hset:
  assumes "store_ok (env H) (store st)"
  shows "implements b (env H) (store st) now (spec_hset now args) w auth
    (logged command (Option.bind (handle_hset (env H) (store st) (c # args) w now) (on_store st auth)))"
  using answers_hset [OF assms, of c args w now b] by (auto intro: implements_store)

lemma implements_type:
  assumes "store_ok (env H) (store st)"
  shows "implements b (env H) (store st) now (spec_type now args) w auth
    (if length (c # args) < 2 then Some (fail w wrong_arguments, auth, st)
     else on_store st auth (write_simple_string w (bs (fst (key_type (env H) (store st) ((c # args) ! 1) now))),
       snd (key_type (env H) (store st) ((c # args) ! 1) now)))"
proof (cases args)
  case Nil
  then show ?thesis by (simp add: implements_reply answers_fail spec_type_def)
qed (simp add: implements_store answers_type [OF assms])

lemma implements_ping:
  "implements b (env H) (store st) now (\<lambda>m. (Simple x, m)) w auth (Some (write_simple_string w x, auth, st))"
  by (intro implements_reply answersI) (simp_all add: write_simple_string_reply)

lemma implements_exists:
  "implements b (env H) (store st) now (spec_exists now args) w auth
    (if length (c # args) \<ge> 2 then Some (write_integer w (of_nat (store_exists (env H) (store st) args now)), auth, st)
     else Some (fail w wrong_arguments, auth, st))"
  by (cases "args = []") (simp_all add: implements_reply answers_exists answers_fail spec_exists_def Suc_le_eq)

lemma implements_flush:
  assumes "store_ok (env H) (store st)"
  shows "implements b (env H) (store st) now (\<lambda>m. (Simple x, Map.empty)) w auth
    (on_store st auth (write_simple_string w x, flush_store (env H) (store st)))"
  using flush_effect(3) [OF assms, of now]
  by (intro implements_store answersI) (simp_all add: write_simple_string_reply)

lemma table_entries:
  "(''pttl'', b, f) \<in> set (command_table now) \<longleftrightarrow> \<not> b \<and> f = spec_pttl now"
  "(''type'', b, f) \<in> set (command_table now) \<longleftrightarrow> \<not> b \<and> f = spec_type now"
  "(''incr'', b, f) \<in> set (command_table now) \<longleftrightarrow> b \<and> f = spec_add 1 now"
  "(''decr'', b, f) \<in> set (command_table now) \<longleftrightarrow> b \<and> f = spec_add (- 1) now"
  "(''mget'', b, f) \<in> set (command_table now) \<longleftrightarrow> \<not> b \<and> f = spec_mget now"
  "(''mset'', b, f) \<in> set (command_table now) \<longleftrightarrow> b \<and> f = spec_mset now"
  "(''hset'', b, f) \<in> set (command_table now) \<longleftrightarrow> \<not> b \<and> f = spec_hset now"
  "(''hget'', b, f) \<in> set (command_table now) \<longleftrightarrow> \<not> b \<and> f = spec_hget now"
  "(''hdel'', b, f) \<in> set (command_table now) \<longleftrightarrow> \<not> b \<and> f = spec_hdel now"
  "(''exists'', b, f) \<in> set (command_table now) \<longleftrightarrow> \<not> b \<and> f = spec_exists now"
  "(''expire'', b, f) \<in> set (command_table now) \<longleftrightarrow> \<not> b \<and> f = spec_expire now"
  "(''incrby'', b, f) \<in> set (command_table now) \<longleftrightarrow> b \<and> f = spec_incrby 1 now"
  "(''decrby'', b, f) \<in> set (command_table now) \<longleftrightarrow> b \<and> f = spec_incrby (- 1) now"
  "(''persist'', b, f) \<in> set (command_table now) \<longleftrightarrow> \<not> b \<and> f = spec_persist now"
  by (simp_all add: command_table_def)

text \<open>What the longer names run.\<close>

lemma dispatch_4:
  assumes "lowered c = bs name" and "length c = 4"
  shows "name = ''pttl'' \<Longrightarrow> execute_4 H st (c # args) w auth now = on_store st auth (handle_pttl (env H) (store st) (c # args) w now)"
    and "name = ''incr'' \<Longrightarrow> execute_4 H st (c # args) w auth now = logged (c # args) (on_store st auth (handle_incr (env H) (store st) (c # args) w now 1))"
    and "name = ''decr'' \<Longrightarrow> execute_4 H st (c # args) w auth now = logged (c # args) (on_store st auth (handle_incr (env H) (store st) (c # args) w now (- 1)))"
    and "name = ''mget'' \<Longrightarrow> execute_4 H st (c # args) w auth now = on_store st auth (handle_mget (env H) (store st) (c # args) w now)"
    and "name = ''mset'' \<Longrightarrow> execute_4 H st (c # args) w auth now = logged (c # args) (on_store st auth (handle_mset (env H) (store st) (c # args) w now))"
    and "name = ''hset'' \<Longrightarrow> execute_4 H st (c # args) w auth now =
      logged (c # args) (Option.bind (handle_hset (env H) (store st) (c # args) w now) (on_store st auth))"
    and "name = ''hget'' \<Longrightarrow> execute_4 H st (c # args) w auth now = on_store st auth (handle_hget (env H) (store st) (c # args) w now)"
    and "name = ''hdel'' \<Longrightarrow> execute_4 H st (c # args) w auth now = logged (c # args) (on_store st auth (handle_hdel (env H) (store st) (c # args) w now))"
    and "name = ''type'' \<Longrightarrow> execute_4 H st (c # args) w auth now =
      (if length (c # args) < 2 then Some (fail w wrong_arguments, auth, st)
       else on_store st auth (write_simple_string w (bs (fst (key_type (env H) (store st) ((c # args) ! 1) now))),
         snd (key_type (env H) (store st) ((c # args) ! 1) now)))"
    and "name = ''ping'' \<Longrightarrow> execute_4 H st (c # args) w auth now = Some (write_simple_string w (bs ''PONG''), auth, st)"
  using assms by (simp_all add: execute_4_def name_simps Let_def case_prod_beta)

lemma dispatch_6:
  assumes "lowered c = bs name" and "length c = 6"
  shows "name = ''exists'' \<Longrightarrow> execute_6 H st (c # args) w auth now =
      (if length (c # args) \<ge> 2 then Some (write_integer w (of_nat (store_exists (env H) (store st) args now)), auth, st)
       else Some (fail w wrong_arguments, auth, st))"
    and "name = ''incrby'' \<Longrightarrow> execute_6 H st (c # args) w auth now = logged (c # args) (on_store st auth (handle_incrby (env H) (store st) (c # args) w now))"
    and "name = ''decrby'' \<Longrightarrow> execute_6 H st (c # args) w auth now = logged (c # args) (on_store st auth (handle_decrby (env H) (store st) (c # args) w now))"
    and "name = ''expire'' \<Longrightarrow> execute_6 H st (c # args) w auth now = logged (c # args) (on_store st auth (handle_expire (env H) (store st) (c # args) w now))"
  using assms by (simp_all add: execute_6_def name_simps Let_def)

lemma dispatch_7_8:
  assumes "lowered c = bs name"
  shows "name = ''flushdb'' \<Longrightarrow> execute_7 H st (c # args) w auth now =
      on_store st auth (write_simple_string w (bs ''OK''), flush_store (env H) (store st))"
    and "name = ''persist'' \<Longrightarrow> execute_7 H st (c # args) w auth now = logged (c # args) (on_store st auth (handle_persist (env H) (store st) (c # args) w now))"
    and "name = ''flushall'' \<Longrightarrow> execute_8 H st (c # args) w auth =
      on_store st auth (write_simple_string w (bs ''OK''), flush_store (env H) (store st))"
  using assms by (simp_all add: execute_7_def execute_8_def Let_def)

lemma implements_4:
  assumes ok: "store_ok (env H) (store st)" and "length c = 4" and "(name, b, f) \<in> set (command_table now)"
    and "lowered c = bs name"
    and stale: "\<And>h x. name \<in> set counter_names \<Longrightarrow> view (env H) (store st) (hd args) = Some (HashV h, x) \<Longrightarrow> \<not> past now x"
  shows "implements b (env H) (store st) now (f args) w auth (execute_4 H st (c # args) w auth now)"
proof -
  have n: "length name = 4" using assms(2,4) by (metis length_bs length_lowered)
  note run = dispatch_4 [OF assms(4,2), of st args w auth now]
  have live: "\<not> past now x" if "name = ''incr'' \<or> name = ''decr''" "view (env H) (store st) (hd args) = Some (HashV h, x)" for h x
    using stale [of h x] that by (auto simp: counter_names_def)
  have "name \<in> set (filter (\<lambda>n. length n = 4) (map fst (command_table now)))"
    using image_eqI [OF _ assms(3), of name fst] n by simp
  then have mem: "name = ''pttl'' \<or> name = ''type'' \<or> name = ''incr'' \<or> name = ''decr'' \<or> name = ''mget''
      \<or> name = ''mset'' \<or> name = ''hset'' \<or> name = ''hget'' \<or> name = ''hdel'' \<or> name = ''ping''"
    by (simp add: command_table_def)
  consider "name = ''incr'' \<or> name = ''decr''" | "name = ''ping''"
    | "\<not> (name = ''incr'' \<or> name = ''decr'')" "name \<noteq> ''ping''"
    by blast
  then show ?thesis
  proof cases
    case 1
    then show ?thesis
      using assms(3) live implements_store(2) [OF answers_incr [OF ok]] run(2,3) by (auto simp: table_entries)
  next
    case 2
    then show ?thesis
      using assms(3) run(10) by (auto simp: command_table_def implements_ping)
  next
    case 3
    with mem have "name = ''pttl'' \<or> name = ''type'' \<or> name = ''mget'' \<or> name = ''mset'' \<or> name = ''hset''
        \<or> name = ''hget'' \<or> name = ''hdel''" by (simp only: de_Morgan_disj simp_thms)
    then show ?thesis
      using assms(3) run(1,4-9) implements_type [OF ok, of b now args w auth c] implements_hset [OF ok]
        implements_store [OF answers_pttl [OF ok]] implements_store [OF answers_mget [OF ok]]
        implements_store [OF answers_mset [OF ok]] implements_store [OF answers_hget [OF ok]]
        implements_store [OF answers_hdel [OF ok]]
      by (elim disjE) (simp_all only: table_entries simp_thms)
  qed
qed

lemma implements_6:
  assumes ok: "store_ok (env H) (store st)" and "length c = 6" and "(name, b, f) \<in> set (command_table now)"
    and "lowered c = bs name"
    and stale: "\<And>h x. name \<in> set counter_names \<Longrightarrow> view (env H) (store st) (hd args) = Some (HashV h, x) \<Longrightarrow> \<not> past now x"
  shows "implements b (env H) (store st) now (f args) w auth (execute_6 H st (c # args) w auth now)"
proof -
  have n: "length name = 6" using assms(2,4) by (metis length_bs length_lowered)
  note run = dispatch_6 [OF assms(4,2), of st args w auth now]
  have live: "\<not> past now x" if "name = ''incrby'' \<or> name = ''decrby''" "view (env H) (store st) (hd args) = Some (HashV h, x)" for h x
    using stale [of h x] that by (auto simp: counter_names_def)
  consider "name = ''exists''" | "name = ''expire''" | "name = ''incrby''" | "name = ''decrby''"
    using assms(3) n by (auto simp: command_table_def)
  then show ?thesis
  proof cases
    case 3
    with live assms(3) have "b" "f = spec_incrby 1 now" by (simp_all add: table_entries)
    then show ?thesis unfolding run(2) [OF 3] using live 3 by (simp add: implements_store answers_incrby(1) [OF ok])
  next
    case 4
    with live assms(3) have "b" "f = spec_incrby (- 1) now" by (simp_all add: table_entries)
    then show ?thesis unfolding run(3) [OF 4] using live 4 by (simp add: implements_store answers_incrby(2) [OF ok])
  qed (use assms(3) run in \<open>simp_all only: table_entries simp_thms implements_store implements_exists answers_expire [OF ok]\<close>)
qed

lemma implements_7_8:
  assumes ok: "store_ok (env H) (store st)" and "(name, b, f) \<in> set (command_table now)" and "lowered c = bs name"
  shows "length c = 7 \<Longrightarrow> implements b (env H) (store st) now (f args) w auth (execute_7 H st (c # args) w auth now)"
    and "length c = 8 \<Longrightarrow> implements b (env H) (store st) now (f args) w auth (execute_8 H st (c # args) w auth)"
proof -
  have n: "length name = length c" using assms(3) by (metis length_bs length_lowered)
  note run = dispatch_7_8 [OF assms(3), of st args w auth]
  show "implements b (env H) (store st) now (f args) w auth (execute_7 H st (c # args) w auth now)" if "length c = 7"
  proof -
    have "length name = 7" using n that by simp
    then consider "name = ''flushdb''" "f = (\<lambda>args m. (Simple (bs ''OK''), Map.empty))" | "name = ''persist''"
      using assms(2) by (auto simp: command_table_def)
    then show ?thesis
      by cases (use assms(2) run in \<open>simp_all only: table_entries implements_flush [OF ok] implements_store answers_persist [OF ok]\<close>)
  qed
  show "implements b (env H) (store st) now (f args) w auth (execute_8 H st (c # args) w auth)" if "length c = 8"
  proof -
    have "length name = 8" using n that by simp
    then have "name = ''flushall''" "f = (\<lambda>args m. (Simple (bs ''OK''), Map.empty))"
      using assms(2) by (auto simp: command_table_def)
    with run(3) show ?thesis by (simp only: implements_flush [OF ok])
  qed
qed

lemma execute_implements:
  assumes ok: "store_ok (env H) (store st)" and "(name, b, f) \<in> set (command_table now)" and "lowered c = bs name"
    and "auth \<or> name = ''ping''"
    and stale: "\<And>h x. name \<in> set counter_names \<Longrightarrow> view (env H) (store st) (hd args) = Some (HashV h, x) \<Longrightarrow> \<not> past now x"
  shows "implements b (env H) (store st) now (f args) w auth (execute_command H st (c # args) w auth now)"
proof -
  let ?st = "count_command st"
  have ok': "store_ok (env H) (store ?st)" using ok by simp
  have len: "length c \<in> {3, 4, 6, 7, 8}"
    using assms(2) arg_cong [OF assms(3), of length] by (auto simp: command_table_def)
  have "requires_auth c \<longrightarrow> auth" using assms(3,4) by (auto simp: requires_auth_name)
  then show ?thesis
    using len implements_3 [OF ok' _ assms(2,3), of args w auth] implements_4 [OF ok' _ assms(2,3), of args w auth]
      implements_6 [OF ok' _ assms(2,3), of args w auth] implements_7_8 [OF ok' assms(2,3), of args w auth] stale
    by (auto simp: execute_command_def Let_def)
qed

end

end
