(* ===== verification/Command_Safety.thy ===== *)
theory Command_Safety
  imports Commands
begin

text \<open>
  What clients can rely on, over all commands: the dispatcher implements the
  specification, always answers, keeps the invariant, logs what it changes and
  protects the store from clients that have not logged in; and where it falls
  short, the memory counter after a flush and the type test of the counters.
\<close>

section \<open>Flushing\<close>

lemma flush_difference:
  assumes "a + b < 2 ^ 64"
  shows "(if (of_nat a :: u64) \<ge> of_nat (a + b) then 0 else of_nat (a + b) - of_nat a) = (of_nat b :: u64)"
proof (cases "b = 0")
  case False
  have "unat (of_nat a :: u64) = a" "unat (of_nat (a + b) :: u64) = a + b"
    using assms by (simp_all only: unat_of_nat_u64)
  then have "\<not> (of_nat a :: u64) \<ge> of_nat (a + b)" using False by (simp only: word_le_nat_alt)
  then show ?thesis by simp
qed simp

lemma total_entries: "total_size E s = (\<Sum>(k, e)\<leftarrow>all_entries E s. size_of k (val e))"
proof -
  have "(\<Sum>(k, e)\<leftarrow>concat (map (dm_iter (dash E)) ms). size_of k (val e)) =
      sum_list (map (\<lambda>m. \<Sum>(k, e)\<leftarrow>dm_iter (dash E) m. size_of k (val e)) ms)" for ms
    by (induction ms) simp_all
  then show ?thesis by (simp only: total_size_def)
qed

context server_env
begin

text \<open>The entries that a flush at time \<open>t\<close> leaves out of its sum.\<close>

lemma flush_size_eq:
  "flush_size (env H) s t = of_nat (\<Sum>(k, e)\<leftarrow>live t (all_entries (env H) s). size_of k (val e))"
proof -
  have inner: "foldl (\<lambda>a (key, e). if expired t e then a else a + of_nat (calculate_entry_size (length key) (val e))) a ps =
      a + of_nat (\<Sum>(k, e)\<leftarrow>live t ps. size_of k (val e))" for a :: u64 and ps
    by (induction ps arbitrary: a) (auto simp: size_of_def)
  have "foldl (\<lambda>a m. a + of_nat (\<Sum>(k, e)\<leftarrow>live t (dm_iter (dash (env H)) m). size_of k (val e))) a ms =
      a + of_nat (\<Sum>(k, e)\<leftarrow>live t (concat (map (dm_iter (dash (env H))) ms)). size_of k (val e))" for a :: u64 and ms
    by (induction ms arbitrary: a) (simp_all add: add.assoc)
  then show ?thesis by (simp add: flush_size_def inner)
qed

lemma sum_split_live:
  "(\<Sum>(k, e)\<leftarrow>ps. size_of k (val e)) =
    (\<Sum>(k, e)\<leftarrow>live t ps. size_of k (val e)) + (\<Sum>(k, e)\<leftarrow>filter (\<lambda>p. expired t (snd p)) ps. size_of k (val e))"
  by (induction ps) auto

lemma flush_memory:
  assumes "memory_used s = of_nat (total_size (env H) s)" and "total_size (env H) s < 2 ^ 64"
  shows "unat (memory_used (flush_store (env H) s)) =
    (\<Sum>(k, e)\<leftarrow>filter (\<lambda>p. expired (clock s 0) (snd p)) (all_entries (env H) s). size_of k (val e))"
proof -
  let ?s = "s\<lparr>clock := (\<lambda>i. clock s (Suc i))\<rparr>" and ?sum = "\<lambda>ps. \<Sum>(k, e)\<leftarrow>ps. size_of k (val e)"
  let ?live = "?sum (live (clock s 0) (all_entries (env H) s))"
  let ?dead = "?sum (filter (\<lambda>p. expired (clock s 0) (snd p)) (all_entries (env H) s))"
  have total: "total_size (env H) s = ?live + ?dead" by (rule trans [OF total_entries sum_split_live])
  have "flush_size (env H) ?s (clock s 0) = of_nat ?live" unfolding flush_size_eq by simp
  then have "memory_used (flush_store (env H) s) =
      (if of_nat ?live \<ge> memory_used s then 0 else memory_used s - of_nat ?live)"
    by (simp only: flush_store_def get_timestamp_def Let_def prod.case store_clear_def) simp
  also have "\<dots> = of_nat ?dead"
    unfolding assms(1) total using assms(2) unfolding total by (rule flush_difference)
  finally show ?thesis using assms(2) unfolding total by (simp only: unat_of_nat_u64)
qed

end

text \<open>A host with the concrete map, codec and byte comparison, and a process on the small store.\<close>

definition demo_host :: "(bytes, entry) hash_map host" where
  "demo_host = \<lparr>env = small_env, bin = bincode, ct_eq = (=), process_id = 7, has_runtime = True\<rparr>"

definition demo_server :: "(bytes, entry) hash_map db \<Rightarrow> (bytes, entry) hash_map server" where
  "demo_server s = \<lparr>store = s, local_cmd_count = 0, total_commands = 0, total_connections = 0, active_connections = 0,
     rejected_connections = 0, aof_handle = None,
     snapshots = \<lparr>save_in_progress = False, last_save_time = 0, snapshot_file = None\<rparr>,
     save_io = (\<lambda>_ _. None), uptimes = (\<lambda>_. 0), jobs = []\<rparr>"

interpretation demo: server_env demo_host
  using small_env_dashmap by (simp add: server_env_def store_env_def demo_host_def)

lemma demo_simps [simp]: "env demo_host = small_env" "store (demo_server s) = s"
  by (simp_all add: demo_host_def demo_server_def)

lemma server_envI: "dashmap (dash (env H)) \<Longrightarrow> server_env H"
  by (simp add: server_env_def store_env_def)

section \<open>Properties\<close>





text \<open>C12: The append-only file sees every change. A command of a logged-in client that changes
  the keyspace is appended to the log, with two exceptions, \<^verbatim>\<open>FLUSHDB\<close> and \<^verbatim>\<open>FLUSHALL\<close>:
  these are never logged. Everything else leaves the log alone. (A logged command
  is appended whether or not it succeeded.)\<close>

theorem log_covers_writes:
  assumes "dashmap (dash (env H))" and "store_ok (env H) (store st)" and "auth"
    and "execute_command H st command w auth now = Some (w', auth', st')"
  shows "aof_handle st' =
      (if is_logged command then map_option (\<lambda>a. snd (aof_append a command)) (aof_handle st) else aof_handle st)
    \<and> (keyspace (env H) (store st') now \<noteq> keyspace (env H) (store st) now \<longrightarrow> is_logged command \<or> is_flush command)
    \<and> \<not> (is_logged command \<and> is_flush command)"
proof -
  have "\<not> (is_logged command \<and> is_flush command)" by (auto simp: is_logged_def is_flush_def named_def)
  then show ?thesis
    using server_env.execute_outcome [OF server_envI [OF assms(1)] assms(2,3), of command w now] assms(4)
    by (auto simp: outcome_ok_def)
qed

theorem log_covers_writes_witness:
  "\<exists>w' auth' st'. execute_command demo_host (demo_server small_db_k) [bs ''flushdb''] \<lparr>wbuf = []\<rparr> True 100 = Some (w', auth', st')
    \<and> keyspace small_env (store st') 100 = Map.empty \<and> keyspace small_env small_db_k 100 \<noteq> Map.empty
    \<and> aof_handle st' = aof_handle (demo_server small_db_k)"
proof -
  have low: "lowered (bs ''flushdb'') = bs ''flushdb''" by code_simp
  have run: "execute_command demo_host (demo_server small_db_k) [bs ''flushdb''] \<lparr>wbuf = []\<rparr> True 100 =
      Some (write_simple_string \<lparr>wbuf = []\<rparr> (bs ''OK''), True,
        (count_command (demo_server small_db_k))\<lparr>store := flush_store small_env small_db_k\<rparr>)"
    by (simp add: execute_command_def execute_7_def low Let_def on_store_def)
  have "\<not> is_logged [bs ''flushdb'']" by (simp add: is_logged_def named_def low)
  with log_covers_writes [OF _ _ _ run] small_env_dashmap small_db_k_ok
  have "aof_handle ((count_command (demo_server small_db_k))\<lparr>store := flush_store small_env small_db_k\<rparr>) =
      aof_handle (demo_server small_db_k)" by simp
  moreover have "keyspace small_env small_db_k 100 \<noteq> Map.empty" by (simp add: small_db_k_keyspace)
  ultimately show ?thesis using run demo.flush_effect(3) [of small_db_k 100] small_db_k_ok by auto
qed

text \<open>C10: A client that has not logged in reaches nothing. It gets \<^verbatim>\<open>PONG\<close> for \<^verbatim>\<open>PING\<close>, an answer to
  \<^verbatim>\<open>AUTH\<close>, and errors; store, log, snapshots and jobs stay as they are and only the
  command counter moves. It becomes logged in exactly by an \<^verbatim>\<open>AUTH\<close> with the configured
  password, given that the constant-time comparison decides equality.\<close>

theorem unauthenticated_isolation:
  assumes "dashmap (dash (env H))" and "\<forall>a b. ct_eq H a b \<longleftrightarrow> a = b"
    and "execute_command H st command w False now = Some (w', auth', st')"
  shows "st' = count_command st
    \<and> (auth' \<longleftrightarrow> named [''auth''] command \<and> length command \<ge> 2 \<and> password (security (conf (env H))) \<noteq> []
         \<and> command ! 1 = bs (password (security (conf (env H)))))
    \<and> (\<not> named [''auth'', ''ping''] command \<and> command \<noteq> [] \<longrightarrow>
         w' = put w (render (Error (bs ''NOAUTH Authentication required''))))"
proof -
  have split: "named [''auth'', ''ping''] command \<longleftrightarrow> named [''auth''] command \<or> named [''ping''] command"
      "\<not> (named [''auth''] command \<and> named [''ping''] command)" "named names [] \<longleftrightarrow> False" for names
    by (auto simp: named_def)
  have run: "(if command = [] then Some (fail w ''empty command'', False, count_command st)
     else if named [''auth''] command then
       Some (fst (handle_auth H command w False), snd (handle_auth H command w False), count_command st)
     else if named [''ping''] command then Some (write_simple_string w (bs ''PONG''), False, count_command st)
     else Some (fail w ''NOAUTH Authentication required'', False, count_command st)) = Some (w', auth', st')"
    using assms(3) server_env.unauthenticated [OF server_envI [OF assms(1)], of False st command w now] by simp
  have "snd (handle_auth H command w False) \<longleftrightarrow> length command \<ge> 2 \<and> password (security (conf (env H))) \<noteq> []
      \<and> command ! 1 = bs (password (security (conf (env H))))"
    using assms(2) by (simp add: handle_auth_def Let_def not_less)
  then show ?thesis
    using run split by (auto simp: write_error_reply split: if_splits)
qed

theorem unauthenticated_isolation_witness:
  "\<exists>w'. execute_command demo_host (demo_server small_db_k) [bs ''get'', [107]] \<lparr>wbuf = []\<rparr> False 100 =
      Some (w', False, count_command (demo_server small_db_k))
    \<and> w' = put \<lparr>wbuf = []\<rparr> (render (Error (bs ''NOAUTH Authentication required'')))"
proof -
  have low: "lowered (bs ''get'') = bs ''get''" by code_simp
  obtain w' auth' st' where run: "execute_command demo_host (demo_server small_db_k) [bs ''get'', [107]] \<lparr>wbuf = []\<rparr> False 100 =
      Some (w', auth', st')"
    by (auto simp: demo.unauthenticated named_def low)
  have "\<forall>a b. ct_eq demo_host a b \<longleftrightarrow> a = b" by (simp add: demo_host_def)
  from unauthenticated_isolation [OF _ this run] run show ?thesis
    using small_env_dashmap by (auto simp: named_def low)
qed

text \<open>C39: A flush empties the store but does not always bring the memory counter to zero. If
  \<^verbatim>\<open>MEMORY_USED\<close> was exact before, afterwards it equals the total size of the entries that
  had expired without having been removed yet: \<^verbatim>\<open>FLUSHDB\<close> and \<^verbatim>\<open>FLUSHALL\<close> clear these too but
  leave them out of the sum they subtract. The bytes stay counted for ever.\<close>

theorem flush_leaks_expired:
  fixes H :: "'m host"
  assumes "dashmap (dash (env H))" and "store_ok (env H) s"
    and "memory_used s = of_nat (total_size (env H) s)" and "total_size (env H) s < 2 ^ 64"
  shows "view (env H) (flush_store (env H) s) = Map.empty \<and> store_ok (env H) (flush_store (env H) s)
    \<and> unat (memory_used (flush_store (env H) s)) =
        (\<Sum>(k, e)\<leftarrow>filter (\<lambda>p. expired (clock s 0) (snd p)) (all_entries (env H) s). size_of k (val e))"
  using server_env.flush_effect(1,2) [OF server_envI [OF assms(1)] assms(2)]
    server_env.flush_memory [OF server_envI [OF assms(1)] assms(3,4)] by simp

text \<open>One entry of 66 bytes that expired five seconds before the flush.\<close>

definition stale_db :: "(bytes, entry) hash_map db" where
  "stale_db = set_accounted small_env small_db [107] [118] (Some 5) 90"

lemma stale_db_facts:
  "store_ok small_env stale_db" "view small_env stale_db = [[107] \<mapsto> (StringV [118], Some 95)]"
  "memory_used stale_db = 66" "total_size small_env stale_db = 66"
proof -
  have k: "keeps small_env small_db stale_db"
    using demo.keeps_set_accounted [of small_db "[107]" "[118]" "Some 5" 90] small_db_ok by (simp add: stale_db_def)
  show ok: "store_ok small_env stale_db" by (rule keeps_ok [OF k])
  show v: "view small_env stale_db = [[107] \<mapsto> (StringV [118], Some 95)]"
    using demo.store_set_effect(1) [of small_db "[107]" "[118]" "Some 5" 90] small_db_ok small_db_empty
    by (simp add: stale_db_def set_accounted_def case_prod_beta split: option.split)
  show t: "total_size small_env stale_db = 66"
    using demo.total_view [of stale_db] ok by (simp add: v size_of_def)
  have "total_size small_env small_db = 0" using demo.total_view [of small_db] small_db_ok by (simp add: small_db_empty)
  moreover have "memory_used small_db = 0" by (simp add: small_db_def store_new_def case_prod_beta)
  ultimately have "drift small_env stale_db = 0" using k small_env_limit by (simp add: keeps_def drift_def)
  then show "memory_used stale_db = 66" by (simp add: drift_def t)
qed

lemma set_accounted_clock: "clock (set_accounted E s k v ttl now) = clock (snd (store_set E s k v ttl now))"
  by (simp add: set_accounted_def mem_add_def mem_sub_def case_prod_beta Let_def split: option.split)

theorem flush_leaks_expired_witness: "memory_used (flush_store small_env stale_db) = 66"
proof -
  have clock: "clock stale_db 0 = 100"
    unfolding stale_db_def set_accounted_clock
    by (simp add: store_set_def small_db_def store_new_def sampled_uptime_def draw_u32_def unqueue_old_def
      place_in_queue_def shard_insert_def with_queue_def unqueue_def Let_def case_prod_beta split: option.split)
  have "expired 100 e" if "(k, e) \<in> set (all_entries small_env stale_db)" for k e
    using that demo.entries_mem [of stale_db k e] stale_db_facts(1) arg_cong [OF stale_db_facts(2), of "\<lambda>v. v k"]
    by (auto simp: view_def expired_def simp del: set_concat split: if_splits)
  then have all: "filter (\<lambda>p. expired 100 (snd p)) (all_entries small_env stale_db) = all_entries small_env stale_db"
    by (auto simp: filter_id_conv simp del: set_concat)
  have "memory_used stale_db = of_nat (total_size (env demo_host) stale_db)" "total_size (env demo_host) stale_db < 2 ^ 64"
    by (simp_all add: stale_db_facts)
  from flush_leaks_expired [OF _ _ this] small_env_dashmap stale_db_facts(1)
  have "unat (memory_used (flush_store small_env stale_db)) =
      (\<Sum>(k, e)\<leftarrow>filter (\<lambda>p. expired 100 (snd p)) (all_entries small_env stale_db). size_of k (val e))"
    by (simp add: clock)
  also have "\<dots> = total_size small_env stale_db" unfolding all by (rule total_entries [symmetric])
  finally show ?thesis by (simp add: stale_db_facts word_unat_eq_iff)
qed

text \<open>The command counters never lose a command: the thread-local batch stays below 256,
  and total and batch together advance by one per command, modulo \<open>2 ^ 64\<close>.\<close>

theorem commands_counted:
  assumes "unat (local_cmd_count st) < 256"
  shows "unat (local_cmd_count (count_command st)) < 256
    \<and> total_commands (count_command st) + local_cmd_count (count_command st) =
        total_commands st + local_cmd_count st + 1"
proof -
  have l: "unat (local_cmd_count st + 1) = unat (local_cmd_count st) + 1"
    using assms by (simp add: unat_word_ariths)
  have "local_cmd_count st + 1 = 256" if "local_cmd_count st + 1 \<ge> 256"
    using that assms l by (simp add: word_le_nat_alt word_unat_eq_iff)
  then show ?thesis
    using assms l by (auto simp: count_command_def Let_def word_le_nat_alt)
qed

theorem commands_counted_witness:
  "total_commands (count_command ((demo_server small_db)\<lparr>local_cmd_count := 255\<rparr>)) = 256"
proof -
  let ?st = "(demo_server small_db)\<lparr>local_cmd_count := 255\<rparr>"
  have "total_commands (count_command ?st) + local_cmd_count (count_command ?st) = 256"
    using commands_counted [of ?st] by (simp add: demo_server_def)
  then show ?thesis by (simp add: count_command_def demo_server_def Let_def)
qed

text \<open>C38: \<^verbatim>\<open>INCR\<close> and its relatives answer \<^verbatim>\<open>WRONGTYPE\<close> for a key that does not exist for any other
  command: when the key holds a hash that has expired but has not been removed yet,
  the type is tested before the expiry. Nothing changes.\<close>

theorem incr_expired_hash:
  assumes "dashmap (dash E)" and "store_ok E s" and "view E s k = Some (HashV h, Some x)" and "x \<le> now"
  shows "handle_incr E s (c # k # args) w now delta = (put w (render (Error wrongtype)), s) \<and> keyspace E s now k = None
    \<and> fst (spec_add delta now (k # args) (keyspace E s now)) \<noteq> Error wrongtype"
proof -
  obtain e where "shard_get E s k = Some e" "val e = HashV h" "expiry e = Some x"
    using assms(3) by (auto simp: view_def)
  moreover have "keyspace E s now k = None" using assms(3,4) by (simp add: keyspace_def visible_def past_def)
  ultimately show ?thesis
    by (simp add: handle_incr_def incr_current_def write_error_reply spec_add_def error_def wrongtype_def)
qed

text \<open>A hash that gets an expiry time and is read after it.\<close>

definition stale_hash_db :: "(bytes, entry) hash_map db" where
  "stale_hash_db = shard_modify small_env small_db_h [104] (expiry_update (\<lambda>_. Some 105))"

theorem incr_expired_hash_witness:
  "fst (handle_incr small_env stale_hash_db [bs ''INCR'', [104]] \<lparr>wbuf = []\<rparr> 200 1) = put \<lparr>wbuf = []\<rparr> (render (Error wrongtype))
   \<and> keyspace small_env stale_hash_db 200 [104] = None"
proof -
  have ok: "store_ok small_env stale_hash_db"
    using keeps_ok [OF demo.keeps_modify_expiry [of small_db_h]] small_db_h(1) by (simp add: stale_hash_db_def)
  have "view small_env stale_hash_db [104] = Some (HashV [([102], [120])], Some 105)"
  proof -
    obtain e where "shard_get small_env small_db_h [104] = Some e" "val e = HashV [([102], [120])]"
      using arg_cong [OF small_db_h(2), of "\<lambda>v. v [104]"] by (auto simp: view_def)
    then show ?thesis
      using demo.shard_get_modify [of small_db_h "[104]"] small_db_h(1) by (simp add: stale_hash_db_def view_def)
  qed
  from incr_expired_hash [OF small_env_dashmap ok this, of 200 "bs ''INCR''" "[]" "\<lparr>wbuf = []\<rparr>" 1]
  show ?thesis by simp
qed

end
