(* ===== verification/Recovery.thy ===== *)
theory Recovery
  imports Command_Safety
begin

text \<open>
  Recovery at startup, the part of \<^verbatim>\<open>main\<close> in \<^verbatim>\<open>src/src/main.rs\<close> that loads the snapshot and
  replays the append-only file through \<^verbatim>\<open>execute_command\<close>, and what it restores.
\<close>

section \<open>Startup\<close>

text \<open>
  The replay loop. The result is \<open>None\<close> if a command does not return, \<open>Inl n\<close> if the
  reader meets malformed input after \<open>n\<close> commands, and the process exits, or the
  number of commands and the state at the end of the file.
\<close>

function replay_loop ::
  "'m host \<Rightarrow> bytes \<Rightarrow> 'm server \<Rightarrow> resp_writer \<Rightarrow> bool \<Rightarrow> u64 \<Rightarrow> u64 \<Rightarrow> (u64 + u64 \<times> 'm server) option" where
  "replay_loop H inp st scratch auth replay_now replayed =
     (case next_command inp of
        (Cmd cmd, rest) \<Rightarrow>
          (case execute_command H st cmd (writer_clear scratch) auth replay_now of
             None \<Rightarrow> None
           | Some (scratch, auth, st) \<Rightarrow> replay_loop H rest st scratch auth replay_now (replayed + 1))
      | (Eof, rest) \<Rightarrow> Some (Inr (replayed, st))
      | (Malformed, rest) \<Rightarrow> Some (Inl replayed))"
  by pat_completeness auto
termination
  by (relation "measure (\<lambda>(H, inp, _). length inp)") (auto dest: next_command_shrinks [OF sym])

declare replay_loop.simps [simp del]

datatype startup_error = BadFsync string | CorruptLog u64 | LogUnreadable | LogNotWritable

text \<open>
  A file that may be absent (\<open>None\<close>), fail to open (\<open>Inl\<close>) or be read (\<open>Inr\<close>). \<open>io\<close> is the
  outcome of the operations on the log once it is open for append.
\<close>

definition open_log ::
  "'m server \<Rightarrow> bytes \<Rightarrow> fsync_policy \<Rightarrow> (nat \<Rightarrow> nat option) \<Rightarrow> startup_error + 'm server" where
  "open_log st content policy io =
     (case aof_open content policy io of
        Some a \<Rightarrow> Inr (st\<lparr>aof_handle := Some a\<rparr>)
      | None \<Rightarrow> Inl LogNotWritable)"

definition load_data ::
  "'m host \<Rightarrow> 'm server \<Rightarrow> (bytes + bytes) option \<Rightarrow> (bytes + bytes) option \<Rightarrow> (nat \<Rightarrow> nat option)
    \<Rightarrow> (startup_error + 'm server) option" where
  "load_data H st snapshot log io =
     (let p = persistence (conf (env H));
          st = (if enabled p then st\<lparr>store := snd (load_snapshot (bin H) (env H) (store st) snapshot)\<rparr> else st)
      in if \<not> aof_enabled p then Some (Inr st)
         else (case fsync_parse (aof_fsync p) of
             Inl e \<Rightarrow> Some (Inl (BadFsync e))
           | Inr policy \<Rightarrow>
               (case log of
                  None \<Rightarrow> Some (open_log st [] policy io)
                | Some (Inl e) \<Rightarrow> Some (Inl LogUnreadable)
                | Some (Inr inp) \<Rightarrow>
                    let (replay_now, s) = get_timestamp (store st) in
                    (case replay_loop H inp (st\<lparr>store := s\<rparr>) \<lparr>wbuf = []\<rparr> True replay_now 0 of
                       None \<Rightarrow> None
                     | Some (Inl n) \<Rightarrow> Some (Inl (CorruptLog n))
                     | Some (Inr (n, st)) \<Rightarrow> Some (open_log st inp policy io)))))"

section \<open>Replaying\<close>

text \<open>
  The effect of a log on the keyspace, by the specification: defined for the commands
  of the table, the counters only on keys that exist.
\<close>

fun spec_run :: "u64 \<Rightarrow> bytes list list \<Rightarrow> ks \<Rightarrow> ks option" where
  "spec_run now [] m = Some m"
| "spec_run now ([] # cs) m = None"
| "spec_run now ((c # args) # cs) m =
     (case find (\<lambda>(name, _). lowered c = bs name) (command_table now) of
        None \<Rightarrow> None
      | Some (name, _, f) \<Rightarrow>
          if name \<in> set counter_names \<and> m (hd args) = None then None
          else spec_run now cs (snd (f args m)))"

lemma spec_run_Cons:
  "spec_run now (cmd # cs) m = Option.bind (spec_run now [cmd] m) (spec_run now cs)"
  by (cases cmd) (auto split: option.split)

lemma spec_run_append: "spec_run now (cs @ cs') m = Option.bind (spec_run now cs m) (spec_run now cs')"
proof (induction cs arbitrary: m)
  case (Cons c cs)
  show ?case
    using Cons.IH spec_run_Cons [of now c cs m] spec_run_Cons [of now c "cs @ cs'" m]
    by (cases "spec_run now [c] m") (simp_all del: spec_run.simps)
qed simp

lemma replay_frame:
  assumes "small_command c"
  shows "replay_loop H (frame c @ rest) st w auth now n =
    (case execute_command H st c (writer_clear w) auth now of
       None \<Rightarrow> None | Some (w, auth, st) \<Rightarrow> replay_loop H rest st w auth now (n + 1))"
  by (subst replay_loop.simps) (simp add: next_command_frame [OF assms])

lemma replay_empty: "replay_loop H [] st w auth now n = Some (Inr (n, st))"
  by (subst replay_loop.simps) (simp add: next_command_def read_until_lf.simps)

context server_env
begin

lemma execute_returns:
  assumes "store_ok (env H) (store st)" and "auth"
  shows "\<exists>w' st'. execute_command H st command w auth now = Some (w', True, st') \<and> store_ok (env H) (store st')
    \<and> (aof_handle st = None \<longrightarrow> aof_handle st' = None)"
  using execute_outcome [OF assms, of command w now] assms(2) by (auto simp: outcome_ok_def)

text \<open>Replay ends, and its verdict is that of the reader.\<close>

lemma replay_reads:
  assumes "store_ok (env H) (store st)" and "auth" and "aof_handle st = None"
  shows "case read_log inp of
      (cs, True) \<Rightarrow> \<exists>st'. replay_loop H inp st w auth now n = Some (Inr (n + of_nat (length cs), st'))
        \<and> store_ok (env H) (store st') \<and> aof_handle st' = None
    | (cs, False) \<Rightarrow> replay_loop H inp st w auth now n = Some (Inl (n + of_nat (length cs)))"
  using assms
proof (induction inp arbitrary: st w auth n rule: read_log.induct)
  case (1 inp)
  show ?case
  proof (cases "fst (next_command inp)")
    case (Cmd c)
    obtain rest where cmd: "next_command inp = (Cmd c, rest)" using Cmd by (cases "next_command inp") simp
    obtain w' st' where ex: "execute_command H st c (writer_clear w) auth now = Some (w', True, st')"
        "store_ok (env H) (store st')" "aof_handle st' = None"
      using execute_returns [OF 1(2,3)] 1(4) by blast
    have step: "replay_loop H inp st w auth now n = replay_loop H rest st' w' True now (n + 1)"
      by (subst replay_loop.simps) (simp add: cmd ex(1))
    have read: "read_log inp = (c # fst (read_log rest), snd (read_log rest))"
      by (subst read_log.simps) (simp add: cmd case_prod_beta)
    show ?thesis
      using 1(1) [OF cmd [symmetric] refl ex(2) _ ex(3), of True w' "n + 1"] unfolding step read
      by (cases "read_log rest"; cases "snd (read_log rest)") (simp_all add: ac_simps)
  qed (use 1(2-4) in \<open>simp_all add: read_log.simps [of inp] replay_loop.simps [of H inp] prod_eq_iff
      split: prod.split replay_item.split\<close>)
qed


text \<open>Without a memory limit there is no eviction, and one command is one step of the specification.\<close>

lemma answers_exact:
  assumes "answers b E s now f w res" and "memory_limit E = 0"
  shows "keyspace E (snd res) now = snd (f (keyspace E s now))"
  using assms by (auto simp: answers_def) (metis snd_conv)

lemma execute_step:
  assumes ok: "store_ok (env H) (store st)" and limit: "memory_limit (env H) = 0"
    and step: "spec_run now [c # args] (keyspace (env H) (store st) now) = Some m"
  shows "\<exists>w' st'. execute_command H st (c # args) w True now = Some (w', True, st')
    \<and> store_ok (env H) (store st') \<and> keyspace (env H) (store st') now = m"
proof -
  obtain name b f where entry: "find (\<lambda>(name, _). lowered c = bs name) (command_table now) = Some (name, b, f)"
      and live: "\<not> (name \<in> set counter_names \<and> keyspace (env H) (store st) now (hd args) = None)"
      and m: "m = snd (f args (keyspace (env H) (store st) now))"
    using step by (auto split: option.splits if_splits)
  have mem: "(name, b, f) \<in> set (command_table now)" "lowered c = bs name"
    using entry unfolding find_Some_iff by (metis (mono_tags, lifting) nth_mem, auto)
  have "\<not> past now x" if "name \<in> set counter_names" "view (env H) (store st) (hd args) = Some (HashV h, x)" for h x
    using live that by (auto simp: keyspace_def visible_def)
  then have "implements b (env H) (store st) now (f args) w True (execute_command H st (c # args) w True now)"
    using execute_implements [OF ok mem, of True args w] by simp
  then obtain w' st' where r: "execute_command H st (c # args) w True now = Some (w', True, st')"
      "answers b (env H) (store st) now (f args) w (w', store st')"
    by (auto simp: implements_def)
  moreover have "store_ok (env H) (store st')" using execute_returns [OF ok, of True "c # args" w now] r(1) by simp
  ultimately show ?thesis using answers_exact [OF r(2) limit] m by simp
qed

lemma replay_runs:
  assumes "store_ok (env H) (store st)" and "memory_limit (env H) = 0" and "\<forall>c \<in> set cs. small_command c"
    and "spec_run now cs (keyspace (env H) (store st) now) = Some m"
  shows "\<exists>st'. replay_loop H (log_of cs) st w True now n = Some (Inr (n + of_nat (length cs), st'))
    \<and> store_ok (env H) (store st') \<and> keyspace (env H) (store st') now = m"
  using assms(1,3,4)
proof (induction cs arbitrary: st w n)
  case Nil
  then show ?case by (simp add: log_of_def replay_empty)
next
  case (Cons cmd cs)
  obtain c args where cmd: "cmd = c # args" using Cons.prems(3) by (cases cmd) simp_all
  obtain m1 where m1: "spec_run now [cmd] (keyspace (env H) (store st) now) = Some m1" "spec_run now cs m1 = Some m"
    using Cons.prems(3) unfolding spec_run_Cons [of now cmd cs] by (auto split: bind_splits)
  obtain w' st' where ex: "execute_command H st cmd (writer_clear w) True now = Some (w', True, st')"
      "store_ok (env H) (store st')" "keyspace (env H) (store st') now = m1"
    using execute_step [OF Cons.prems(1) assms(2)] m1(1) unfolding cmd by blast
  have "log_of (cmd # cs) = frame cmd @ log_of cs" by (simp add: log_of_def)
  then have "replay_loop H (log_of (cmd # cs)) st w True now n = replay_loop H (log_of cs) st' w' True now (n + 1)"
    using replay_frame [of cmd H "log_of cs" st w True now n] Cons.prems(2) ex(1) by simp
  moreover obtain st'' where "replay_loop H (log_of cs) st' w' True now (n + 1) = Some (Inr (n + 1 + of_nat (length cs), st''))"
      "store_ok (env H) (store st'')" "keyspace (env H) (store st'') now = m"
    using Cons.IH [of st' w' "n + 1"] Cons.prems(2) ex(2,3) m1(2) by auto
  ultimately show ?case by (simp add: ac_simps)
qed

end

section \<open>Restarting from a rewritten log\<close>

lemma run_set: "spec_run now [[bs ''SET'', k, v]] m = Some (m(k \<mapsto> (Str v, None)))"
proof -
  have "lowered (bs ''SET'') = bs ''set''" by code_simp
  then show ?thesis
    by (simp add: command_table_def counter_names_def spec_set_def put_value_def past_def)
qed

lemma map_of_rev: "distinct (map fst h) \<Longrightarrow> map_of (rev h) = map_of h"
proof (rule ext)
  fix k
  assume d: "distinct (map fst h)"
  then have "distinct (map fst (rev h))" by (simp add: rev_map [symmetric])
  with d have "map_of (rev h) k = Some v \<longleftrightarrow> map_of h k = Some v" for v by (simp add: map_of_eq_Some_iff)
  then show "map_of (rev h) k = map_of h k" by (metis not_Some_eq)
qed

lemma run_hset:
  assumes "m k = None" and "h \<noteq> []" and "hm_ok h"
  shows "spec_run now [[bs ''HSET'', k] @ concat (map (\<lambda>(f, x). [f, x]) h)] m = Some (m(k \<mapsto> (content_of (HashV h), None)))"
proof -
  have low: "lowered (bs ''HSET'') = bs ''hset''" by code_simp
  have len: "length (concat (map (\<lambda>(f, x). [f, x]) h)) = 2 * length h"
    by (induction h) auto
  then have ne: "concat (map (\<lambda>(f, x). [f, x]) h) \<noteq> []" using assms(2) by (metis length_0_conv mult_eq_0_iff zero_neq_numeral)
  have "snd (spec_hset now (k # concat (map (\<lambda>(f, x). [f, x]) h)) m) = m(k \<mapsto> (content_of (HashV h), None))"
    unfolding spec_hset_def list.case Let_def using ne len assms(1,3)
    by (simp add: demo.pairs_of_concat map_of_rev hm_ok_def content_of_def hm_get_def [abs_def] del: concat_eq_Nil_conv)
  then show ?thesis by (simp add: low command_table_def counter_names_def)
qed

lemma run_expire:
  assumes "m k = Some (c, y)" and "0 < n" and "n < 2 ^ 63" and "unat now + n < 2 ^ 64"
  shows "spec_run now [[bs ''EXPIRE'', k, dec n]] m = Some (m(k \<mapsto> (c, Some (now + of_nat n))))"
proof -
  have low: "lowered (bs ''EXPIRE'') = bs ''expire''" by code_simp
  have parse: "parse_i64 (dec n) = Some (int n)"
    using parse_i64_dec_int [of "int n"] assms(2,3) by (simp add: dec_int_def)
  have "unat (now + of_nat n) = unat now + n" using assms(4) by (simp add: unat_word_ariths unat_of_nat)
  then have "\<not> now + of_nat n \<le> now" using assms(2) by (simp add: word_le_nat_alt)
  then show ?thesis
    using assms(1,2) by (simp add: low command_table_def counter_names_def spec_expire_def parse put_value_def past_def)
qed

text \<open>What an entry dumped at time \<open>t0\<close> becomes when the dump is replayed at time \<open>t\<close>.\<close>

definition restore_entry :: "u64 \<Rightarrow> u64 \<Rightarrow> entry \<Rightarrow> (content \<times> u64 option) option" where
  "restore_entry t0 t e =
     (if expired t0 e \<or> val e = HashV [] then None
      else Some (content_of (val e), map_option (\<lambda>x. t + (x - t0)) (expiry e)))"

definition ttl_fits :: "u64 \<Rightarrow> u64 \<Rightarrow> u64 option \<Rightarrow> bool" where
  "ttl_fits t0 t x \<longleftrightarrow> (\<forall>y. x = Some y \<longrightarrow> unat (y - t0) < 2 ^ 63 \<and> unat t + unat (y - t0) < 2 ^ 64)"

lemma run_entry:
  assumes "m k = None" and "entry_ok e" and "\<not> expired t0 e \<Longrightarrow> ttl_fits t0 t (expiry e)"
  shows "spec_run t (entry_commands t0 (k, e)) m = Some (m(k := restore_entry t0 t e))"
proof (cases "expired t0 e \<or> val e = HashV []")
  case True
  then show ?thesis using assms(1) by (auto simp: entry_commands_def restore_entry_def)
next
  case False
  define cmd where "cmd = (case val e of StringV v \<Rightarrow> [bs ''SET'', k, v]
      | HashV h \<Rightarrow> [bs ''HSET'', k] @ concat (map (\<lambda>(f, x). [f, x]) h))"
  have first: "spec_run t [cmd] m = Some (m(k \<mapsto> (content_of (val e), None)))"
  proof (cases "val e")
    case (StringV v)
    then show ?thesis unfolding cmd_def StringV entry_value.case run_set by (simp add: content_of_def)
  next
    case (HashV h)
    then have "h \<noteq> []" "hm_ok h" using False assms(2) by (simp_all add: entry_ok_def)
    then show ?thesis unfolding cmd_def HashV entry_value.case by (intro run_hset assms(1))
  qed
  show ?thesis
  proof (cases "expiry e")
    case None
    then have "entry_commands t0 (k, e) = [cmd]" using False by (simp add: entry_commands_def cmd_def)
    then show ?thesis using first None False by (simp only: restore_entry_def) simp
  next
    case (Some x)
    have x: "t0 < x" using False Some by (simp add: expired_def not_le)
    have fits: "unat (x - t0) < 2 ^ 63" "unat t + unat (x - t0) < 2 ^ 64"
      using assms(3) False Some by (simp_all add: ttl_fits_def)
    have pos: "0 < unat (x - t0)" using x by (simp add: unat_gt_0)
    have cmds: "entry_commands t0 (k, e) = [cmd, [bs ''EXPIRE'', k, dec (unat (x - t0))]]"
      using False Some by (simp add: entry_commands_def cmd_def)
    have "spec_run t (entry_commands t0 (k, e)) m =
        spec_run t [[bs ''EXPIRE'', k, dec (unat (x - t0))]] (m(k \<mapsto> (content_of (val e), None)))"
      unfolding cmds using spec_run_append [of t "[cmd]" "[[bs ''EXPIRE'', k, dec (unat (x - t0))]]" m] first
      by (simp del: spec_run.simps)
    also have "\<dots> = Some (m(k \<mapsto> (content_of (val e), Some (t + of_nat (unat (x - t0))))))"
      using run_expire [of "m(k \<mapsto> (content_of (val e), None))" k "content_of (val e)" None "unat (x - t0)" t] pos fits
      by simp
    finally show ?thesis using False Some by (simp add: restore_entry_def)
  qed
qed

lemma run_dump:
  assumes "distinct (map fst ps)" and "\<forall>(k, e) \<in> set ps. m k = None \<and> entry_ok e \<and> (\<not> expired t0 e \<longrightarrow> ttl_fits t0 t (expiry e))"
  shows "spec_run t (concat (map (entry_commands t0) ps)) m =
    Some (m ++ (\<lambda>k. Option.bind (map_of ps k) (restore_entry t0 t)))"
  using assms
proof (induction ps arbitrary: m)
  case Nil
  then show ?case by (simp add: map_add_def fun_eq_iff)
next
  case (Cons p ps)
  obtain k e where p: "p = (k, e)" by (cases p)
  let ?m = "m(k := restore_entry t0 t e)"
  have one: "spec_run t (entry_commands t0 (k, e)) m = Some ?m"
    using Cons.prems(2) by (intro run_entry) (auto simp: p)
  have fresh: "k \<notin> fst ` set ps" using Cons.prems(1) by (simp add: p)
  have IH: "spec_run t (concat (map (entry_commands t0) ps)) ?m =
      Some (?m ++ (\<lambda>k. Option.bind (map_of ps k) (restore_entry t0 t)))"
  proof (rule Cons.IH)
    have "m k' = None \<and> k' \<noteq> k \<and> entry_ok e' \<and> (\<not> expired t0 e' \<longrightarrow> ttl_fits t0 t (expiry e'))"
      if "(k', e') \<in> set ps" for k' e'
      using Cons.prems(2) fresh that by (force simp: image_iff)
    then show "\<forall>(k, e) \<in> set ps. ?m k = None \<and> entry_ok e \<and> (\<not> expired t0 e \<longrightarrow> ttl_fits t0 t (expiry e))" by auto
  qed (use Cons.prems(1) in simp)
  have "map_of ps k = None" using fresh by (simp add: map_of_eq_None_iff)
  then have "?m ++ (\<lambda>k. Option.bind (map_of ps k) (restore_entry t0 t)) =
      m ++ (\<lambda>k'. Option.bind (map_of (p # ps) k') (restore_entry t0 t))"
    using Cons.prems(2) by (auto simp: p map_add_def fun_eq_iff split: option.split)
  then show ?case
    using one IH spec_run_append [of t "entry_commands t0 (k, e)" "concat (map (entry_commands t0) ps)" m]
    by (simp add: p)
qed

lemma rewritten_file:
  assumes "aof_rewrite E s a = (Some (Some stats), a', s')" and "replaced a = None"
  shows "path_content a' = log_of (dump_commands E s (clock s 0))"
proof -
  define a0 where "a0 = a\<lparr>rewrite_in_progress := True\<rparr>"
  have "rewrite_inner E s a0 = (Some stats, fst (snd (rewrite_inner E s a0)), s')"
      and a': "a' = (fst (snd (rewrite_inner E s a0)))\<lparr>rewrite_in_progress := False\<rparr>"
    using assms(1) by (auto simp: aof_rewrite_def a0_def case_prod_beta prod_eq_iff split: if_splits)
  moreover have "replaced a0 = None" by (simp add: a0_def assms(2))
  ultimately show ?thesis using rewrite_inner_effect [of E s a0 "Some stats" _ s'] by (auto simp: path_content_def)
qed

lemma restored_keyspace:
  assumes "store_env E" and "store_ok E s"
  shows "Option.bind (map_of (all_entries E s) k) (restore_entry t0 t) =
    (case keyspace E s t0 k of
       None \<Rightarrow> None
     | Some (c, x) \<Rightarrow> if c = Fields Map.empty then None else Some (c, map_option (\<lambda>x. t + (x - t0)) x))"
proof -
  have "map_of (all_entries E s) k = Some e \<longleftrightarrow> shard_get E s k = Some e" for e
    by (simp only: map_of_eq_Some_iff [OF store_env.entries_distinct [OF assms]] store_env.entries_mem [OF assms])
  then have "map_of (all_entries E s) k = shard_get E s k" by (metis not_Some_eq)
  moreover have "content_of v = Fields Map.empty \<longleftrightarrow> v = HashV []" for v
    by (cases v) (auto simp: content_of_def hm_get_def [abs_def] fun_eq_iff map_of_eq_None_iff)
  ultimately show ?thesis
    by (auto simp: keyspace_at restore_entry_def expired_past split: option.split)
qed

section \<open>Properties\<close>



text \<open>C5: Recovery is snapshot first, then the whole log. With both kinds of persistence enabled
  and no memory limit, the keyspace after startup is what the specification makes of
  the logged commands when it starts from the keyspace of the snapshot. Commands
  whose effect is already in the snapshot are applied a second time, so counters
  that were saved and logged come out too high.\<close>

theorem startup_replays_over_snapshot:
  assumes "dashmap (dash (env H))" and "memory_limit (env H) = 0"
    and "enabled (persistence (conf (env H)))" and "aof_enabled (persistence (conf (env H)))"
    and "fsync_parse (aof_fsync (persistence (conf (env H)))) = Inr policy" and "io 0 = None"
    and "store_ok (env H) s0" and "s0 = snd (load_snapshot (bin H) (env H) (store st) snapshot)"
    and "\<forall>c \<in> set cs. small_command c" and "spec_run (clock s0 0) cs (keyspace (env H) s0 (clock s0 0)) = Some m"
  shows "\<exists>st'. load_data H st snapshot (Some (Inr (log_of cs))) io = Some (Inr st')
    \<and> keyspace (env H) (store st') (clock s0 0) = m \<and> store_ok (env H) (store st')
    \<and> map_option path_content (aof_handle st') = Some (log_of cs)"
proof -
  let ?s = "s0\<lparr>clock := (\<lambda>i. clock s0 (Suc i))\<rparr>" and ?st = "st\<lparr>store := s0\<rparr>"
  have env: "server_env H" by (rule server_envI [OF assms(1)])
  have ok: "store_ok (env H) (store (?st\<lparr>store := ?s\<rparr>))"
    using keeps_ok [OF server_env.keeps_clock [OF env assms(7)]] by simp
  have ks: "keyspace (env H) (store (?st\<lparr>store := ?s\<rparr>)) = keyspace (env H) s0"
    by (simp add: server_env.keyspace_clock [OF env])
  obtain st' where st': "replay_loop H (log_of cs) (?st\<lparr>store := ?s\<rparr>) \<lparr>wbuf = []\<rparr> True (clock s0 0) 0 = Some (Inr (0 + of_nat (length cs), st'))"
      "store_ok (env H) (store st')" "keyspace (env H) (store st') (clock s0 0) = m"
    using server_env.replay_runs [OF env ok assms(2,9), of "clock s0 0" m "\<lparr>wbuf = []\<rparr>" 0] assms(10) unfolding ks by blast
  obtain a where a: "aof_open (log_of cs) policy io = Some a" "path_content a = log_of cs"
    using assms(6) by (simp add: aof_open_def path_content_def)
  have "load_data H st snapshot (Some (Inr (log_of cs))) io = Some (Inr (st'\<lparr>aof_handle := Some a\<rparr>))"
    using assms(3-5) st'(1) unfolding assms(8) [symmetric]
    by (simp add: load_data_def assms(8) [symmetric] get_timestamp_def open_log_def a(1))
  then show ?thesis using st'(2,3) a(2) by simp
qed

text \<open>A host without a memory limit and with both kinds of persistence, on an empty store.\<close>

definition plain_host :: "(bytes, entry) hash_map host" where
  "plain_host = demo_host\<lparr>env := hash_env (\<lambda>_. 0)
     (default_config\<lparr>persistence := default_persistence\<lparr>enabled := True, aof_enabled := True, aof_fsync := ''everysec''\<rparr>\<rparr>) 0\<rparr>"

definition plain_server :: "(bytes, entry) hash_map server" where
  "plain_server = demo_server (store_new (env plain_host) 1 (\<lambda>_. 50) (\<lambda>_. 0))"

lemma plain_host_facts:
  "dashmap (dash (env plain_host))" "memory_limit (env plain_host) = 0" "bin plain_host = bincode"
  "enabled (persistence (conf (env plain_host)))" "aof_enabled (persistence (conf (env plain_host)))"
  "aof_fsync (persistence (conf (env plain_host))) = ''everysec''"
  using hm.dashmap_axioms
  by (simp_all add: plain_host_def demo_host_def hash_env_def default_config_def default_memory_def)

lemma load_entries_clock: "clock (snd (load_entries C E now n inp k s)) = clock s"
proof (induction n arbitrary: inp k s)
  case (Suc n)
  have "clock (load_entry E s now key v x) = clock s" for key v x
    by (simp add: load_entry_def shard_insert_def mem_add_def Let_def)
  with Suc show ?case by (simp add: Let_def split: sum.split option.split)
qed simp

lemma load_snapshot_clock: "(\<And>i. clock s i = t) \<Longrightarrow> clock (snd (load_snapshot C E s f)) i = t"
  by (simp add: load_snapshot_def get_timestamp_def load_entries_clock Let_def split: option.split sum.split)

lemma clock_store_new: "clock (store_new E n clk rnd) = clk"
  by (simp add: store_new_def case_prod_beta)

text \<open>The snapshot holds the counter at 1, and so does the effect of the logged \<^verbatim>\<open>INCR\<close>: it comes back as 2.\<close>

theorem startup_replays_over_snapshot_witness:
  "\<exists>st'. load_data plain_host plain_server
        (Some (Inr (snapshot_of bincode 0 [([107], one_entry\<lparr>val := StringV [49]\<rparr>)])))
        (Some (Inr (log_of [[bs ''INCR'', [107]]]))) (\<lambda>_. None) = Some (Inr st')
    \<and> keyspace (env plain_host) (store st') 50 [107] = Some (Str [50], None)"
proof -
  let ?E = "env plain_host" and ?s = "store_new (env plain_host) 1 (\<lambda>_. 50) (\<lambda>_. 0)"
  let ?e = "one_entry\<lparr>val := StringV [49]\<rparr>"
  define snap where "snap = snapshot_of bincode 0 [([107], ?e)]"
  define s0 where "s0 = snd (load_snapshot bincode ?E ?s (Some (Inr snap)))"
  have env: "store_env ?E" using plain_host_facts(1) by (simp add: store_env_def)
  have new: "store_ok ?E ?s" "view ?E ?s = Map.empty"
    using store_env.store_new_effect [OF env, of 1 "\<lambda>_. 50" "\<lambda>_. 0"] by (simp_all add: fun_eq_iff)
  have ps: "\<forall>p \<in> set [([107], ?e)]. encodable bincode p \<and> entry_ok (snd p)"
    by (simp add: one_entry_def entry_ok_def encodable_def bincode_def to_snapshot_def small_value_def put_value_le_def
        put_vec_def put_option_le_def)
  have "length [([107] :: bytes, ?e)] < 2 ^ 64" by simp
  from store_env.load_effect [OF env new bincode_ok this ps, of 0]
  have s0: "store_ok ?E s0" "view ?E s0 = loaded_view 50 [([107], ?e)]"
    by (auto simp: s0_def snap_def clock_store_new)
  have clock: "clock s0 0 = 50"
    unfolding s0_def by (simp add: load_snapshot_clock clock_store_new)
  have ks: "keyspace ?E s0 50 [107] = Some (Str [49], None)"
    by (simp add: keyspace_def s0(2) loaded_view_Cons loaded_view_def one_entry_def expired_def visible_def past_def content_of_def)
  have low: "lowered (bs ''INCR'') = bs ''incr''" by code_simp
  have "parse_i64 [49] = Some 1" "dec_int 2 = [50]" by code_simp+
  then have run: "spec_run (clock s0 0) [[bs ''INCR'', [107]]] (keyspace ?E s0 (clock s0 0)) =
      Some ((keyspace ?E s0 50)([107] \<mapsto> (Str [50], None)))"
    by (simp add: clock low command_table_def ks spec_add_def in_i64_def)
  have policy: "fsync_parse (aof_fsync (persistence (conf ?E))) = Inr EverySec"
    unfolding plain_host_facts(6) by code_simp
  have "s0 = snd (load_snapshot (bin plain_host) ?E (store plain_server) (Some (Inr snap)))"
    by (simp add: s0_def plain_host_facts(3) plain_server_def)
  from startup_replays_over_snapshot [OF plain_host_facts(1,2,4,5) policy _ s0(1) this _ run, of "\<lambda>_. None"]
  show ?thesis by (auto simp: snap_def clock small_command_def)
qed

text \<open>C6: A rewritten log restores the data. If a rewrite succeeds, restarting from the file it
  leaves, with an empty store and no memory limit, gives every key that was visible
  when the rewrite started its value back. A key without expiry stays without one;
  otherwise the remaining time starts afresh at the restart, so the expiry moves by
  the time the server was down. Hashes without fields are dropped. The remaining
  times must fit the signed integer that \<^verbatim>\<open>EXPIRE\<close> reads.\<close>

theorem restart_from_rewrite:
  assumes "dashmap (dash E)" and "store_ok E s" and "dashmap (dash (env H))" and "0 < n" and "memory_limit (env H) = 0"
    and "aof_rewrite E s a = (Some (Some stats), a', s')" and "replaced a = None"
    and "\<forall>c \<in> set (dump_commands E s (clock s 0)). small_command c"
    and "\<forall>k c x. keyspace E s (clock s 0) k = Some (c, x) \<longrightarrow> ttl_fits (clock s 0) t x"
    and "store st = store_new (env H) n clk rnd"
  shows "\<exists>count st'. replay_loop H (path_content a') st w True t 0 = Some (Inr (count, st'))
    \<and> (\<forall>k. keyspace (env H) (store st') t k =
        (case keyspace E s (clock s 0) k of
           None \<Rightarrow> None
         | Some (c, x) \<Rightarrow> if c = Fields Map.empty then None else Some (c, map_option (\<lambda>x. t + (x - clock s 0)) x)))"
proof -
  have env: "store_env E" "server_env H" "store_env (env H)" using assms(1,3) by (simp_all add: store_env_def server_envI)
  have new: "store_ok (env H) (store st)" "keyspace (env H) (store st) t = Map.empty"
    unfolding assms(10) using store_env.store_new_effect [OF env(3) assms(4), of clk rnd]
    by (simp_all add: keyspace_def fun_eq_iff)
  have "entry_ok e \<and> (\<not> expired (clock s 0) e \<longrightarrow> ttl_fits (clock s 0) t (expiry e))"
    if "(k, e) \<in> set (all_entries E s)" for k e
  proof -
    have get: "shard_get E s k = Some e" using that store_env.entries_mem [OF env(1) assms(2)] by simp
    then have "\<not> expired (clock s 0) e \<longrightarrow> keyspace E s (clock s 0) k = Some (content_of (val e), expiry e)"
      by (simp add: keyspace_at expired_past)
    then show ?thesis
      using store_env.entry_ok_at [OF env(1) assms(2) get] assms(9) by blast
  qed
  then have "spec_run t (dump_commands E s (clock s 0)) Map.empty =
      Some (Map.empty ++ (\<lambda>k. Option.bind (map_of (all_entries E s) k) (restore_entry (clock s 0) t)))"
    unfolding dump_commands_def
    by (intro run_dump store_env.entries_distinct [OF env(1) assms(2)]) (auto simp del: set_concat)
  then show ?thesis
    using server_env.replay_runs [OF env(2) new(1) assms(5,8), of t _ w 0] new(2) rewritten_file [OF assms(6,7)]
      restored_keyspace [OF env(1) assms(2), of _ "clock s 0" t] by auto
qed

theorem restart_from_rewrite_witness:
  "\<exists>stats a' s' count st'. aof_rewrite small_env small_db_k (demo_aof No) = (Some (Some stats), a', s')
    \<and> replay_loop plain_host (path_content a') plain_server \<lparr>wbuf = []\<rparr> True 200 0 = Some (Inr (count, st'))
    \<and> keyspace (env plain_host) (store st') 200 [107] = Some (Str [118], Some 205)"
proof -
  obtain stats a' s' where r: "aof_rewrite small_env small_db_k (demo_aof No) = (Some (Some stats), a', s')"
    using aof_rewrite_reliable [of "demo_aof No" small_env small_db_k]
    by (auto simp: demo_aof_def aof_open_def reliable_def)
  have free: "replaced (demo_aof No) = None" by (simp add: demo_aof_def aof_open_def)
  have small: "\<forall>c \<in> set (dump_commands small_env small_db_k (clock small_db_k 0)). small_command c"
  proof -
    have "small_command c" if "(k, e) \<in> set (all_entries small_env small_db_k)" "c \<in> set (entry_commands 100 (k, e))" for k e c
    proof -
      have "shard_get small_env small_db_k k = Some e"
        using that(1) demo.entries_mem [of small_db_k k e] small_db_k_ok by simp
      then have "k = [107]" "val e = StringV [118]" "expiry e = Some 105"
        using arg_cong [OF small_db_k_view, of "\<lambda>v. v k"] by (auto simp: view_def split: if_splits)
      then show ?thesis
        using that(2) by (auto simp: entry_commands_def expired_def small_command_def dec.simps [of 5])
    qed
    then show ?thesis by (auto simp: dump_commands_def small_db_k_clock simp del: set_concat) auto
  qed
  have fits: "\<forall>k c x. keyspace small_env small_db_k (clock small_db_k 0) k = Some (c, x) \<longrightarrow> ttl_fits (clock small_db_k 0) 200 x"
    by (auto simp: small_db_k_clock small_db_k_keyspace ttl_fits_def split: if_splits)
  have st: "store plain_server = store_new (env plain_host) 1 (\<lambda>_. 50) (\<lambda>_. 0)" by (simp add: plain_server_def)
  from restart_from_rewrite [OF small_env_dashmap small_db_k_ok plain_host_facts(1) _ plain_host_facts(2) r free small fits st,
      of "\<lparr>wbuf = []\<rparr>"] r
  show ?thesis by (auto simp: small_db_k_clock small_db_k_keyspace)
qed

end
