(* ===== verification/Replies.thy ===== *)
theory Replies
  imports Command_Safety
begin

text \<open>
  What a command writes does not depend on what the reply buffer already holds: it
  appends the same bytes and has the same effect on any buffer. A connection may
  therefore flush wherever it likes.
\<close>

definition writes :: "(resp_writer \<Rightarrow> resp_writer) \<Rightarrow> bool" where
  "writes g \<longleftrightarrow> (\<exists>b. \<forall>w. g w = put w b)"

definition appends :: "(resp_writer \<Rightarrow> resp_writer \<times> 'a) \<Rightarrow> bool" where
  "appends f \<longleftrightarrow> (\<exists>b r. \<forall>w. f w = (put w b, r))"

definition appends_opt :: "(resp_writer \<Rightarrow> (resp_writer \<times> 'a) option) \<Rightarrow> bool" where
  "appends_opt f \<longleftrightarrow> (\<exists>x. \<forall>w. f w = map_option (apfst (put w)) x)"

named_theorems writes_intros "functions that append to the reply buffer"

lemma writes_id [writes_intros]: "writes (\<lambda>w. w)"
  unfolding writes_def by (rule exI [of _ "[]"]) simp

lemma writes_put: "writes g \<Longrightarrow> writes (\<lambda>w. put (g w) b)"
  unfolding writes_def by (metis put_put)

lemma writes_reply [writes_intros]:
  assumes "writes g"
  shows "writes (\<lambda>w. write_simple_string (g w) x)" "writes (\<lambda>w. write_error (g w) x)" "writes (\<lambda>w. write_null (g w))"
    "writes (\<lambda>w. write_integer (g w) n)" "writes (\<lambda>w. write_bulk_string (g w) x)" "writes (\<lambda>w. write_value (g w) v)"
    "writes (\<lambda>w. write_array (g w) xs)" "writes (\<lambda>w. write_array_header (g w) m)" "writes (\<lambda>w. foldl write_bulk_string (g w) xs)"
    "writes (\<lambda>w. write_signed_integer (g w) i)"
  unfolding write_simple_string_reply write_error_reply write_null_reply write_integer_reply write_bulk_string_reply
    write_value_reply write_array_reply write_array_header_put foldl_write_bulk_reply
  by (rule writes_put [OF assms])+ (cases "i < 0"; simp add: write_signed_integer_def write_u64_put writes_put [OF assms])

lemma writes_if [writes_intros]: "writes f \<Longrightarrow> writes g \<Longrightarrow> writes (\<lambda>w. if b then f w else g w)"
  by (cases b) simp_all

lemma writes_case [writes_intros]:
  "writes f \<Longrightarrow> (\<And>x. writes (g x)) \<Longrightarrow> writes (\<lambda>w. case y of None \<Rightarrow> f w | Some x \<Rightarrow> g x w)"
  "(\<And>x. writes (f' x)) \<Longrightarrow> (\<And>x. writes (g' x)) \<Longrightarrow> writes (\<lambda>w. case z of Inl x \<Rightarrow> f' x w | Inr x \<Rightarrow> g' x w)"
  by (cases y; simp) (cases z; simp)

lemma appends_intros [writes_intros]:
  "writes g \<Longrightarrow> appends (\<lambda>w. (g w, r))"
  "appends f1 \<Longrightarrow> appends f2 \<Longrightarrow> appends (\<lambda>w. if b then f1 w else f2 w)"
  "appends f1 \<Longrightarrow> (\<And>x. appends (h x)) \<Longrightarrow> appends (\<lambda>w. case y of None \<Rightarrow> f1 w | Some x \<Rightarrow> h x w)"
  "(\<And>x. appends (h1 x)) \<Longrightarrow> (\<And>x. appends (h2 x)) \<Longrightarrow> appends (\<lambda>w. case z of Inl x \<Rightarrow> h1 x w | Inr x \<Rightarrow> h2 x w)"
  "(\<And>x y. appends (h3 x y)) \<Longrightarrow> appends (\<lambda>w. case p of (x, y) \<Rightarrow> h3 x y w)"
proof -
  show "appends (\<lambda>w. (g w, r))" if "writes g" using that by (auto simp: appends_def writes_def)
  show "appends (\<lambda>w. if b then f1 w else f2 w)" if "appends f1" "appends f2" using that by (cases b) simp_all
  show "appends (\<lambda>w. case y of None \<Rightarrow> f1 w | Some x \<Rightarrow> h x w)" if "appends f1" "\<And>x. appends (h x)"
    using that by (cases y) simp_all
  show "appends (\<lambda>w. case z of Inl x \<Rightarrow> h1 x w | Inr x \<Rightarrow> h2 x w)" if "\<And>x. appends (h1 x)" "\<And>x. appends (h2 x)"
    using that by (cases z) simp_all
  show "appends (\<lambda>w. case p of (x, y) \<Rightarrow> h3 x y w)" if "\<And>x y. appends (h3 x y)" using that by (cases p) simp
qed

lemma appends_opt_intros [writes_intros]:
  "appends f \<Longrightarrow> appends_opt (\<lambda>w. Some (f w))"
  "appends_opt (\<lambda>w. None)"
  "appends_opt f1' \<Longrightarrow> appends_opt f2' \<Longrightarrow> appends_opt (\<lambda>w. if b then f1' w else f2' w)"
  "appends_opt f1' \<Longrightarrow> (\<And>x. appends_opt (h x)) \<Longrightarrow> appends_opt (\<lambda>w. case y of None \<Rightarrow> f1' w | Some x \<Rightarrow> h x w)"
  "(\<And>x. appends_opt (h1 x)) \<Longrightarrow> (\<And>x. appends_opt (h2 x)) \<Longrightarrow> appends_opt (\<lambda>w. case z of Inl x \<Rightarrow> h1 x w | Inr x \<Rightarrow> h2 x w)"
  "(\<And>x y. appends_opt (h3 x y)) \<Longrightarrow> appends_opt (\<lambda>w. case p of (x, y) \<Rightarrow> h3 x y w)"
proof -
  show "appends_opt (\<lambda>w. Some (f w))" if "appends f"
  proof -
    obtain b r where "\<forall>w. f w = (put w b, r)" using \<open>appends f\<close> by (auto simp: appends_def)
    then show ?thesis unfolding appends_opt_def by (intro exI [of _ "Some (b, r)"]) simp
  qed
  show "appends_opt (\<lambda>w. None)" unfolding appends_opt_def by (rule exI [of _ None]) simp
  show "appends_opt (\<lambda>w. if b then f1' w else f2' w)" if "appends_opt f1'" "appends_opt f2'" using that by (cases b) simp_all
  show "appends_opt (\<lambda>w. case y of None \<Rightarrow> f1' w | Some x \<Rightarrow> h x w)" if "appends_opt f1'" "\<And>x. appends_opt (h x)"
    using that by (cases y) simp_all
  show "appends_opt (\<lambda>w. case z of Inl x \<Rightarrow> h1 x w | Inr x \<Rightarrow> h2 x w)" if "\<And>x. appends_opt (h1 x)" "\<And>x. appends_opt (h2 x)"
    using that by (cases z) simp_all
  show "appends_opt (\<lambda>w. case p of (x, y) \<Rightarrow> h3 x y w)" if "\<And>x y. appends_opt (h3 x y)" using that by (cases p) simp
qed

lemma appends_mget_loop [writes_intros]: "writes g \<Longrightarrow> appends (\<lambda>w. mget_loop E s ks (g w) now)"
proof (induction ks arbitrary: s g)
  case (Cons k ks)
  show ?case unfolding mget_loop.simps Let_def case_prod_beta by (rule Cons.IH) (intro writes_intros Cons.prems)
qed (simp add: writes_intros)

lemma appends_handlers [writes_intros]:
  "appends (\<lambda>w. handle_set E s command w now)" "appends (\<lambda>w. handle_ttl E s command w now)"
  "appends (\<lambda>w. handle_pttl E s command w now)" "appends (\<lambda>w. handle_incr E s command w now d)"
  "appends (\<lambda>w. handle_mget E s command w now)" "appends (\<lambda>w. handle_mset E s command w now)"
  "appends (\<lambda>w. handle_expire E s command w now)" "appends (\<lambda>w. handle_persist E s command w now)"
  "appends (\<lambda>w. handle_hget E s command w now)" "appends (\<lambda>w. handle_hgetall E s command w now)"
  "appends (\<lambda>w. handle_hdel E s command w now)"
  unfolding handle_set_def handle_ttl_def handle_pttl_def handle_incr_def handle_mget_def handle_mset_def handle_expire_def
    handle_persist_def handle_hget_def handle_hgetall_def handle_hdel_def Let_def case_prod_beta
  by (intro writes_intros)+

lemma appends_incrby [writes_intros]:
  "appends (\<lambda>w. handle_incrby E s command w now)" "appends (\<lambda>w. handle_decrby E s command w now)"
  unfolding handle_incrby_def handle_decrby_def Let_def case_prod_beta by (intro writes_intros)+

lemma appends_opt_handlers [writes_intros]:
  "appends_opt (\<lambda>w. handle_scan E s command w now)" "appends_opt (\<lambda>w. handle_hset E s command w now)"
  unfolding handle_scan_def handle_hset_def Let_def case_prod_beta by (intro writes_intros)+

lemma appends_server [writes_intros]:
  "appends (\<lambda>w. handle_auth H command w auth)" "appends (\<lambda>w. handle_save H w st)" "appends (\<lambda>w. handle_bgsave H w st)"
  "appends (\<lambda>w. handle_bgrewriteaof H w st)" "appends (\<lambda>w. handle_info H w st)"
  unfolding handle_auth_def handle_save_def handle_bgsave_def handle_bgrewriteaof_def handle_info_def Let_def case_prod_beta
  by (intro writes_intros)+

lemma appends_dispatch [writes_intros]:
  "appends f \<Longrightarrow> appends_opt (\<lambda>w. on_store st auth (f w))"
  "appends f' \<Longrightarrow> appends_opt (\<lambda>w. on_server auth (f' w))"
  "appends_opt g \<Longrightarrow> appends_opt (\<lambda>w. logged command (g w))"
  "appends_opt g' \<Longrightarrow> appends_opt (\<lambda>w. Option.bind (g' w) (on_store st auth))"
proof -
  show "appends_opt (\<lambda>w. on_store st auth (f w))" if "appends f"
  proof -
    obtain b r where "\<forall>w. f w = (put w b, r)" using \<open>appends f\<close> by (auto simp: appends_def)
    then show ?thesis unfolding appends_opt_def by (intro exI [of _ "Some (b, auth, st\<lparr>store := r\<rparr>)"]) (simp add: on_store_def)
  qed
  show "appends_opt (\<lambda>w. on_server auth (f' w))" if "appends f'"
  proof -
    obtain b r where "\<forall>w. f' w = (put w b, r)" using \<open>appends f'\<close> by (auto simp: appends_def)
    then show ?thesis unfolding appends_opt_def by (intro exI [of _ "Some (b, auth, r)"]) (simp add: on_server_def)
  qed
  show "appends_opt (\<lambda>w. logged command (g w))" if "appends_opt g"
  proof -
    obtain x where "\<forall>w. g w = map_option (apfst (put w)) x" using \<open>appends_opt g\<close> by (auto simp: appends_opt_def)
    then show ?thesis unfolding appends_opt_def
      by (intro exI [of _ "map_option (\<lambda>(b, auth, st). (b, auth, aof_log st command)) x"]) (cases x; auto simp: logged_def)
  qed
  show "appends_opt (\<lambda>w. Option.bind (g' w) (on_store st auth))" if "appends_opt g'"
  proof -
    obtain x where "\<forall>w. g' w = map_option (apfst (put w)) x" using \<open>appends_opt g'\<close> by (auto simp: appends_opt_def)
    then show ?thesis unfolding appends_opt_def
      by (intro exI [of _ "map_option (\<lambda>(b, s). (b, auth, st\<lparr>store := s\<rparr>)) x"]) (cases x; auto simp: on_store_def)
  qed
qed

lemma appends_split [writes_intros]: "appends f \<Longrightarrow> appends (\<lambda>w. (fst (f w), snd (f w), r))"
  by (auto simp: appends_def)

lemma execute_appends: "appends_opt (\<lambda>w. execute_command H st command w auth now)"
  unfolding execute_command_def execute_3_def execute_4_def execute_6_def execute_7_def execute_8_def unknown_command_def
    Let_def case_prod_beta
  by (intro writes_intros)

text \<open>So one execution, on an empty buffer, tells what happens on every buffer.\<close>

lemma execute_on_empty:
  "execute_command H st command w auth now =
     map_option (\<lambda>(w0, auth', st'). (put w (wbuf w0), auth', st')) (execute_command H st command \<lparr>wbuf = []\<rparr> auth now)"
proof -
  obtain x where x: "execute_command H st command w auth now = map_option (apfst (put w)) x" for w
    using execute_appends [of H st command auth now] by (auto simp: appends_opt_def)
  show ?thesis unfolding x by (cases x) (auto simp: put_def)
qed

end
