(* ===== verification/Connection.thy ===== *)
theory Connection
  imports Replies
begin

text \<open>
  A client connection, \<^verbatim>\<open>handle_connection\<close> of \<^verbatim>\<open>src/src/main.rs\<close>: reading commands, executing
  them in order, batching the replies, and the connection counters. The stream
  delivers what \<open>reads\<close> says; \<open>wake\<close> says, for each round of the loop, whether the
  shutdown signal or the timer came first and whether a flush succeeds.
\<close>

section \<open>Model\<close>

record conn =
  parser :: resp_parser
  writer :: resp_writer
  authenticated :: bool
  batch_count :: nat
  sent :: bytes

record wake =
  shutdown :: bool
  elapsed :: bool
  flush_ok :: bool

definition connection_new :: "'m env \<Rightarrow> conn" where
  "connection_new E =
     \<lparr>parser = \<lparr>buffer = []\<rparr>, writer = \<lparr>wbuf = []\<rparr>, authenticated = (password (security (conf E)) = ''''),
      batch_count = 0, sent = []\<rparr>"

definition flush_conn :: "bool \<Rightarrow> conn \<Rightarrow> bool \<times> conn" where
  "flush_conn ok c =
     (case writer_flush ok (writer c) of
        (Inl _, w) \<Rightarrow> (False, c\<lparr>writer := w\<rparr>)
      | (Inr bytes, w) \<Rightarrow> (True, c\<lparr>writer := w, sent := sent c @ bytes\<rparr>))"

text \<open>One command that arrived: execute it and flush when the batch is full, the reply buffer is large or no input waits.\<close>

definition serve_command ::
  "'m host \<Rightarrow> 'm server \<Rightarrow> conn \<Rightarrow> bytes list \<Rightarrow> u64 \<Rightarrow> bool \<Rightarrow> (bool \<times> conn \<times> 'm server) option" where
  "serve_command H st c command now ok =
     (case execute_command H st command (writer c) (authenticated c) now of
        None \<Rightarrow> None
      | Some (w, auth, st) \<Rightarrow>
          let c = c\<lparr>writer := w, authenticated := auth, batch_count := batch_count c + 1\<rparr> in
          if batch_count c \<ge> batch_size (server (conf (env H))) \<or> should_flush w \<or> \<not> has_buffered_data (parser c)
          then let (flushed, c) = flush_conn ok c in
               Some (flushed, if flushed then c\<lparr>batch_count := 0\<rparr> else c, st)
          else Some (True, c, st))"

text \<open>The loop. The time passed to a command is read before the command arrives.\<close>

partial_function (option) connection_loop ::
  "'m host \<Rightarrow> (nat \<Rightarrow> read_result) \<Rightarrow> (nat \<Rightarrow> wake) \<Rightarrow> nat \<Rightarrow> nat \<Rightarrow> conn \<Rightarrow> 'm server \<Rightarrow> (conn \<times> 'm server) option" where
  "connection_loop H reads wakes j i c st =
     (let (now, s) = get_timestamp (store st);
          st = st\<lparr>store := s\<rparr>
      in if shutdown (wakes j) then Some (c, st)
         else if connection_timeout (server (conf (env H))) > 0 \<and> elapsed (wakes j) then Some (c, st)
         else (case parse_command reads i (parser c) of
             None \<Rightarrow> None
           | Some (Inl _, p, i) \<Rightarrow> Some (c\<lparr>parser := p\<rparr>, st)
           | Some (Inr command, p, i) \<Rightarrow>
               (case serve_command H st (c\<lparr>parser := p\<rparr>) command now (flush_ok (wakes j)) of
                  None \<Rightarrow> None
                | Some (continue, c, st) \<Rightarrow>
                    if continue then connection_loop H reads wakes (Suc j) i c st else Some (c, st))))"

definition flush_local_count :: "'m server \<Rightarrow> 'm server" where
  "flush_local_count st =
     (let remaining = local_cmd_count st in
      if remaining > 0 then st\<lparr>total_commands := total_commands st + remaining, local_cmd_count := 0\<rparr> else st)"

text \<open>\<open>down\<close>: whether the shutdown was already signalled when the task started.\<close>

definition handle_connection ::
  "'m host \<Rightarrow> (nat \<Rightarrow> read_result) \<Rightarrow> (nat \<Rightarrow> wake) \<Rightarrow> bool \<Rightarrow> bool \<Rightarrow> 'm server \<Rightarrow> (bytes \<times> 'm server) option" where
  "handle_connection H reads wakes down ok st =
     (let st = st\<lparr>total_connections := total_connections st + 1, active_connections := active_connections st + 1\<rparr>;
          c = connection_new (env H)
      in if down then
           let (_, c) = flush_conn ok c in Some (sent c, st\<lparr>active_connections := active_connections st - 1\<rparr>)
         else (case connection_loop H reads wakes 0 0 c st of
             None \<Rightarrow> None
           | Some (c, st) \<Rightarrow>
               let st = flush_local_count st;
                   (_, c) = flush_conn ok c
               in Some (sent c, st\<lparr>active_connections := active_connections st - 1\<rparr>)))"

section \<open>Commands leave the connection counters alone\<close>

definition counters :: "'m server \<Rightarrow> u64 \<times> u64 \<times> u64 \<times> u64 \<times> u64" where
  "counters st = (local_cmd_count st, total_commands st, total_connections st, active_connections st, rejected_connections st)"

definition counting :: "'m server \<Rightarrow> 'm result \<Rightarrow> bool" where
  "counting st res \<longleftrightarrow> (\<forall>w auth st'. res = Some (w, auth, st') \<longrightarrow> counters st' = counters st)"

lemma counters_store [simp]: "counters (st\<lparr>store := s\<rparr>) = counters st"
  by (simp add: counters_def)

lemma counting_intros:
  "(b \<Longrightarrow> counting st x) \<Longrightarrow> (\<not> b \<Longrightarrow> counting st y) \<Longrightarrow> counting st (if b then x else y)"
  "counting st (on_store st auth p)"
  "counting st r \<Longrightarrow> counting st (logged command r)"
  "counting st (Option.bind q (on_store st auth))"
  "counting st (Some (w, auth, st))"
  "counting st (on_server auth (handle_save H w st))" "counting st (on_server auth (handle_bgsave H w st))"
  "counting st (on_server auth (handle_info H w st))" "counting st (on_server auth (handle_bgrewriteaof H w st))"
proof -
  show "counting st (logged command r)" if "counting st r"
    using that by (auto simp: counting_def logged_def counters_def aof_log_def split: option.splits)
  show "counting st (on_server auth (handle_save H w st))" "counting st (on_server auth (handle_bgsave H w st))"
    "counting st (on_server auth (handle_bgrewriteaof H w st))"
    by (auto simp: counting_def on_server_def handle_save_def handle_bgsave_def handle_bgrewriteaof_def counters_def Let_def
        split: prod.splits if_splits option.splits)
  show "counting st (on_server auth (handle_info H w st))"
    by (simp only: counting_def on_server_def handle_info_def Let_def prod.case) (auto simp: counters_def)
qed (auto simp: counting_def on_store_def counters_def case_prod_beta split: bind_splits)

lemma execute_counters:
  assumes "execute_command H st command w auth now = Some (w', auth', st')"
  shows "counters st' = counters (count_command st)"
proof -
  have "counting (count_command st) (execute_command H st command w auth now)"
    unfolding execute_command_def execute_3_def execute_4_def execute_6_def execute_7_def execute_8_def unknown_command_def
      Let_def case_prod_beta
    by (intro counting_intros)
  then show ?thesis using assms by (simp add: counting_def)
qed

section \<open>The loop\<close>

text \<open>Everything a connection has produced: what it sent and what waits in the reply buffer.\<close>

definition produced :: "conn \<Rightarrow> bytes" where
  "produced c = sent c @ wbuf (writer c)"

lemma produced_flush [simp]: "produced (snd (flush_conn ok c)) = produced c"
  by (simp add: flush_conn_def writer_flush_def produced_def)

lemma flush_conn_simps [simp]:
  "parser (snd (flush_conn ok c)) = parser c" "authenticated (snd (flush_conn ok c)) = authenticated c"
  "produced (c\<lparr>batch_count := n\<rparr>) = produced c" "produced (c\<lparr>parser := p\<rparr>) = produced c"
  by (simp_all add: flush_conn_def writer_flush_def produced_def)

lemma flush_succeeds [simp]: "fst (flush_conn True c)" "sent (snd (flush_conn True c)) = produced c"
  by (simp_all add: flush_conn_def writer_flush_def produced_def)

definition commands_seen :: "'m server \<Rightarrow> u64" where
  "commands_seen st = total_commands st + local_cmd_count st"

lemma commands_seen_count: "unat (local_cmd_count st) < 256 \<Longrightarrow>
    commands_seen (count_command st) = commands_seen st + 1 \<and> unat (local_cmd_count (count_command st)) < 256"
proof -
  assume small: "unat (local_cmd_count st) < 256"
  then have l: "unat (local_cmd_count st + 1) = unat (local_cmd_count st) + 1"
    by (simp add: unat_word_ariths)
  have "local_cmd_count st + 1 = 256" if "local_cmd_count st + 1 \<ge> 256"
    using that small l by (simp add: word_le_nat_alt word_unat_eq_iff)
  then show ?thesis
    using small l by (auto simp: commands_seen_def count_command_def Let_def word_le_nat_alt)
qed

text \<open>
  The reference: commands executed one after the other, each at the time read before it
  and on an empty reply buffer, with the bytes that each writes.
\<close>

primrec exec_all :: "'m host \<Rightarrow> bytes list list \<Rightarrow> bool \<Rightarrow> 'm server \<Rightarrow> (bytes list \<times> bool \<times> 'm server) option" where
  "exec_all H [] auth st = Some ([], auth, st)"
| "exec_all H (command # commands) auth st =
     (let (now, s) = get_timestamp (store st) in
      case execute_command H (st\<lparr>store := s\<rparr>) command \<lparr>wbuf = []\<rparr> auth now of
        None \<Rightarrow> None
      | Some (w, auth, st) \<Rightarrow>
          map_option (\<lambda>(replies, auth, st). (wbuf w # replies, auth, st)) (exec_all H commands auth st))"

text \<open>
  \<open>served n c st c' st'\<close>: \<open>n\<close> commands were answered, with one reply each, and the rest of
  the process kept its invariants.
\<close>

definition served :: "'m env \<Rightarrow> nat \<Rightarrow> conn \<Rightarrow> 'm server \<Rightarrow> conn \<Rightarrow> 'm server \<Rightarrow> bool" where
  "served E n c st c' st' \<longleftrightarrow>
     (\<exists>rs. length rs = n \<and> produced c' = produced c @ concat (map render rs))
     \<and> store_ok E (store st') \<and> commands_seen st' = commands_seen st + of_nat n \<and> unat (local_cmd_count st') < 256
     \<and> active_connections st' = active_connections st \<and> total_connections st' = total_connections st
     \<and> (aof_handle st = None \<longrightarrow> aof_handle st' = None)"

lemma served_0:
  "produced c' = produced c \<Longrightarrow> store_ok E s \<Longrightarrow> unat (local_cmd_count st) < 256 \<Longrightarrow> served E 0 c st c' (st\<lparr>store := s\<rparr>)"
  by (simp add: served_def commands_seen_def)

lemma served_trans:
  assumes "served E n c st c' st'" and "served E m c' st' c'' st''"
  shows "served E (n + m) c st c'' st''"
proof -
  obtain rs rs' where "length rs = n" "produced c' = produced c @ concat (map render rs)"
      "length rs' = m" "produced c'' = produced c' @ concat (map render rs')"
    using assms by (auto simp: served_def)
  then have "length (rs @ rs') = n + m" "produced c'' = produced c @ concat (map render (rs @ rs'))" by simp_all
  then have "\<exists>rs. length rs = n + m \<and> produced c'' = produced c @ concat (map render rs)" by blast
  then show ?thesis using assms by (simp add: served_def algebra_simps)
qed

context server_env
begin

lemma get_timestamp_ok:
  "store_ok (env H) s \<Longrightarrow> store_ok (env H) (snd (get_timestamp s))"
  using keeps_ok [OF keeps_clock [of s "\<lambda>i. clock s (Suc i)"]] by (simp add: get_timestamp_def)

lemma serve_served:
  assumes ok: "store_ok (env H) (store st)" and small: "unat (local_cmd_count st) < 256"
  shows "\<exists>continue c' st'. serve_command H st c command now fl = Some (continue, c', st')
    \<and> served (env H) 1 c st c' st' \<and> parser c' = parser c \<and> (fl \<longrightarrow> continue)"
proof -
  obtain r auth' st' where ex: "execute_command H st command (writer c) (authenticated c) now = Some (put (writer c) (render r), auth', st')"
      "store_ok (env H) (store st')" "aof_handle st = None \<longrightarrow> aof_handle st' = None"
    using execute_any [OF ok, of command "writer c" "authenticated c" now] by (elim exE conjE) (rule that)
  let ?c = "c\<lparr>writer := put (writer c) (render r), authenticated := auth', batch_count := batch_count c + 1\<rparr>"
  have "counters st' = counters (count_command st)" by (rule execute_counters [OF ex(1)])
  then have served: "served (env H) 1 c st ?c st'"
    using ex(2,3) commands_seen_count [OF small]
    by (auto simp: served_def produced_def put_def counters_def commands_seen_def count_command_def Let_def
        intro!: exI [of _ "[r]"])
  have run: "serve_command H st c command now fl =
      (if batch_count ?c \<ge> batch_size (server (conf (env H))) \<or> should_flush (writer ?c) \<or> \<not> has_buffered_data (parser ?c)
       then Some (fst (flush_conn fl ?c), if fst (flush_conn fl ?c) then snd (flush_conn fl ?c)\<lparr>batch_count := 0\<rparr> else snd (flush_conn fl ?c), st')
       else Some (True, ?c, st'))"
    by (simp add: serve_command_def ex(1) Let_def case_prod_beta)
  have keep: "served (env H) 1 c st c' st'" if "produced c' = produced ?c" for c'
    using served that by (simp add: served_def)
  show ?thesis
    unfolding run using keep [of ?c] keep [of "snd (flush_conn fl ?c)"] keep [of "snd (flush_conn fl ?c)\<lparr>batch_count := 0\<rparr>"] by auto
qed

lemma serve_exec:
  assumes "serve_command H st c command now True = Some (continue, c', st')"
  obtains w0 where "execute_command H st command \<lparr>wbuf = []\<rparr> (authenticated c) now = Some (w0, authenticated c', st')"
    and "produced c' = produced c @ wbuf w0"
proof -
  obtain w0 auth st1 where ex: "execute_command H st command \<lparr>wbuf = []\<rparr> (authenticated c) now = Some (w0, auth, st1)"
    using assms execute_on_empty [of H st command "writer c" "authenticated c" now]
    by (cases "execute_command H st command \<lparr>wbuf = []\<rparr> (authenticated c) now") (auto simp: serve_command_def)
  have "execute_command H st command (writer c) (authenticated c) now = Some (put (writer c) (wbuf w0), auth, st1)"
    unfolding execute_on_empty [of H st command "writer c"] ex by simp
  moreover have "produced (c\<lparr>writer := put (writer c) (wbuf w0), authenticated := auth, batch_count := n\<rparr>) = produced c @ wbuf w0" for n
    by (simp add: produced_def put_def)
  ultimately have "produced c' = produced c @ wbuf w0 \<and> authenticated c' = auth \<and> st1 = st'"
    using assms by (auto simp: serve_command_def Let_def case_prod_beta split: if_splits)
  then show thesis using that ex by blast
qed

text \<open>Whatever arrives, a loop that ends has answered every command it took.\<close>

text \<open>One round of the loop ends the connection or serves one command and goes on with \<open>loop\<close>.\<close>

lemma round_served:
  assumes body: "(let (now, s) = get_timestamp (store st); st = st\<lparr>store := s\<rparr>
      in if shutdown (wakes j) then Some (c, st)
         else if connection_timeout (server (conf (env H))) > 0 \<and> elapsed (wakes j) then Some (c, st)
         else (case parse_command reads i (parser c) of
             None \<Rightarrow> None
           | Some (Inl _, p, i) \<Rightarrow> Some (c\<lparr>parser := p\<rparr>, st)
           | Some (Inr command, p, i) \<Rightarrow>
               (case serve_command H st (c\<lparr>parser := p\<rparr>) command now (flush_ok (wakes j)) of
                  None \<Rightarrow> None
                | Some (continue, c, st) \<Rightarrow> if continue then loop i c st else Some (c, st)))) = Some r"
    and ok0: "store_ok (env H) (store st)" and small: "unat (local_cmd_count st) < 256"
  obtains n where "served (env H) n c st (fst r) (snd r)"
  | i' c' st' where "served (env H) 1 c st c' st'" and "loop i' c' st' = Some r"
proof -
  let ?s = "snd (get_timestamp (store st))" and ?now = "fst (get_timestamp (store st))"
  let ?st = "st\<lparr>store := ?s\<rparr>"
  have ok: "store_ok (env H) ?s" using ok0 by (rule get_timestamp_ok)
  show thesis
  proof (cases "shutdown (wakes j) \<or> connection_timeout (server (conf (env H))) > 0 \<and> elapsed (wakes j)")
    case True
    then have "r = (c, ?st)" using body by (auto simp: Let_def case_prod_beta split: if_splits)
    then show thesis using that(1) [of 0] served_0 [of c c, OF _ ok small] by simp
  next
    case False
    then obtain res p i' where parse: "parse_command reads i (parser c) = Some (res, p, i')"
      using body by (auto simp: Let_def case_prod_beta split: option.splits)
    show thesis
    proof (cases res)
      case (Inl e)
      then have "r = (c\<lparr>parser := p\<rparr>, ?st)" using body False parse by (auto simp: Let_def case_prod_beta)
      then show thesis using that(1) [of 0] served_0 [of "c\<lparr>parser := p\<rparr>" c, OF _ ok small] by simp
    next
      case (Inr command)
      have l: "unat (local_cmd_count ?st) < 256" "store_ok (env H) (store ?st)" using small ok by simp_all
      obtain continue c' st' where serve: "serve_command H ?st (c\<lparr>parser := p\<rparr>) command ?now (flush_ok (wakes j)) = Some (continue, c', st')"
          "served (env H) 1 (c\<lparr>parser := p\<rparr>) ?st c' st'"
        using serve_served [OF l(2,1), of "c\<lparr>parser := p\<rparr>" command ?now "flush_ok (wakes j)"] by blast
      have one: "served (env H) 1 c st c' st'" using serve(2) by (simp add: served_def commands_seen_def)
      have "(if continue then loop i' c' st' else Some (c', st')) = Some r"
        using body False parse Inr serve(1) by (auto simp: Let_def case_prod_beta)
      then show thesis using that(1) [of 1] that(2) [OF one, of i'] one by (auto split: if_splits)
    qed
  qed
qed

lemma loop_served:
  assumes ret: "connection_loop H reads wakes j i c st = Some r" and "store_ok (env H) (store st)"
    and "unat (local_cmd_count st) < 256"
  shows "\<exists>n. served (env H) n c st (fst r) (snd r)"
proof (rule connection_loop.raw_induct [where P = "\<lambda>H' reads wakes j i c st r. H' = H \<longrightarrow> store_ok (env H) (store st) \<longrightarrow>
      unat (local_cmd_count st) < 256 \<longrightarrow> (\<exists>n. served (env H) n c st (fst r) (snd r))",
    OF _ ret, THEN mp, THEN mp, THEN mp, OF _ refl assms(2,3)], intro impI, goal_cases)
  case (1 loop H' reads wakes j i c st r)
  from 1(2) [unfolded 1(3)] 1(4,5) show ?case
  proof (cases rule: round_served)
    case (2 i' c' st')
    then have "\<exists>n. served (env H) n c' st' (fst r) (snd r)"
      using 1(1) [of H reads wakes "Suc j" i' c' st' r] by (simp add: served_def)
    then show ?thesis using served_trans [OF 2(1)] by blast
  qed blast
qed

text \<open>A client that sends some commands and then closes its side.\<close>

lemma loop_pipeline:
  assumes "store_ok (env H) (store st)" and "unat (local_cmd_count st) < 256" and "\<forall>cmd \<in> set cmds. within_limits cmd"
    and "buffer (parser c) = concat (map frame cmds)" and "reads i = ReadOk []"
    and "\<And>j. wakes j = \<lparr>shutdown = False, elapsed = False, flush_ok = True\<rparr>"
  shows "\<exists>c' replies auth st'. connection_loop H reads wakes j i c st = Some (c', st'\<lparr>store := snd (get_timestamp (store st'))\<rparr>)
    \<and> served (env H) (length cmds) c st c' (st'\<lparr>store := snd (get_timestamp (store st'))\<rparr>)
    \<and> exec_all H cmds (authenticated c) st = Some (replies, auth, st') \<and> produced c' = produced c @ concat replies"
  using assms(1-4)
proof (induction cmds arbitrary: j c st)
  case Nil
  let ?st = "st\<lparr>store := snd (get_timestamp (store st))\<rparr>"
  have p: "parser c = \<lparr>buffer = []\<rparr>" using Nil(4) by (cases "parser c") simp
  have "parse_command reads i (parser c) = Some (Inl (), \<lparr>buffer = []\<rparr>, i + 1)"
    unfolding p by (subst parse_command.simps) (simp add: try_parse_def parse_frame_def MAX_BUFFER_SIZE_def assms(5))
  then have "connection_loop H reads wakes j i c st = Some (c\<lparr>parser := \<lparr>buffer = []\<rparr>\<rparr>, ?st)"
    by (subst connection_loop.simps) (simp add: assms(6) Let_def case_prod_beta)
  then show ?case
    using served_0 [of "c\<lparr>parser := \<lparr>buffer = []\<rparr>\<rparr>" c "env H" "snd (get_timestamp (store st))" st] get_timestamp_ok Nil(1,2) by auto
next
  case (Cons cmd cmds)
  let ?s = "snd (get_timestamp (store st))" and ?now = "fst (get_timestamp (store st))"
  let ?st = "st\<lparr>store := ?s\<rparr>" and ?c = "c\<lparr>parser := \<lparr>buffer = concat (map frame cmds)\<rparr>\<rparr>"
  have p: "parser c = \<lparr>buffer = frame cmd @ concat (map frame cmds)\<rparr>" using Cons.prems(4) by (cases "parser c") simp
  have parse: "parse_command reads i (parser c) = Some (Inr cmd, \<lparr>buffer = concat (map frame cmds)\<rparr>, i)"
    unfolding p using Cons.prems(3) by (subst parse_command.simps) (simp add: try_parse_frame)
  have l: "store_ok (env H) (store ?st)" "unat (local_cmd_count ?st) < 256" using Cons.prems(1,2) get_timestamp_ok by simp_all
  obtain c' st' where serve: "serve_command H ?st ?c cmd ?now True = Some (True, c', st')" "served (env H) 1 ?c ?st c' st'"
      "parser c' = parser ?c"
    using serve_served [OF l, of ?c cmd ?now True] by auto
  have one: "served (env H) 1 c st c' st'" using serve(2) by (simp add: served_def commands_seen_def)
  have step: "connection_loop H reads wakes j i c st = connection_loop H reads wakes (Suc j) i c' st'"
    by (subst connection_loop.simps) (simp add: assms(6) Let_def case_prod_beta parse serve(1))
  obtain w0 where w0: "execute_command H ?st cmd \<lparr>wbuf = []\<rparr> (authenticated ?c) ?now = Some (w0, authenticated c', st')"
      "produced c' = produced ?c @ wbuf w0"
    by (rule serve_exec [OF serve(1)])
  obtain c'' replies auth st'' where rest: "connection_loop H reads wakes (Suc j) i c' st' = Some (c'', st''\<lparr>store := snd (get_timestamp (store st''))\<rparr>)"
      "served (env H) (length cmds) c' st' c'' (st''\<lparr>store := snd (get_timestamp (store st''))\<rparr>)"
      "exec_all H cmds (authenticated c') st' = Some (replies, auth, st'')" "produced c'' = produced c' @ concat replies"
  proof -
    have "store_ok (env H) (store st')" "unat (local_cmd_count st') < 256" using one by (simp_all add: served_def)
    then show thesis using that Cons.IH [of st' c' "Suc j"] Cons.prems(3) serve(3) by auto
  qed
  have "exec_all H (cmd # cmds) (authenticated c) st = Some (wbuf w0 # replies, auth, st'')"
    using w0(1) rest(3) by (simp add: case_prod_beta)
  moreover have "produced c'' = produced c @ concat (wbuf w0 # replies)" using w0(2) rest(4) by simp
  ultimately show ?case unfolding step using served_trans [OF one rest(2)] rest(1) by (simp del: exec_all.simps)
qed

end

lemma exec_all_length: "exec_all H cmds auth st = Some (replies, auth', st') \<Longrightarrow> length replies = length cmds"
  by (induction cmds arbitrary: auth st replies) (auto simp: Let_def case_prod_beta split: option.splits)

context server_env
begin

lemma exec_all_replies:
  "store_ok (env H) (store st) \<Longrightarrow> exec_all H cmds auth st = Some (replies, auth', st') \<Longrightarrow> \<exists>rs. replies = map render rs"
proof (induction cmds arbitrary: auth st replies)
  case (Cons cmd cmds)
  let ?st = "st\<lparr>store := snd (get_timestamp (store st))\<rparr>" and ?now = "fst (get_timestamp (store st))"
  have ok: "store_ok (env H) (store ?st)" using get_timestamp_ok Cons.prems(1) by simp
  obtain r a1 st1 where ex: "execute_command H ?st cmd \<lparr>wbuf = []\<rparr> auth ?now = Some (put \<lparr>wbuf = []\<rparr> (render r), a1, st1)"
      "store_ok (env H) (store st1)"
    using execute_any [OF ok, of cmd "\<lparr>wbuf = []\<rparr>" auth ?now] by blast
  then obtain rest where "exec_all H cmds a1 st1 = Some (rest, auth', st')" "replies = render r # rest"
    using Cons.prems(2) by (auto simp: case_prod_beta put_def)
  then show ?case using Cons.IH [OF ex(2)] by (metis list.simps(9))
qed simp

end

lemma loop_parser:
  assumes "parse_command reads i (parser c) = parse_command reads i' p" and "\<not> shutdown (wakes j)" and "\<not> elapsed (wakes j)"
  shows "connection_loop H reads wakes j i c st = connection_loop H reads wakes j i' (c\<lparr>parser := p\<rparr>) st"
proof -
  have upd: "c\<lparr>parser := p, parser := q\<rparr> = c\<lparr>parser := q\<rparr>" "parser (c\<lparr>parser := p\<rparr>) = p" for q by simp_all
  show ?thesis
    by (subst connection_loop.simps, subst (2) connection_loop.simps)
      (simp only: assms upd simp_thms if_False)
qed

section \<open>Properties\<close>

lemma flush_local_count_simps:
  "local_cmd_count (flush_local_count st) = 0" "total_commands (flush_local_count st) = commands_seen st"
  "store (flush_local_count st) = store st" "active_connections (flush_local_count st) = active_connections st"
  "total_connections (flush_local_count st) = total_connections st"
  by (auto simp: flush_local_count_def commands_seen_def Let_def word_gt_0)

lemma connection_new_produced [simp]: "produced (connection_new E) = []"
  by (simp add: connection_new_def produced_def)

lemma sent_prefix: "prefix (sent (snd (flush_conn ok c))) (produced c)" "ok \<Longrightarrow> sent (snd (flush_conn ok c)) = produced c"
  by (auto simp: flush_conn_def writer_flush_def produced_def)

text \<open>A quiet round of the loop, and a client that sends two commands in one piece.\<close>

definition calm :: wake where
  "calm = \<lparr>shutdown = False, elapsed = False, flush_ok = True\<rparr>"

definition ping_get :: "nat \<Rightarrow> read_result" where
  "ping_get i = ReadOk (if i = 0 then frame [bs ''PING''] @ frame [bs ''GET'', [107]] else [])"



text \<open>C3: A pipeline is answered completely and in order. A client that sends any list of
  commands in one piece and closes its side gets exactly the bytes that the commands
  write when they are executed one after the other, each one well-formed reply, in the
  order of the commands, wherever the batching puts the flushes; the connection ends, with
  nothing left to send, with the keyspace of that execution and the commands counted.\<close>

theorem connection_answers_pipeline:
  assumes "dashmap (dash (env H))" and "store_ok (env H) (store st)" and "unat (local_cmd_count st) < 256"
    and "\<forall>cmd \<in> set cmds. within_limits cmd" and "cmds \<noteq> []" and "length (concat (map frame cmds)) \<le> MAX_BUFFER_SIZE"
    and "reads 0 = ReadOk (concat (map frame cmds))" and "reads 1 = ReadOk []"
    and "\<And>j. wakes j = \<lparr>shutdown = False, elapsed = False, flush_ok = True\<rparr>"
  shows "\<exists>rs auth st1 st'.
      exec_all H cmds (password (security (conf (env H))) = [])
        (st\<lparr>total_connections := total_connections st + 1, active_connections := active_connections st + 1\<rparr>) = Some (map render rs, auth, st1)
    \<and> length rs = length cmds
    \<and> handle_connection H reads wakes False True st = Some (concat (map render rs), st')
    \<and> keyspace (env H) (store st') = keyspace (env H) (store st1)
    \<and> total_commands st' = commands_seen st + of_nat (length cmds)"
proof -
  let ?st = "st\<lparr>total_connections := total_connections st + 1, active_connections := active_connections st + 1\<rparr>"
  let ?c = "connection_new (env H)" and ?buf = "\<lparr>buffer = concat (map frame cmds)\<rparr>"
  have ok: "store_ok (env H) (store ?st)" "unat (local_cmd_count ?st) < 256" using assms(2,3) by simp_all
  have p: "parser ?c = \<lparr>buffer = []\<rparr>" and a: "authenticated ?c = (password (security (conf (env H))) = [])"
    by (simp_all add: connection_new_def)
  have ne: "concat (map frame cmds) \<noteq> []" using assms(5) by (cases cmds) (simp_all add: frame_def byte_simps)
  have "parse_command reads 0 (parser ?c) = parse_command reads 1 ?buf"
    unfolding p by (subst parse_command.simps)
      (simp add: try_parse_def parse_frame_def MAX_BUFFER_SIZE_def assms(7) ne del: concat_eq_Nil_conv)
  then have "connection_loop H reads wakes 0 0 ?c ?st = connection_loop H reads wakes 0 1 (?c\<lparr>parser := ?buf\<rparr>) ?st"
    by (rule loop_parser) (simp_all add: assms(9))
  moreover obtain c1 replies auth st1 where
      loop: "connection_loop H reads wakes 0 1 (?c\<lparr>parser := ?buf\<rparr>) ?st = Some (c1, st1\<lparr>store := snd (get_timestamp (store st1))\<rparr>)"
      "served (env H) (length cmds) (?c\<lparr>parser := ?buf\<rparr>) ?st c1 (st1\<lparr>store := snd (get_timestamp (store st1))\<rparr>)"
      "exec_all H cmds (authenticated ?c) ?st = Some (replies, auth, st1)" "produced c1 = concat replies"
    using server_env.loop_pipeline [OF server_envI [OF assms(1)] ok assms(4), of "?c\<lparr>parser := ?buf\<rparr>" reads 1 wakes 0] assms(8,9) by auto
  moreover obtain rs where rs: "replies = map render rs"
    using server_env.exec_all_replies [OF server_envI [OF assms(1)] ok(1) loop(3)] by blast
  moreover have "length rs = length cmds" using exec_all_length [OF loop(3)] rs by simp
  moreover have "keyspace (env H) (snd (get_timestamp (store st1))) = keyspace (env H) (store st1)"
    by (rule keyspace_cong, rule same_entriesD) (simp add: get_timestamp_def)
  ultimately show ?thesis
    unfolding a by - (rule exI [of _ rs], rule exI [of _ auth], rule exI [of _ st1], simp add: handle_connection_def
      Let_def case_prod_beta served_def commands_seen_def flush_local_count_simps)
qed

theorem connection_answers_pipeline_witness:
  "\<exists>rs st'. handle_connection demo_host ping_get (\<lambda>_. calm) False True (demo_server small_db_k) = Some (concat (map render rs), st')
    \<and> length rs = 2 \<and> total_commands st' = 2"
proof -
  let ?cmds = "[[bs ''PING''], [bs ''GET'', [107]]]" and ?st = "demo_server small_db_k"
  have small: "\<forall>cmd \<in> set ?cmds. within_limits cmd" "length (concat (map frame ?cmds)) \<le> MAX_BUFFER_SIZE"
      "ping_get 0 = ReadOk (concat (map frame ?cmds))" "ping_get 1 = ReadOk []"
    by (simp_all add: ping_get_def within_limits_def MAX_ARRAY_LEN_def MAX_STRING_LEN_def MAX_BUFFER_SIZE_def frame_def bulk_def
        byte_simps dec.simps)
  have quiet: "(\<lambda>_. calm) j = \<lparr>shutdown = False, elapsed = False, flush_ok = True\<rparr>" for j :: nat by (simp add: calm_def)
  have start: "dashmap (dash (env demo_host))" "store_ok (env demo_host) (store ?st)" "unat (local_cmd_count ?st) < 256"
      "commands_seen ?st = 0" using small_env_dashmap small_db_k_ok by (simp_all add: demo_server_def commands_seen_def)
  obtain rs st' where "handle_connection demo_host ping_get (\<lambda>_. calm) False True ?st = Some (concat (map render rs), st')"
      "length rs = length ?cmds" "total_commands st' = commands_seen ?st + of_nat (length ?cmds)"
    using connection_answers_pipeline [OF start(1-3) small(1) _ small(2-4) quiet] by blast
  then show ?thesis using start(4) by (intro exI [of _ rs] exI [of _ st']) simp
qed

end
