(* ===== verification/Server.thy ===== *)
theory Server
  imports Recovery Connection
begin

text \<open>
  The process around the connections: admission of clients (\<^verbatim>\<open>check_rate_limit\<close> of
  \<^verbatim>\<open>src/src/server.rs\<close> and the accept loop of \<^verbatim>\<open>main\<close>), the health report, the reply buffer
  pool of \<^verbatim>\<open>src/src/store.rs\<close>, the background tasks, and the interleaving of all these
  with the commands of the clients.
\<close>

section \<open>Admission\<close>

record limiter =
  last_rate_check :: u64
  connections_this_second :: u64

definition check_rate_limit :: "'m env \<Rightarrow> 'm db \<Rightarrow> limiter \<Rightarrow> bool \<times> limiter \<times> 'm db" where
  "check_rate_limit E s l =
     (let rate_limit = connection_rate_limit (server (conf E)) in
      if rate_limit = 0 then (True, l, s)
      else
        let (now, s) = get_timestamp s;
            last_check = last_rate_check l
        in if now \<noteq> last_check then (True, \<lparr>last_rate_check = now, connections_this_second = 1\<rparr>, s)
           else let count = connections_this_second l
                in (count < rate_limit, l\<lparr>connections_this_second := count + 1\<rparr>, s))"

text \<open>What the accept loop does with a connection: whether it spawns a task for it.\<close>

definition accept_connection :: "'m env \<Rightarrow> limiter \<Rightarrow> 'm server \<Rightarrow> bool \<times> limiter \<times> 'm server" where
  "accept_connection E l st =
     (let active = active_connections st; limit = max_connections (server (conf E)) in
      if limit > 0 \<and> unat active \<ge> limit then
        (False, l, st\<lparr>rejected_connections := rejected_connections st + 1\<rparr>)
      else
        let (allowed, l, s) = check_rate_limit E (store st) l;
            st = st\<lparr>store := s\<rparr>
        in if \<not> allowed then (False, l, st\<lparr>rejected_connections := rejected_connections st + 1\<rparr>)
           else (True, l, st))"

text \<open>The answer of the health endpoint.\<close>

definition health_status :: "'m server \<Rightarrow> bytes" where
  "health_status st =
     bs ''{'' @ [34] @ bs ''status'' @ [34, 58, 34] @ bs ''healthy'' @ [34, 44, 34] @ bs ''active_connections'' @ [34, 58]
       @ dec (unat (active_connections st)) @ [44, 34] @ bs ''total_commands'' @ [34, 58]
       @ dec (unat (total_commands st)) @ [44, 34] @ bs ''total_connections'' @ [34, 58]
       @ dec (unat (total_connections st)) @ [44, 34] @ bs ''memory_used'' @ [34, 58]
       @ dec (unat (memory_used (store st))) @ bs ''}''"

section \<open>Buffer pool\<close>

text \<open>A cleared buffer is its capacity; the pool is a queue.\<close>

definition buffer_pool :: "server_config \<Rightarrow> nat list" where
  "buffer_pool cfg = replicate (buffer_pool_size cfg) (buffer_size cfg)"

definition get_buffer :: "server_config \<Rightarrow> nat list \<Rightarrow> nat \<times> nat list" where
  "get_buffer cfg pool = (case pool of b # rest \<Rightarrow> (b, rest) | [] \<Rightarrow> (buffer_size cfg, []))"

definition return_buffer :: "server_config \<Rightarrow> nat \<Rightarrow> nat list \<Rightarrow> nat list" where
  "return_buffer cfg capacity pool =
     (if capacity \<le> buffer_size cfg * 2 then pool @ [capacity]
      else if capacity \<le> buffer_size cfg * 4 \<and> length pool < buffer_pool_size cfg div 4 then pool @ [capacity]
      else pool)"

section \<open>Startup\<close>

text \<open>
  \<^verbatim>\<open>load_tls_config\<close>, over the file system and the functions it calls of \<^verbatim>\<open>rustls_pemfile\<close>
  and \<^verbatim>\<open>rustls\<close>.
\<close>

record ('c, 'k, 't) tls_ops =
  read_file :: "string \<Rightarrow> bytes option"
  pem_certs :: "bytes \<Rightarrow> 'c list option"
  pem_keys :: "bytes \<Rightarrow> 'k list option"
  with_single_cert :: "'c list \<Rightarrow> 'k \<Rightarrow> 't option"

datatype tls_error = FileUnreadable string | BadPem string | NoCertificates | NoPrivateKeys | BadConfig

definition load_tls_config :: "('c, 'k, 't) tls_ops \<Rightarrow> string \<Rightarrow> string \<Rightarrow> tls_error + 't" where
  "load_tls_config T cert_path key_path =
     (case read_file T cert_path of
        None \<Rightarrow> Inl (FileUnreadable cert_path)
      | Some cert_file \<Rightarrow>
          (case pem_certs T cert_file of
             None \<Rightarrow> Inl (BadPem cert_path)
           | Some certs \<Rightarrow>
               if certs = [] then Inl NoCertificates
               else (case read_file T key_path of
                   None \<Rightarrow> Inl (FileUnreadable key_path)
                 | Some key_file \<Rightarrow>
                     (case pem_keys T key_file of
                        None \<Rightarrow> Inl (BadPem key_path)
                      | Some [] \<Rightarrow> Inl NoPrivateKeys
                      | Some (key # _) \<Rightarrow>
                          (case with_single_cert T certs key of
                             None \<Rightarrow> Inl BadConfig
                           | Some config \<Rightarrow> Inr config)))))"

text \<open>The tasks that \<^verbatim>\<open>main\<close> starts beside the accept loop.\<close>

datatype task = HealthTask | ExpirationTask | SnapshotTask | EverysecTask | RewriteSupervisor

definition spawned_tasks :: "'m host \<Rightarrow> 'm server \<Rightarrow> task list" where
  "spawned_tasks H st =
     (let p = persistence (conf (env H)) in
      (if health_check_port (server (conf (env H))) > 0 then [HealthTask] else [])
      @ [ExpirationTask]
      @ (if enabled p \<and> snapshot_interval p > 0 then [SnapshotTask] else [])
      @ (case aof_handle st of Some a \<Rightarrow> if fsync a = EverySec then [EverysecTask] else [] | None \<Rightarrow> [])
      @ (case aof_handle st of Some _ \<Rightarrow> [RewriteSupervisor] | None \<Rightarrow> []))"

datatype start_error = DataError startup_error | TlsPathsMissing | TlsLoadFailed tls_error | BindFailed

text \<open>
  \<^verbatim>\<open>main\<close> up to the accept loop: the new store, the data, TLS, the listening socket
  (\<open>binds\<close>), the tasks. It ends with an exit or with the state the server starts from.
\<close>

definition start_server ::
  "'m host \<Rightarrow> ('c, 'k, 't) tls_ops \<Rightarrow> 'm server \<Rightarrow> (bytes + bytes) option \<Rightarrow> (bytes + bytes) option \<Rightarrow> (nat \<Rightarrow> nat option)
    \<Rightarrow> bool \<Rightarrow> (start_error + 't option \<times> task list \<times> 'm server) option" where
  "start_server H T st snapshot log io binds =
     (case load_data H (st\<lparr>store := store_new (env H) (num_shards (server (conf (env H)))) (clock (store st)) (rng (store st))\<rparr>)
             snapshot log io of
        None \<Rightarrow> None
      | Some (Inl e) \<Rightarrow> Some (Inl (DataError e))
      | Some (Inr st) \<Rightarrow>
          let sec = security (conf (env H));
              listen = (\<lambda>tls. if binds then Inr (tls, spawned_tasks H st, st) else Inl BindFailed)
          in Some (if tls_enabled sec then
               (if tls_cert_path sec = '''' \<or> tls_key_path sec = '''' then Inl TlsPathsMissing
                else (case load_tls_config T (tls_cert_path sec) (tls_key_path sec) of
                    Inr config \<Rightarrow> listen (Some config)
                  | Inl e \<Rightarrow> Inl (TlsLoadFailed e)))
             else listen None))"

section \<open>Background tasks\<close>

definition expiration_tick :: "'m host \<Rightarrow> 'm server \<Rightarrow> 'm server" where
  "expiration_tick H st = st\<lparr>store := snd (expire_random_keys (env H) (store st) 20)\<rparr>"

text \<open>
  A save on a blocking thread. The periodic one is started at a tick and not awaited;
  it is modelled as the tick.
\<close>

definition save_now :: "'m host \<Rightarrow> 'm server \<Rightarrow> 'm server" where
  "save_now H st =
     (let (result, s, p) = save_snapshot_sync (bin H) (env H) (store st) (snapshots st) (save_io st 0)
      in st\<lparr>store := s, snapshots := p, save_io := (\<lambda>i. save_io st (Suc i))\<rparr>)"

definition snapshot_tick :: "'m host \<Rightarrow> 'm server \<Rightarrow> 'm server" where
  "snapshot_tick H st = (if snapshot_interval (persistence (conf (env H))) = 0 then st else save_now H st)"

definition everysec_tick :: "'m server \<Rightarrow> 'm server" where
  "everysec_tick st =
     (case aof_handle st of
        Some a \<Rightarrow> if dirty a then st\<lparr>aof_handle := Some (snd (aof_sync a))\<rparr> else st
      | None \<Rightarrow> st)"

definition rewrite_tick :: "'m host \<Rightarrow> 'm server \<Rightarrow> 'm server" where
  "rewrite_tick H st =
     (let p = persistence (conf (env H)) in
      case aof_handle st of
        Some a \<Rightarrow>
          if aof_rewrite_percentage p = 0 then st
          else if should_rewrite a (aof_rewrite_min_size p) (aof_rewrite_percentage p) \<and> \<not> rewrite_in_progress a
          then st\<lparr>jobs := jobs st @ [RewriteJob]\<rparr> else st
      | None \<Rightarrow> st)"

text \<open>At shutdown: a last sync of the log, then a last snapshot.\<close>

definition final_sync :: "'m server \<Rightarrow> 'm server" where
  "final_sync st = st\<lparr>aof_handle := map_option (\<lambda>a. snd (aof_sync a)) (aof_handle st)\<rparr>"

definition final_snapshot :: "'m host \<Rightarrow> 'm server \<Rightarrow> 'm server" where
  "final_snapshot H st =
     (let p = persistence (conf (env H)) in
      if enabled p \<and> save_on_shutdown p then save_now H st else st)"

text \<open>
  The drain at shutdown. \<open>obs\<close> is what each round of its loop sees: whether a second
  signal came, the time that remains, and whether a task finished within the slice.
  The result says whether the tasks still running were aborted.
\<close>

record drain_round =
  force_exit :: bool
  remaining :: nat
  finished :: bool

datatype drained = Drained | Aborted nat

partial_function (option) drain :: "(nat \<Rightarrow> drain_round) \<Rightarrow> nat \<Rightarrow> nat \<Rightarrow> drained option" where
  "drain obs i tasks =
     (if force_exit (obs i) then Some (Aborted tasks)
      else if remaining (obs i) = 0 then Some (Aborted tasks)
      else if tasks = 0 then Some Drained
      else if finished (obs i) then
        (if tasks - 1 = 0 then Some Drained else drain obs (Suc i) (tasks - 1))
      else drain obs (Suc i) tasks)"

text \<open>
  The process as a whole: commands of any clients, in any order, between ticks of the
  tasks it started and the jobs that were started. Each is one step.
\<close>

inductive running :: "'m host \<Rightarrow> task list \<Rightarrow> 'm server \<Rightarrow> 'm server \<Rightarrow> bool" for H tasks st0 where
  start: "running H tasks st0 st0"
| command: "running H tasks st0 st \<Longrightarrow> execute_command H st cmd w auth now = Some (w', auth', st') \<Longrightarrow> running H tasks st0 st'"
| expire: "running H tasks st0 st \<Longrightarrow> ExpirationTask \<in> set tasks \<Longrightarrow> running H tasks st0 (expiration_tick H st)"
| snapshot: "running H tasks st0 st \<Longrightarrow> SnapshotTask \<in> set tasks \<Longrightarrow> running H tasks st0 (snapshot_tick H st)"
| everysec: "running H tasks st0 st \<Longrightarrow> EverysecTask \<in> set tasks \<Longrightarrow> running H tasks st0 (everysec_tick st)"
| everysec_exit: "running H tasks st0 st \<Longrightarrow> EverysecTask \<in> set tasks \<Longrightarrow> running H tasks st0 (final_sync st)"
| rewrite: "running H tasks st0 st \<Longrightarrow> RewriteSupervisor \<in> set tasks \<Longrightarrow> running H tasks st0 (rewrite_tick H st)"
| save_job: "running H tasks st0 st \<Longrightarrow> jobs st = js @ SaveJob # js' \<Longrightarrow>
    running H tasks st0 (run_save_job H (st\<lparr>jobs := js @ js'\<rparr>))"
| rewrite_job: "running H tasks st0 st \<Longrightarrow> jobs st = js @ RewriteJob # js' \<Longrightarrow>
    running H tasks st0 (run_rewrite_job H (st\<lparr>jobs := js @ js'\<rparr>))"

text \<open>
  Connections between accepting and starting: \<open>waiting\<close> tasks have been spawned but have
  not run yet; one whose TLS handshake fails is dropped. With \<open>prompt\<close> every task starts (or is dropped) before the next connection is accepted.
\<close>

inductive accepting :: "'m env \<Rightarrow> bool \<Rightarrow> limiter \<times> 'm server \<Rightarrow> limiter \<times> 'm server \<times> nat \<Rightarrow> bool"
  for E prompt s0 where
  start: "accepting E prompt s0 (fst s0, snd s0, 0)"
| accept: "accepting E prompt s0 (l, st, waiting) \<Longrightarrow> (prompt \<Longrightarrow> waiting = 0) \<Longrightarrow>
    accept_connection E l st = (spawned, l', st') \<Longrightarrow>
    accepting E prompt s0 (l', st', if spawned then Suc waiting else waiting)"
| begun: "accepting E prompt s0 (l, st, Suc waiting) \<Longrightarrow>
    accepting E prompt s0 (l, st\<lparr>total_connections := total_connections st + 1, active_connections := active_connections st + 1\<rparr>, waiting)"
| dropped: "accepting E prompt s0 (l, st, Suc waiting) \<Longrightarrow> accepting E prompt s0 (l, st, waiting)"
| ended: "accepting E prompt s0 (l, st, waiting) \<Longrightarrow> active_connections st > 0 \<Longrightarrow>
    accepting E prompt s0 (l, st\<lparr>active_connections := active_connections st - 1\<rparr>, waiting)"

text \<open>
  The threads that save, step by step, on the flag \<^verbatim>\<open>SAVE_IN_PROGRESS\<close>. A thread that
  \<^verbatim>\<open>BGSAVE\<close> started clears the flag it was given before \<^verbatim>\<open>save_snapshot_sync\<close> takes it again.
\<close>

datatype save_point = Spawned | Cleared | Saving | Refused | Finished

inductive saving :: "bool \<Rightarrow> save_point list \<Rightarrow> bool" where
  start: "saving False []"
| bgsave: "saving False ts \<Longrightarrow> saving True (ts @ [Spawned])"
| bgsave_busy: "saving True ts \<Longrightarrow> saving True ts"
| save: "saving False ts \<Longrightarrow> saving True (ts @ [Saving])"
| clear: "saving flag ts \<Longrightarrow> i < length ts \<Longrightarrow> ts ! i = Spawned \<Longrightarrow> saving False (ts[i := Cleared])"
| enter: "saving False ts \<Longrightarrow> i < length ts \<Longrightarrow> ts ! i = Cleared \<Longrightarrow> saving True (ts[i := Saving])"
| refuse: "saving True ts \<Longrightarrow> i < length ts \<Longrightarrow> ts ! i = Cleared \<Longrightarrow> saving True (ts[i := Refused])"
| leave: "saving flag ts \<Longrightarrow> i < length ts \<Longrightarrow> ts ! i = Saving \<Longrightarrow> saving False (ts[i := Finished])"

section \<open>Facts\<close>

lemma length_filter_update:
  "i < length xs \<Longrightarrow> length (filter P (xs[i := x])) + (if P (xs ! i) then 1 else 0) = length (filter P xs) + (if P x then 1 else 0)"
proof (induction xs arbitrary: i)
  case (Cons y xs)
  then show ?case by (cases i) auto
qed simp

text \<open>The flag is set exactly while one thread owns it.\<close>

definition owners :: "save_point list \<Rightarrow> save_point list" where
  "owners ts = filter (\<lambda>t. t = Spawned \<or> t = Saving) ts"

lemma saving_owner: "saving flag ts \<Longrightarrow> length (owners ts) = (if flag then 1 else 0)"
proof (induction rule: saving.induct)
  case (clear flag ts i)
  then show ?case using length_filter_update [of i ts "\<lambda>t. t = Spawned \<or> t = Saving" Cleared]
    by (simp add: owners_def split: if_splits)
next
  case (leave flag ts i)
  then show ?case using length_filter_update [of i ts "\<lambda>t. t = Spawned \<or> t = Saving" Finished]
    by (simp add: owners_def split: if_splits)
next
  case (enter ts i)
  then show ?case using length_filter_update [of i ts "\<lambda>t. t = Spawned \<or> t = Saving" Saving]
    by (simp add: owners_def)
next
  case (refuse ts i)
  then show ?case using length_filter_update [of i ts "\<lambda>t. t = Spawned \<or> t = Saving" Refused]
    by (simp add: owners_def)
qed (simp_all add: owners_def)

primrec rate_checks :: "'m env \<Rightarrow> nat \<Rightarrow> 'm db \<Rightarrow> limiter \<Rightarrow> bool list" where
  "rate_checks E 0 s l = []"
| "rate_checks E (Suc n) s l = (let (b, l, s) = check_rate_limit E s l in b # rate_checks E n s l)"

lemma rate_checks_same_second:
  assumes "connection_rate_limit (server (conf E)) > 0"
  shows "\<forall>i < n. clock s i = now \<Longrightarrow> last_rate_check l = now \<Longrightarrow> unat (connections_this_second l) + n < 2 ^ 64 \<Longrightarrow>
    length (filter (\<lambda>b. b) (rate_checks E n s l)) =
      min n (unat (connection_rate_limit (server (conf E))) - unat (connections_this_second l))"
proof (induction n arbitrary: s l)
  case (Suc n)
  let ?rate = "connection_rate_limit (server (conf E))" and ?c = "connections_this_second l"
  let ?s = "s\<lparr>clock := (\<lambda>i. clock s (Suc i))\<rparr>" and ?l = "l\<lparr>connections_this_second := ?c + 1\<rparr>"
  have "clock s 0 = now" using Suc.prems(1) by blast
  then have step: "check_rate_limit E s l = (?c < ?rate, ?l, ?s)"
    using assms Suc.prems(2) by (simp add: check_rate_limit_def get_timestamp_def word_gt_0 Let_def)
  have c: "unat (?c + 1) = unat ?c + 1" using Suc.prems(3) by (simp add: unat_word_ariths)
  have "length (filter (\<lambda>b. b) (rate_checks E n ?s ?l)) = min n (unat ?rate - unat (?c + 1))"
    using Suc.IH [of ?s ?l] Suc.prems c by simp
  then show ?case using c by (auto simp: step word_less_nat_alt)
qed simp

lemma accept_unlimited:
  assumes "connection_rate_limit (server (conf E)) = 0" and "unat (active_connections st) < max_connections (server (conf E))"
  shows "accept_connection E l st = (True, l, st)"
  using assms by (simp add: accept_connection_def check_rate_limit_def)

lemma accept_admits:
  assumes "accept_connection E l st = (spawned, l', st')"
  shows "active_connections st' = active_connections st"
    and "spawned \<Longrightarrow> max_connections (server (conf E)) > 0 \<Longrightarrow> unat (active_connections st) < max_connections (server (conf E))"
  using assms by (auto simp: accept_connection_def Let_def split: if_splits prod.splits)

lemma accepting_bound:
  assumes "accepting E True s0 (l, st, waiting)" and "0 < max_connections (server (conf E))"
    and "max_connections (server (conf E)) < 2 ^ 64" and "active_connections (snd s0) = 0"
  shows "unat (active_connections st) + waiting \<le> max_connections (server (conf E))"
  using assms(1)
proof (induction "(l, st, waiting)" arbitrary: l st waiting rule: accepting.induct)
  case (accept l st waiting spawned l' st')
  then show ?case using accept_admits [OF accept.hyps(4)] assms(2) by (cases spawned) simp_all
next
  case (begun l st waiting)
  then have "unat (active_connections st) + 1 < 2 ^ 64" using assms(3) by simp
  then show ?case using begun.hyps(2) by (simp add: unat_word_ariths)
next
  case (ended l st waiting)
  then show ?case by (simp add: unat_minus_one word_gt_0)
qed (use assms in simp_all)

lemma accepting_overshoot:
  assumes "connection_rate_limit (server (conf E)) = 0" and "0 < max_connections (server (conf E))"
    and "active_connections st0 = 0"
  shows "\<exists>st. accepting E False (l0, st0) (l0, st, 0) \<and> active_connections st = of_nat k"
proof -
  have wait: "accepting E False (l0, st0) (l0, st0, k)" for k
  proof (induction k)
    case 0
    show ?case using accepting.start [of E False "(l0, st0)"] by simp
  next
    case (Suc k)
    from accepting.accept [OF Suc _ accept_unlimited [OF assms(1)]] assms(2,3) show ?case by simp
  qed
  have "\<exists>st. accepting E False (l0, st0) (l0, st, k - n) \<and> active_connections st = of_nat n" if "n \<le> k" for n
    using that
  proof (induction n)
    case 0
    show ?case using wait [of k] assms(3) by auto
  next
    case (Suc n)
    then obtain st where st: "accepting E False (l0, st0) (l0, st, Suc (k - Suc n))" "active_connections st = of_nat n"
      by (auto simp: Suc_diff_Suc Suc_le_eq)
    from accepting.begun [OF st(1)] st(2) show ?case by (intro exI conjI) (assumption, simp)
  qed
  from this [of k] show ?thesis by simp
qed

lemma rewrite_store: "\<exists>c. snd (snd (aof_rewrite E s a)) = s\<lparr>clock := c\<rparr>"
proof -
  have "\<exists>c. snd (snd (rewrite_inner E s b)) = s\<lparr>clock := c\<rparr>" for b
    by (auto simp: rewrite_inner_def get_timestamp_def Let_def case_prod_beta split: option.split)
  moreover have "\<exists>c. s = s\<lparr>clock := c\<rparr>" by (rule exI [of _ "clock s"]) simp
  ultimately show ?thesis by (simp add: aof_rewrite_def case_prod_beta)
qed

context server_env
begin

lemma running_ok: "running H tasks st0 st \<Longrightarrow> store_ok (env H) (store st0) \<Longrightarrow> store_ok (env H) (store st)"
proof (induction rule: running.induct)
  case (command st cmd w auth now w' auth' st')
  then show ?case using execute_any [of st cmd w auth now] by simp
next
  case (expire st)
  then have "store_ok (env H) (snd (get_timestamp (store st)))" by (intro get_timestamp_ok) simp
  then show ?case
    using expire_samples_effect by (simp add: expiration_tick_def expire_random_keys_def case_prod_beta)
next
  case (snapshot st)
  obtain c where "fst (snd (save_snapshot_sync (bin H) (env H) (store st) (snapshots st) (save_io st 0))) = (store st)\<lparr>clock := c\<rparr>"
    using save_store by blast
  then show ?case using keeps_ok [OF keeps_clock] snapshot by (simp add: snapshot_tick_def save_now_def case_prod_beta)
next
  case (everysec st)
  then show ?case by (simp add: everysec_tick_def split: option.split)
next
  case (everysec_exit st)
  then show ?case by (simp add: final_sync_def)
next
  case (rewrite st)
  then show ?case by (simp add: rewrite_tick_def Let_def split: option.split)
next
  case (save_job st js js')
  obtain c where "fst (snd (save_snapshot_sync (bin H) (env H) (store st) ((snapshots st)\<lparr>save_in_progress := False\<rparr>) (save_io st 0))) =
      (store st)\<lparr>clock := c\<rparr>"
    using save_store by blast
  then show ?case using keeps_ok [OF keeps_clock] save_job by (simp add: run_save_job_def case_prod_beta Let_def)
next
  case (rewrite_job st js js')
  show ?case
  proof (cases "aof_handle st")
    case (Some a)
    obtain c where "snd (snd (aof_rewrite (env H) (store st) a)) = (store st)\<lparr>clock := c\<rparr>" using rewrite_store by blast
    then show ?thesis using keeps_ok [OF keeps_clock] rewrite_job Some by (simp add: run_rewrite_job_def case_prod_beta)
  qed (use rewrite_job in \<open>simp add: run_rewrite_job_def\<close>)
qed simp

end


text \<open>
  Whatever the snapshot file and the log hold, startup ends, and if it does not refuse
  to start it leaves a good store.
\<close>

lemma hm_ok_inserts: "hm_ok h \<Longrightarrow> hm_ok (foldl (\<lambda>h (f, x). hm_insert h f x) h fs)"
  by (induction fs arbitrary: h) auto

lemma decode_entry_ok: "decode_entry C d = Inr (k, v, x) \<Longrightarrow> entry_ok (e\<lparr>val := v\<rparr>)"
  by (auto simp: decode_entry_def entry_ok_def load_value_def hm_ok_inserts split: option.splits sum.splits snapshot_value.splits)

context store_env
begin

lemma load_entries_ok: "store_ok E s \<Longrightarrow> store_ok E (snd (load_entries C E now n inp k s))"
proof (induction n arbitrary: inp k s)
  case (Suc n)
  have "store_ok E (load_entry E s now key v x)" if "decode_entry C d = Inr (key, v, x)" for d key v x
    using decode_entry_ok [OF that, of "\<lparr>val = v, expiry = _, last_accessed = 0, queue_type = 0, access_count = 0\<rparr>"] Suc.prems
    by (auto simp: load_entry_def Let_def intro!: ok_intros)
  then show ?case
    using Suc by (simp add: Let_def split: sum.split)
qed simp

lemma load_snapshot_ok: "store_ok E s \<Longrightarrow> store_ok E (snd (load_snapshot C E s f))"
proof -
  assume ok: "store_ok E s"
  have "store_ok E (s\<lparr>clock := c\<rparr>)" for c by (rule ok_same_entries [OF ok]) (simp_all add: same_entries_def)
  then show ?thesis
    using ok by (simp add: load_snapshot_def get_timestamp_def Let_def load_entries_ok split: option.split sum.split)
qed

end

context server_env
begin

lemma load_data_ok:
  assumes ok: "store_ok (env H) (store st)" and "aof_handle st = None"
  shows "\<exists>r. load_data H st snapshot log io = Some r
    \<and> (\<forall>st'. r = Inr st' \<longrightarrow> store_ok (env H) (store st') \<and> (aof_handle st' \<noteq> None \<longleftrightarrow> aof_enabled (persistence (conf (env H)))))"
proof -
  define st1 where "st1 = (if enabled (persistence (conf (env H)))
      then st\<lparr>store := snd (load_snapshot (bin H) (env H) (store st) snapshot)\<rparr> else st)"
  have st1: "store_ok (env H) (store st1)" "aof_handle st1 = None"
    using assms load_snapshot_ok [OF ok] by (simp_all add: st1_def)
  have clk: "store_ok (env H) (store (st1\<lparr>store := snd (get_timestamp (store st1))\<rparr>))" using get_timestamp_ok [OF st1(1)] by simp
  define st2 where "st2 = st1\<lparr>store := snd (get_timestamp (store st1))\<rparr>"
  have replay: "\<exists>r. replay_loop H inp st2 \<lparr>wbuf = []\<rparr> True now 0 = Some r
      \<and> (\<forall>m st'. r = Inr (m, st') \<longrightarrow> store_ok (env H) (store st') \<and> aof_handle st' = None)" for inp now
    using replay_reads [of st2 True inp "\<lparr>wbuf = []\<rparr>" now 0] clk st1(2)
    by (cases "read_log inp"; cases "snd (read_log inp)") (auto simp: st2_def)
  have opened: "open_log st' content policy io = Inr st'' \<Longrightarrow> store st'' = store st' \<and> aof_handle st'' \<noteq> None" for st' content policy st''
    by (auto simp: open_log_def split: option.splits)
  have run: "load_data H st snapshot log io =
     (if \<not> aof_enabled (persistence (conf (env H))) then Some (Inr st1)
      else (case fsync_parse (aof_fsync (persistence (conf (env H)))) of
          Inl e \<Rightarrow> Some (Inl (BadFsync e))
        | Inr policy \<Rightarrow> (case log of
             None \<Rightarrow> Some (open_log st1 [] policy io)
           | Some (Inl e) \<Rightarrow> Some (Inl LogUnreadable)
           | Some (Inr inp) \<Rightarrow> (case replay_loop H inp st2 \<lparr>wbuf = []\<rparr> True (fst (get_timestamp (store st1))) 0 of
                 None \<Rightarrow> None
               | Some (Inl n) \<Rightarrow> Some (Inl (CorruptLog n))
               | Some (Inr (n, st)) \<Rightarrow> Some (open_log st inp policy io)))))"
    unfolding load_data_def Let_def st1_def [symmetric] st2_def case_prod_beta by (rule refl)
  show ?thesis
  proof (cases "aof_enabled (persistence (conf (env H))) \<and> (\<exists>inp. log = Some (Inr inp))")
    case True
    then obtain inp where inp: "log = Some (Inr inp)" "aof_enabled (persistence (conf (env H)))" by blast
    show ?thesis
      using replay [of inp "fst (get_timestamp (store st1))"] unfolding run
      by (auto simp: inp dest!: opened split: sum.splits)
  next
    case False
    then show ?thesis unfolding run using st1 opened [of st1] by (auto split: sum.split option.split)
  qed
qed

end

lemma load_tls_config_sound:
  "load_tls_config T cert_path key_path = Inr config \<Longrightarrow> \<exists>certs key. certs \<noteq> [] \<and> with_single_cert T certs key = Some config"
  by (auto simp: load_tls_config_def split: option.splits if_splits list.splits)

context server_env
begin

lemma start_server_ok:
  assumes "0 < num_shards (server (conf (env H)))" and "aof_handle st = None"
  shows "\<exists>r. start_server H T st snapshot log io binds = Some r
    \<and> (\<forall>tls tasks st0. r = Inr (tls, tasks, st0) \<longrightarrow> binds \<and> store_ok (env H) (store st0) \<and> tasks = spawned_tasks H st0
        \<and> (case tls of
             None \<Rightarrow> \<not> tls_enabled (security (conf (env H)))
           | Some config \<Rightarrow> tls_enabled (security (conf (env H))) \<and> (\<exists>certs key. certs \<noteq> [] \<and> with_single_cert T certs key = Some config))
        \<and> (aof_handle st0 \<noteq> None \<longleftrightarrow> aof_enabled (persistence (conf (env H)))))"
proof -
  let ?st = "st\<lparr>store := store_new (env H) (num_shards (server (conf (env H)))) (clock (store st)) (rng (store st))\<rparr>"
  have "store_ok (env H) (store ?st)" using store_new_effect(1) [OF assms(1)] by simp
  from load_data_ok [OF this, of snapshot log io] assms(2)
  obtain r where "load_data H ?st snapshot log io = Some r"
      "\<forall>st'. r = Inr st' \<longrightarrow> store_ok (env H) (store st') \<and> (aof_handle st' \<noteq> None \<longleftrightarrow> aof_enabled (persistence (conf (env H))))"
    by auto
  then show ?thesis
    using load_tls_config_sound [of T "tls_cert_path (security (conf (env H)))" "tls_key_path (security (conf (env H)))"]
    by (auto simp: start_server_def Let_def split: sum.splits if_splits option.splits)
qed

end

text \<open>The drain ends at the first round that sees the deadline or a second signal, at the latest.\<close>

definition stops :: "drain_round \<Rightarrow> bool" where
  "stops d \<longleftrightarrow> force_exit d \<or> remaining d = 0"

lemma drain_result:
  assumes "stops (obs (i + k))" and "\<And>j. j < k \<Longrightarrow> \<not> stops (obs (i + j))"
  shows "drain obs i tasks = Some
    (let done_tasks = length (filter (\<lambda>j. finished (obs j)) [i..<i + k]) in
     if k = 0 then Aborted tasks else if tasks \<le> done_tasks \<or> tasks = 0 then Drained else Aborted (tasks - done_tasks))"
  using assms
proof (induction k arbitrary: i tasks)
  case 0
  then show ?case by (subst drain.simps) (auto simp: stops_def)
next
  case (Suc k)
  have live: "\<not> force_exit (obs i)" "remaining (obs i) \<noteq> 0" using Suc.prems(2) [of 0] by (auto simp: stops_def)
  have rest: "\<not> stops (obs (Suc i + j))" if "j < k" for j using Suc.prems(2) [of "Suc j"] that by simp
  have upt: "[i..<i + Suc k] = i # [Suc i..<Suc i + k]" by (simp add: upt_conv_Cons)
  note IH = Suc.IH [of "Suc i", OF _ rest]
  show ?case
    using IH Suc.prems(1) live unfolding upt by (subst drain.simps) (auto simp: Let_def)
qed

text \<open>
  The buffer pool. However buffers come and go, none in the pool is larger than four
  times the configured size, and at most a quarter of the pool size is larger than
  twice. The number of buffers of ordinary size has no bound.
\<close>

primrec pool_run :: "server_config \<Rightarrow> nat option list \<Rightarrow> nat list \<Rightarrow> nat list" where
  "pool_run cfg [] pool = pool"
| "pool_run cfg (r # rs) pool =
     pool_run cfg rs (case r of None \<Rightarrow> snd (get_buffer cfg pool) | Some capacity \<Rightarrow> return_buffer cfg capacity pool)"

definition pool_ok :: "server_config \<Rightarrow> nat list \<Rightarrow> bool" where
  "pool_ok cfg pool \<longleftrightarrow> (\<forall>b \<in> set pool. b \<le> 4 * buffer_size cfg)
     \<and> length (filter (\<lambda>b. 2 * buffer_size cfg < b) pool) \<le> buffer_pool_size cfg div 4"

lemma return_buffer_ok: "pool_ok cfg pool \<Longrightarrow> pool_ok cfg (return_buffer cfg capacity pool)"
  by (auto simp: pool_ok_def return_buffer_def intro!: Suc_leI intro: le_less_trans [OF length_filter_le])

lemma get_buffer_ok: "pool_ok cfg pool \<Longrightarrow> pool_ok cfg (snd (get_buffer cfg pool))"
  by (cases pool) (auto simp: pool_ok_def get_buffer_def split: if_splits)

lemma pool_run_ok: "pool_ok cfg pool \<Longrightarrow> pool_ok cfg (pool_run cfg rs pool)"
  by (induction rs arbitrary: pool) (auto simp: return_buffer_ok get_buffer_ok split: option.split)

lemma pool_bounded: "pool_ok cfg (pool_run cfg rs (buffer_pool cfg))"
  by (rule pool_run_ok) (auto simp: pool_ok_def buffer_pool_def)

lemma pool_grows: "length (pool_run cfg (replicate n (Some (buffer_size cfg))) (buffer_pool cfg)) = buffer_pool_size cfg + n"
proof -
  have "length (pool_run cfg (replicate n (Some (buffer_size cfg))) pool) = length pool + n" for pool
    by (induction n arbitrary: pool) (simp_all add: return_buffer_def)
  then show ?thesis by (simp add: buffer_pool_def)
qed

section \<open>Properties\<close>

text \<open>A server without TLS that starts on no files at all.\<close>

definition no_tls :: "(unit, unit, unit) tls_ops" where
  "no_tls = \<lparr>read_file = (\<lambda>_. None), pem_certs = (\<lambda>_. None), pem_keys = (\<lambda>_. None), with_single_cert = (\<lambda>_ _. None)\<rparr>"

lemma plain_host_conf: "conf (env plain_host) =
    default_config\<lparr>persistence := default_persistence\<lparr>enabled := True, aof_enabled := True, aof_fsync := ''everysec''\<rparr>\<rparr>"
  by (simp add: plain_host_def hash_env_def)

lemma plain_start: "\<exists>tasks st0. start_server plain_host no_tls plain_server None None (\<lambda>_. None) True = Some (Inr (None, tasks, st0))
    \<and> ExpirationTask \<in> set tasks \<and> EverysecTask \<in> set tasks"
proof -
  have "fsync_parse ''everysec'' = Inr EverySec" by code_simp
  then show ?thesis
    by (simp add: start_server_def load_data_def load_snapshot_def open_log_def aof_open_def plain_host_conf default_config_def
        default_security_def spawned_tasks_def Let_def)
qed

text \<open>C2: The server stays good from any start. Start it on any snapshot file and any
  append-only file, well formed or not. If it does not refuse to start, then after any
  interleaving of commands, from any clients, logged in or not, well formed or not, with
  the ticks of the background tasks it started, background saves whose file operations
  may fail, log syncs and log rewrites, the store meets its invariant, and whatever
  command comes next is answered with exactly one reply.\<close>

theorem system_invariant:
  assumes "dashmap (dash (env H))" and "0 < num_shards (server (conf (env H)))" and "aof_handle st = None"
    and "start_server H T st snapshot log io binds = Some (Inr (tls, tasks, st0))" and "running H tasks st0 st'"
  shows "store_ok (env H) (store st')
    \<and> (\<exists>r auth' st''. execute_command H st' command w auth now = Some (put w (render r), auth', st''))"
proof -
  note env = server_envI [OF assms(1)]
  have "store_ok (env H) (store st0)" using server_env.start_server_ok [OF env assms(2,3), of T snapshot log io binds] assms(4) by auto
  then have ok: "store_ok (env H) (store st')" by (rule server_env.running_ok [OF env assms(5)])
  then show ?thesis using server_env.execute_any [OF env ok, of command w auth now] by blast
qed

theorem system_invariant_witness:
  "\<exists>tls tasks st0. start_server plain_host no_tls plain_server None None (\<lambda>_. None) True = Some (Inr (tls, tasks, st0))
    \<and> store_ok (env plain_host) (store (everysec_tick (expiration_tick plain_host st0)))"
proof -
  obtain tasks st0 where s: "start_server plain_host no_tls plain_server None None (\<lambda>_. None) True = Some (Inr (None, tasks, st0))"
      "ExpirationTask \<in> set tasks" "EverysecTask \<in> set tasks" using plain_start by blast
  have "0 < num_shards (server (conf (env plain_host)))" "aof_handle plain_server = None"
    by (simp_all add: plain_host_conf default_config_def default_server_def plain_server_def demo_server_def)
  from system_invariant [OF plain_host_facts(1) this s(1) running.everysec [OF running.expire [OF running.start s(2)] s(3)]] s(1)
  show ?thesis by blast
qed



text \<open>C4: A clean shutdown and restart lose nothing. After any history, a server with snapshots
  and \<^verbatim>\<open>save_on_shutdown\<close> that is asked to stop writes its last snapshot; if no save is
  in progress, the file operations work and the codec can write every entry, a server
  that starts from that file, with any shard count and no append-only file, serves the
  same keyspace with the same expiry times at its start and at any later moment, with
  a good store and, under a memory limit, exact accounting.\<close>

theorem shutdown_restart:
  assumes "dashmap (dash (env H))" and "store_ok (env H) (store st0)" and "running H tasks st0 st"
    and "enabled (persistence (conf (env H)))" and "save_on_shutdown (persistence (conf (env H)))"
    and "\<not> save_in_progress (snapshots st)" and "save_io st 0 = (\<lambda>_. None)" and "codec_ok (bin H)"
    and "\<And>k e. shard_get (env H) (store st) k = Some e \<Longrightarrow> encodable (bin H) (k, e)" and "store_len (env H) (store st) < 2 ^ 64"
    and "dashmap (dash (env H'))" and "enabled (persistence (conf (env H')))" and "\<not> aof_enabled (persistence (conf (env H')))"
    and "bin H' = bin H" and "store fresh = store_new (env H') n clk rnd" and "0 < n" and "clock (store st) 0 \<le> clk 0"
  shows "\<exists>st'. load_data H' fresh (map_option Inr (snapshot_file (snapshots (final_snapshot H (final_sync st))))) log io = Some (Inr st')
    \<and> (\<forall>t \<ge> clk 0. keyspace (env H') (store st') t = keyspace (env H) (store st) t)
    \<and> store_ok (env H') (store st')
    \<and> (memory_limit (env H') > 0 \<longrightarrow> memory_used (store st') = of_nat (total_size (env H') (store st')))"
proof -
  have ok: "store_ok (env H) (store st)" by (rule server_env.running_ok [OF server_envI [OF assms(1)] assms(3,2)])
  obtain c s1 p' s2 where r: "save_snapshot_sync (bin H) (env H) (store st) (snapshots st) (\<lambda>_. None) = (Inr c, s1, p')"
      "load_snapshot (bin H) (env H') (store_new (env H') n clk rnd) (map_option Inr (snapshot_file p')) =
         (Inr (card (dom (keyspace (env H) (store st) (clk 0)))), s2)"
      "\<forall>t \<ge> clk 0. keyspace (env H') s2 t = keyspace (env H) (store st) t"
      "store_ok (env H') s2" "memory_limit (env H') > 0 \<longrightarrow> memory_used s2 = of_nat (total_size (env H') s2)"
    using snapshot_roundtrip [where clk = clk and rnd = rnd, OF assms(1) ok assms(11,16,8,9,10,6,17)] by blast
  have "load_data H' fresh (map_option Inr (snapshot_file (snapshots (final_snapshot H (final_sync st))))) log io = Some (Inr (fresh\<lparr>store := s2\<rparr>))"
    using assms(4,5,12,13) by (simp add: load_data_def final_snapshot_def final_sync_def save_now_def assms(7,14,15) r(1,2))
  then show ?thesis using r(3-5) by (intro exI [of _ "fresh\<lparr>store := s2\<rparr>"]) simp
qed

text \<open>A host that saves at shutdown.\<close>

definition saving_host :: "(bytes, entry) hash_map host" where
  "saving_host = demo_host\<lparr>env := small_env\<lparr>conf := default_config\<lparr>persistence := default_persistence\<lparr>enabled := True\<rparr>\<rparr>\<rparr>\<rparr>"

lemma conf_irrelevant:
  "shard_get (E\<lparr>conf := c\<rparr>) s k = shard_get E s k" "view (E\<lparr>conf := c\<rparr>) s = view E s"
  "keyspace (E\<lparr>conf := c\<rparr>) s = keyspace E s" "store_ok (E\<lparr>conf := c\<rparr>) s = store_ok E s"
  "store_len (E\<lparr>conf := c\<rparr>) s = store_len E s"
  by (simp_all add: shard_get_def view_def keyspace_def store_ok_def shard_ok_def store_len_def hash_def fun_eq_iff)

theorem shutdown_restart_witness:
  "\<exists>st'. load_data saving_host (demo_server (store_new (env saving_host) 3 (\<lambda>_. 103) (\<lambda>_. 0)))
        (map_option Inr (snapshot_file (snapshots (final_snapshot saving_host (final_sync (demo_server small_db_k)))))) None (\<lambda>_. None) =
      Some (Inr st')
    \<and> keyspace (env saving_host) (store st') 104 = [[107] \<mapsto> (Str [118], Some 105)]"
proof -
  let ?H = saving_host and ?st = "demo_server small_db_k" and ?new = "store_new (env saving_host) 3 (\<lambda>_. 103) (\<lambda>_. 0)"
  have facts: "dashmap (dash (env ?H))" "enabled (persistence (conf (env ?H)))" "save_on_shutdown (persistence (conf (env ?H)))"
      "\<not> aof_enabled (persistence (conf (env ?H)))" "bin ?H = bincode" "\<not> save_in_progress (snapshots ?st)" "save_io ?st 0 = (\<lambda>_. None)"
    using small_env_dashmap by (simp_all add: saving_host_def demo_host_def demo_server_def default_persistence_def)
  have ok: "store_ok (env ?H) (store ?st)" "keyspace (env ?H) (store ?st) = keyspace small_env small_db_k"
    using small_db_k_ok by (simp_all add: saving_host_def conf_irrelevant)
  have codec: "codec_ok (bin ?H)" "\<And>k e. shard_get (env ?H) (store ?st) k = Some e \<Longrightarrow> encodable (bin ?H) (k, e)"
    using bincode_ok small_db_k_encodable by (simp_all add: facts(5)) (simp add: saving_host_def conf_irrelevant)
  have len: "store_len (env ?H) (store ?st) < 2 ^ 64"
    using demo.store_len_card [of small_db_k] small_db_k_ok by (simp add: saving_host_def conf_irrelevant small_db_k_view)
  have clk: "clock (store ?st) 0 \<le> (\<lambda>_. 103) (0 :: nat)" by (simp add: small_db_k_clock)
  have new: "store (demo_server ?new) = ?new" "0 < (3 :: nat)" by simp_all
  obtain st' where "load_data ?H (demo_server ?new) (map_option Inr (snapshot_file (snapshots (final_snapshot ?H (final_sync ?st))))) None (\<lambda>_. None) = Some (Inr st')"
      "\<forall>t \<ge> (\<lambda>_. 103) 0. keyspace (env ?H) (store st') t = keyspace (env ?H) (store ?st) t"
    using shutdown_restart [where clk = "\<lambda>_. 103" and rnd = "\<lambda>_. 0" and log = None and io = "\<lambda>_. None",
        OF facts(1) ok(1) running.start facts(2,3,6,7) codec len facts(1,2,4) refl new clk] by blast
  then show ?thesis by (intro exI [of _ st']) (use ok(2) in \<open>simp add: small_db_k_keyspace\<close>)
qed

text \<open>C32: The rate limit admits what it says. With a limit of \<open>r\<close> connections per second,
  of \<open>n\<close> connections that arrive within one second, the first of that second among
  them, exactly \<open>r\<close> are admitted, or all \<open>n\<close> if there are fewer; the counter does not wrap
  for less than \<open>2^64\<close> of them.\<close>

theorem rate_limit_exact:
  assumes "0 < connection_rate_limit (server (conf E))" and "\<forall>i < n. clock s i = now" and "last_rate_check l \<noteq> now"
    and "n < 2 ^ 64"
  shows "length (filter (\<lambda>b. b) (rate_checks E n s l)) = min n (unat (connection_rate_limit (server (conf E))))"
proof (cases n)
  case (Suc m)
  let ?s = "s\<lparr>clock := (\<lambda>i. clock s (Suc i))\<rparr>" and ?l = "\<lparr>last_rate_check = now, connections_this_second = 1\<rparr>"
  have "check_rate_limit E s l = (True, ?l, ?s)"
    using assms Suc by (auto simp: check_rate_limit_def get_timestamp_def Let_def)
  moreover have "length (filter (\<lambda>b. b) (rate_checks E m ?s ?l)) = min m (unat (connection_rate_limit (server (conf E))) - 1)"
    using rate_checks_same_second [OF assms(1), of m ?s now ?l] assms(2,4) Suc by simp
  moreover have "0 < unat (connection_rate_limit (server (conf E)))" using assms(1) by (simp add: word_less_nat_alt)
  ultimately show ?thesis using Suc by simp
qed simp

theorem rate_limit_exact_witness:
  "length (filter (\<lambda>b. b) (rate_checks (small_env\<lparr>conf := default_config\<lparr>server := default_server\<lparr>connection_rate_limit := 2\<rparr>\<rparr>\<rparr>)
      5 small_db \<lparr>last_rate_check = 99, connections_this_second = 7\<rparr>)) = 2"
  using rate_limit_exact [of "small_env\<lparr>conf := default_config\<lparr>server := default_server\<lparr>connection_rate_limit := 2\<rparr>\<rparr>\<rparr>" 5 small_db 100
      "\<lparr>last_rate_check = 99, connections_this_second = 7\<rparr>"]
  by (simp add: small_db_def clock_store_new)

text \<open>C31: The connection limit. If every accepted connection starts before the next is
  accepted, the active connections never exceed \<^verbatim>\<open>max_connections\<close>, and the counter never
  wraps. The code does not ensure that condition: the counter is raised by the task of
  the connection, not by the accept loop that compares it, so without it, and without
  a rate limit, any number of connections can become active.\<close>

theorem connection_limit:
  assumes "0 < max_connections (server (conf E))" and "max_connections (server (conf E)) < 2 ^ 64"
    and "active_connections st0 = 0"
  shows "(accepting E True (l0, st0) (l, st, waiting) \<longrightarrow> unat (active_connections st) \<le> max_connections (server (conf E)))
    \<and> (connection_rate_limit (server (conf E)) = 0 \<longrightarrow>
         (\<exists>st. accepting E False (l0, st0) (l0, st, 0) \<and> active_connections st = of_nat k))"
  using accepting_bound [OF _ assms(1,2), of "(l0, st0)" l st waiting] accepting_overshoot [OF _ assms(1,3)] assms(3) by auto

text \<open>With a limit of one connection, a hundred are active.\<close>

theorem connection_limit_witness:
  "let E = small_env\<lparr>conf := default_config\<lparr>server := default_server\<lparr>max_connections := 1\<rparr>\<rparr>\<rparr>; l = \<lparr>last_rate_check = 0, connections_this_second = 0\<rparr>
   in (\<exists>st. accepting E False (l, demo_server small_db) (l, st, 0) \<and> active_connections st = 100)
      \<and> unat (active_connections (demo_server small_db)) \<le> 1"
proof -
  let ?E = "small_env\<lparr>conf := default_config\<lparr>server := default_server\<lparr>max_connections := 1\<rparr>\<rparr>\<rparr>"
    and ?l = "\<lparr>last_rate_check = 0, connections_this_second = 0\<rparr>"
  have "accepting ?E True (?l, demo_server small_db) (?l, demo_server small_db, 0)"
    using accepting.start [of ?E True "(?l, demo_server small_db)"] by simp
  then show ?thesis
    using connection_limit [of ?E "demo_server small_db" ?l ?l "demo_server small_db" 0 100]
    by (simp add: default_server_def demo_server_def)
qed

text \<open>C30: Saves exclude each other. However the threads that save interleave, at most one is
  writing, and the flag is set exactly while one thread holds it, from \<^verbatim>\<open>BGSAVE\<close> to its
  thread or inside a save. But a thread of \<^verbatim>\<open>BGSAVE\<close> gives the flag back before it takes it
  again, and another save can come between: a save whose start was acknowledged to
  the client is refused.\<close>

theorem saves_exclusive:
  "(saving flag ts \<longrightarrow> length (filter ((=) Saving) ts) \<le> 1 \<and> (flag \<longleftrightarrow> Spawned \<in> set ts \<or> Saving \<in> set ts))
    \<and> saving True [Refused, Saving]"
proof -
  have "length (filter ((=) Saving) ts) \<le> length (owners ts)" for ts by (induction ts) (auto simp: owners_def)
  moreover have "owners ts \<noteq> [] \<longleftrightarrow> Spawned \<in> set ts \<or> Saving \<in> set ts" for ts
    by (auto simp: owners_def filter_empty_conv)
  moreover have "saving True [Spawned]" using saving.bgsave [OF saving.start] by simp
  then have "saving False [Cleared]" using saving.clear [of True "[Spawned]" 0] by simp
  then have "saving True [Cleared, Saving]" using saving.save by fastforce
  then have "saving True [Refused, Saving]" using saving.refuse [of "[Cleared, Saving]" 0] by simp
  ultimately show ?thesis using saving_owner [of flag ts] by (metis le_zero_eq length_0_conv length_greater_0_conv nle_le zero_less_one)
qed

theorem saves_exclusive_witness: "saving True [Spawned] \<and> \<not> Saving \<in> set [Spawned] \<and> saving True [Refused, Saving]"
  using saves_exclusive [of True "[Spawned]"] saving.bgsave [OF saving.start] by simp


text \<open>C33: The drain at shutdown ends, and aborts only what it must. Let \<open>k\<close> be the first round
  of the drain loop that sees the grace period over or a second signal. The loop returns
  by then; if as many rounds before it saw a connection finish as there were
  connections, no connection was aborted, and otherwise exactly the others were.\<close>

theorem drain_outcome:
  assumes "0 < k" and "stops (obs k)" and "\<forall>j < k. \<not> stops (obs j)"
  shows "drain obs 0 tasks = Some
    (let ended = length (filter (\<lambda>j. finished (obs j)) [0..<k]) in
     if tasks \<le> ended then Drained else Aborted (tasks - ended))"
  using drain_result [of obs 0 k tasks] assms by (auto simp: Let_def)

theorem drain_outcome_witness:
  "drain (\<lambda>i. \<lparr>force_exit = False, remaining = 3 - i, finished = (i = 1)\<rparr>) 0 2 = Some (Aborted 1)"
  using drain_outcome [of 3 "\<lambda>i. \<lparr>force_exit = False, remaining = 3 - i, finished = (i = 1)\<rparr>" 2]
  by (simp add: stops_def upt_rec)

end
