(* ===== verification/Library.thy ===== *)
theory Library
  imports Commands
begin

text \<open>
  The library crate, \<^verbatim>\<open>src/src/lib.rs\<close>: the copy of the store, the configuration and the
  helpers that the unit tests exercise in place of the server's own modules. It has no
  queues, no memory accounting and no persistence. The two stores are shown to answer
  every sequence of operations as one specification allows.
\<close>

section \<open>Configuration\<close>

record lib_server_config =
  lib_bind :: string
  lib_port :: u16
  lib_num_shards :: nat
  lib_batch_size :: nat
  lib_buffer_size :: nat
  lib_buffer_pool_size :: nat
  lib_max_connections :: nat
  lib_connection_timeout :: u64
  lib_connection_rate_limit :: u64
  lib_health_check_port :: u16
  lib_shutdown_grace_period_secs :: u64

record lib_security_config =
  lib_password :: string
  lib_tls_enabled :: bool
  lib_tls_cert_path :: string
  lib_tls_key_path :: string

record lib_logging_config =
  lib_level :: string
  lib_format :: string

record lib_performance_config =
  lib_tcp_nodelay :: bool
  lib_tcp_keepalive :: u64

record lib_memory_config =
  lib_max_memory :: u64
  lib_eviction_policy :: string
  lib_eviction_sample_size :: nat

record lib_config =
  lib_server :: lib_server_config
  lib_security :: lib_security_config
  lib_logging :: lib_logging_config
  lib_performance :: lib_performance_config
  lib_memory :: lib_memory_config

definition lib_default_bind :: string where [simp]: "lib_default_bind = ''127.0.0.1''"
definition lib_default_port :: u16 where [simp]: "lib_default_port = 6379"
definition lib_default_num_shards :: nat where [simp]: "lib_default_num_shards = 256"
definition lib_default_batch_size :: nat where [simp]: "lib_default_batch_size = 16"
definition lib_default_buffer_size :: nat where [simp]: "lib_default_buffer_size = 16 * 1024"
definition lib_default_buffer_pool_size :: nat where [simp]: "lib_default_buffer_pool_size = 1024"
definition lib_default_max_connections :: nat where [simp]: "lib_default_max_connections = 10000"
definition lib_default_connection_timeout :: u64 where [simp]: "lib_default_connection_timeout = 300"
definition lib_default_shutdown_grace_period_secs :: u64 where [simp]: "lib_default_shutdown_grace_period_secs = 30"
definition lib_default_log_level :: string where [simp]: "lib_default_log_level = ''info''"
definition lib_default_log_format :: string where [simp]: "lib_default_log_format = ''text''"
definition lib_default_true :: bool where [simp]: "lib_default_true = True"
definition lib_default_tcp_keepalive :: u64 where [simp]: "lib_default_tcp_keepalive = 60"
definition lib_default_eviction_policy :: string where [simp]: "lib_default_eviction_policy = ''allkeys-lru''"
definition lib_default_eviction_sample_size :: nat where [simp]: "lib_default_eviction_sample_size = 5"

definition lib_default_server :: lib_server_config where
  "lib_default_server =
     \<lparr>lib_bind = lib_default_bind, lib_port = lib_default_port, lib_num_shards = lib_default_num_shards,
      lib_batch_size = lib_default_batch_size, lib_buffer_size = lib_default_buffer_size,
      lib_buffer_pool_size = lib_default_buffer_pool_size, lib_max_connections = lib_default_max_connections,
      lib_connection_timeout = lib_default_connection_timeout, lib_connection_rate_limit = 0,
      lib_health_check_port = 0, lib_shutdown_grace_period_secs = lib_default_shutdown_grace_period_secs\<rparr>"

definition lib_default_security :: lib_security_config where
  "lib_default_security = \<lparr>lib_password = '''', lib_tls_enabled = False, lib_tls_cert_path = '''', lib_tls_key_path = ''''\<rparr>"

definition lib_default_logging :: lib_logging_config where
  "lib_default_logging = \<lparr>lib_level = lib_default_log_level, lib_format = lib_default_log_format\<rparr>"

definition lib_default_performance :: lib_performance_config where
  "lib_default_performance = \<lparr>lib_tcp_nodelay = lib_default_true, lib_tcp_keepalive = lib_default_tcp_keepalive\<rparr>"

definition lib_default_memory :: lib_memory_config where
  "lib_default_memory =
     \<lparr>lib_max_memory = 0, lib_eviction_policy = lib_default_eviction_policy,
      lib_eviction_sample_size = lib_default_eviction_sample_size\<rparr>"

definition lib_default_config :: lib_config where
  "lib_default_config =
     \<lparr>lib_server = lib_default_server, lib_security = lib_default_security, lib_logging = lib_default_logging,
      lib_performance = lib_default_performance, lib_memory = lib_default_memory\<rparr>"

datatype lib_evict_policy = LibNoEviction | LibAllKeysLru | LibAllKeysRandom | LibAllKeysS3Fifo

definition lib_policy_from_str :: "string \<Rightarrow> lib_evict_policy" where
  "lib_policy_from_str s =
     (let l = to_lowercase s in
      if l = ''allkeys-lru'' then LibAllKeysLru
      else if l = ''allkeys-random'' then LibAllKeysRandom
      else if l = ''allkeys-s3fifo'' then LibAllKeysS3Fifo
      else if l = ''noeviction'' then LibNoEviction
      else LibAllKeysLru)"

definition lib_policy_as_str :: "lib_evict_policy \<Rightarrow> string" where
  "lib_policy_as_str p =
     (case p of
        LibNoEviction \<Rightarrow> ''noeviction''
      | LibAllKeysLru \<Rightarrow> ''allkeys-lru''
      | LibAllKeysRandom \<Rightarrow> ''allkeys-random''
      | LibAllKeysS3Fifo \<Rightarrow> ''allkeys-s3fifo'')"

section \<open>Store\<close>

text \<open>Entries are those of the server's store, with the same fields.\<close>

record 'm lib_store =
  lib_shards :: "'m list"
  lib_shard_count :: nat

definition lib_new :: "'m env \<Rightarrow> nat \<Rightarrow> 'm lib_store" where
  "lib_new E n = \<lparr>lib_shards = replicate n (dm_new (dash E)), lib_shard_count = n\<rparr>"

definition lib_hash :: "'m env \<Rightarrow> 'm lib_store \<Rightarrow> bytes \<Rightarrow> nat" where
  "lib_hash E s key = unat (ahash E key) mod lib_shard_count s"

text \<open>\<^verbatim>\<open>shard.get(key)\<close>, \<^verbatim>\<open>shard.insert\<close> and \<^verbatim>\<open>shard.remove\<close> on the shard at an index.\<close>

definition lib_lookup :: "'m env \<Rightarrow> 'm lib_store \<Rightarrow> bytes \<Rightarrow> entry option" where
  "lib_lookup E s key = dm_get (dash E) (lib_shards s ! lib_hash E s key) key"

definition lib_insert :: "'m env \<Rightarrow> 'm lib_store \<Rightarrow> bytes \<Rightarrow> entry \<Rightarrow> 'm lib_store" where
  "lib_insert E s key e =
     (let i = lib_hash E s key in s\<lparr>lib_shards := (lib_shards s)[i := dm_insert (dash E) (lib_shards s ! i) key e]\<rparr>)"

definition lib_modify :: "'m env \<Rightarrow> 'm lib_store \<Rightarrow> bytes \<Rightarrow> (entry \<Rightarrow> entry) \<Rightarrow> 'm lib_store" where
  "lib_modify E s key f =
     (let i = lib_hash E s key in s\<lparr>lib_shards := (lib_shards s)[i := dm_modify (dash E) (lib_shards s ! i) key f]\<rparr>)"

definition lib_remove_at :: "'m env \<Rightarrow> 'm lib_store \<Rightarrow> nat \<Rightarrow> bytes \<Rightarrow> entry option \<times> 'm lib_store" where
  "lib_remove_at E s i key =
     (dm_get (dash E) (lib_shards s ! i) key,
      s\<lparr>lib_shards := (lib_shards s)[i := dm_remove (dash E) (lib_shards s ! i) key]\<rparr>)"

definition lib_drop :: "'m env \<Rightarrow> 'm lib_store \<Rightarrow> bytes \<Rightarrow> 'm lib_store" where
  "lib_drop E s key = snd (lib_remove_at E s (lib_hash E s key) key)"

definition lib_set :: "'m env \<Rightarrow> 'm lib_store \<Rightarrow> bytes \<Rightarrow> bytes \<Rightarrow> u64 option \<Rightarrow> u64 \<Rightarrow> 'm lib_store" where
  "lib_set E s key v ttl now =
     (let expiry' = map_option (\<lambda>t. now + t) ttl
      in lib_insert E s key \<lparr>val = StringV v, expiry = expiry', last_accessed = 0, queue_type = 0, access_count = 0\<rparr>)"

definition lib_get :: "'m env \<Rightarrow> 'm lib_store \<Rightarrow> bytes \<Rightarrow> u64 \<Rightarrow> bytes option \<times> 'm lib_store" where
  "lib_get E s key now =
     (case lib_lookup E s key of
        Some e \<Rightarrow>
          if expired now e then (None, lib_drop E s key)
          else (case val e of StringV v \<Rightarrow> Some v | HashV _ \<Rightarrow> None, s)
      | None \<Rightarrow> (None, s))"

definition lib_key_type :: "'m env \<Rightarrow> 'm lib_store \<Rightarrow> bytes \<Rightarrow> u64 \<Rightarrow> string \<times> 'm lib_store" where
  "lib_key_type E s key now =
     (case lib_lookup E s key of
        None \<Rightarrow> (''none'', s)
      | Some e \<Rightarrow>
          if expired now e then (''none'', lib_drop E s key)
          else (case val e of StringV _ \<Rightarrow> ''string'' | HashV _ \<Rightarrow> ''hash'', s))"

text \<open>\<^verbatim>\<open>delete\<close>: the keys are grouped by shard, then removed shard by shard.\<close>

definition lib_group :: "'m env \<Rightarrow> 'm lib_store \<Rightarrow> bytes list \<Rightarrow> bytes list list" where
  "lib_group E s keys =
     foldl (\<lambda>gs key. let i = lib_hash E s key in gs[i := gs ! i @ [key]]) (replicate (lib_shard_count s) []) keys"

fun lib_delete_shard :: "'m env \<Rightarrow> nat \<Rightarrow> bytes list \<Rightarrow> nat \<times> 'm lib_store \<Rightarrow> nat \<times> 'm lib_store" where
  "lib_delete_shard E i [] (count, s) = (count, s)"
| "lib_delete_shard E i (key # keys) (count, s) =
     (case lib_remove_at E s i key of
        (Some _, s) \<Rightarrow> lib_delete_shard E i keys (count + 1, s)
      | (None, s) \<Rightarrow> lib_delete_shard E i keys (count, s))"

definition lib_delete :: "'m env \<Rightarrow> 'm lib_store \<Rightarrow> bytes list \<Rightarrow> nat \<times> 'm lib_store" where
  "lib_delete E s keys =
     foldl (\<lambda>r (i, group). if group \<noteq> [] then lib_delete_shard E i group r else r) (0, s)
       (enumerate 0 (lib_group E s keys))"

fun lib_exists :: "'m env \<Rightarrow> 'm lib_store \<Rightarrow> bytes list \<Rightarrow> u64 \<Rightarrow> nat" where
  "lib_exists E s [] now = 0"
| "lib_exists E s (key # keys) now =
     (case lib_lookup E s key of
        Some e \<Rightarrow> if expired now e then lib_exists E s keys now else lib_exists E s keys now + 1
      | None \<Rightarrow> lib_exists E s keys now)"

definition lib_keys :: "'m env \<Rightarrow> 'm lib_store \<Rightarrow> u64 \<Rightarrow> bytes list" where
  "lib_keys E s now =
     concat (map (\<lambda>m. map fst (filter (\<lambda>(k, e). \<not> expired now e) (dm_iter (dash E) m))) (lib_shards s))"

definition lib_len :: "'m env \<Rightarrow> 'm lib_store \<Rightarrow> nat" where
  "lib_len E s = sum_list (map (dm_len (dash E)) (lib_shards s))"

definition lib_is_empty :: "'m env \<Rightarrow> 'm lib_store \<Rightarrow> bool" where
  "lib_is_empty E s = list_all (\<lambda>m. dm_len (dash E) m = 0) (lib_shards s)"

definition lib_clear :: "'m env \<Rightarrow> 'm lib_store \<Rightarrow> 'm lib_store" where
  "lib_clear E s = s\<lparr>lib_shards := map (dm_clear (dash E)) (lib_shards s)\<rparr>"

text \<open>The loop of \<^verbatim>\<open>hset\<close>, which removes an expired entry and tries again.\<close>

partial_function (option) lib_hset_slot ::
  "'m env \<Rightarrow> 'm lib_store \<Rightarrow> bytes \<Rightarrow> u64 \<Rightarrow> ((bytes + unit) \<times> 'm lib_store) option" where
  "lib_hset_slot E s key now =
     (case lib_lookup E s key of
        Some e \<Rightarrow>
          if expired now e then lib_hset_slot E (lib_drop E s key) key now
          else (case val e of
                  HashV h \<Rightarrow> Some (Inr (), s)
                | StringV _ \<Rightarrow> Some (Inl wrongtype, s))
      | None \<Rightarrow> Some (Inr (), lib_insert E s key
          \<lparr>val = HashV [], expiry = None, last_accessed = 0, queue_type = 0, access_count = 0\<rparr>))"

definition lib_hset ::
  "'m env \<Rightarrow> 'm lib_store \<Rightarrow> bytes \<Rightarrow> (bytes \<times> bytes) list \<Rightarrow> u64 \<Rightarrow> ((bytes + nat) \<times> 'm lib_store) option" where
  "lib_hset E s key fvs now =
     (case lib_hset_slot E s key now of
        None \<Rightarrow> None
      | Some (Inl err, s) \<Rightarrow> Some (Inl err, s)
      | Some (Inr _, s) \<Rightarrow>
          (let h = (case lib_lookup E s key of Some e \<Rightarrow> fields_of e | None \<Rightarrow> []);
               (new_count, h') = set_fields fvs h
           in Some (Inr new_count, lib_modify E s key (val_update (\<lambda>_. HashV h')))))"

definition lib_hget :: "'m env \<Rightarrow> 'm lib_store \<Rightarrow> bytes \<Rightarrow> bytes \<Rightarrow> u64 \<Rightarrow> (bytes + bytes option) \<times> 'm lib_store" where
  "lib_hget E s key field now =
     (case lib_lookup E s key of
        Some e \<Rightarrow>
          if expired now e then (Inr None, lib_drop E s key)
          else (case val e of HashV h \<Rightarrow> Inr (hm_get h field) | StringV _ \<Rightarrow> Inl wrongtype, s)
      | None \<Rightarrow> (Inr None, s))"

definition lib_hgetall :: "'m env \<Rightarrow> 'm lib_store \<Rightarrow> bytes \<Rightarrow> u64 \<Rightarrow> (bytes + bytes list) \<times> 'm lib_store" where
  "lib_hgetall E s key now =
     (case lib_lookup E s key of
        Some e \<Rightarrow>
          if expired now e then (Inr [], lib_drop E s key)
          else (case val e of HashV h \<Rightarrow> Inr (concat (map (\<lambda>(f, x). [f, x]) h)) | StringV _ \<Rightarrow> Inl wrongtype, s)
      | None \<Rightarrow> (Inr [], s))"

definition lib_hdel :: "'m env \<Rightarrow> 'm lib_store \<Rightarrow> bytes \<Rightarrow> bytes list \<Rightarrow> u64 \<Rightarrow> (bytes + nat) \<times> 'm lib_store" where
  "lib_hdel E s key fs now =
     (case lib_lookup E s key of
        Some e \<Rightarrow>
          if expired now e then (Inr 0, lib_drop E s key)
          else (case val e of
              HashV h \<Rightarrow>
                (let (removed, h') = del_fields fs h;
                     s = lib_modify E s key (val_update (\<lambda>_. HashV h'))
                 in (Inr removed, if removed > 0 \<and> h' = [] then lib_drop E s key else s))
            | StringV _ \<Rightarrow> (Inl wrongtype, s))
      | None \<Rightarrow> (Inr 0, s))"

section \<open>Helpers\<close>

definition lib_entry_size :: "nat \<Rightarrow> nat \<Rightarrow> nat" where
  "lib_entry_size key_len value_len = key_len + value_len + 64"

definition lib_format_bytes :: "u64 \<Rightarrow> bytes" where
  "lib_format_bytes n =
     (if n \<ge> 1024 * (1024 * 1024) then fixed2 (hundredths (unat n) 30) @ bs ''GB''
      else if n \<ge> 1024 * 1024 then fixed2 (hundredths (unat n) 20) @ bs ''MB''
      else if n \<ge> 1024 then fixed2 (hundredths (unat n) 10) @ bs ''KB''
      else dec (unat n) @ bs ''B'')"

definition lib_eq_ignore_case_3 :: "bytes \<Rightarrow> bytes \<Rightarrow> bool" where
  "lib_eq_ignore_case_3 a b \<longleftrightarrow>
     length a = 3 \<and> (a ! 0 OR 0x20) = b ! 0 \<and> (a ! 1 OR 0x20) = b ! 1 \<and> (a ! 2 OR 0x20) = b ! 2"

definition lib_eq_ignore_case_6 :: "bytes \<Rightarrow> bytes \<Rightarrow> bool" where
  "lib_eq_ignore_case_6 a b \<longleftrightarrow>
     length a = 6
     \<and> (a ! 0 OR 0x20) = b ! 0
     \<and> (a ! 1 OR 0x20) = b ! 1
     \<and> (a ! 2 OR 0x20) = b ! 2
     \<and> (a ! 3 OR 0x20) = b ! 3
     \<and> (a ! 4 OR 0x20) = b ! 4
     \<and> (a ! 5 OR 0x20) = b ! 5"

text \<open>\<^verbatim>\<open>ConnectionState::new().authenticated\<close> and the eviction stub.\<close>

definition lib_connection_authenticated :: bool where
  "lib_connection_authenticated = True"

definition lib_evict_if_needed :: "'m lib_store \<Rightarrow> nat \<Rightarrow> bool" where
  "lib_evict_if_needed s needed_size = True"

section \<open>Specification of the operations\<close>

datatype store_op =
  OpSet bytes bytes "u64 option" | OpGet bytes | OpType bytes | OpDelete "bytes list" | OpExists "bytes list"
| OpKeys | OpLen | OpClear | OpHset bytes "(bytes \<times> bytes) list" | OpHget bytes bytes | OpHgetall bytes
| OpHdel bytes "bytes list"

datatype store_result =
  Unit | Bytes "bytes option" | Name string | Count nat | Keys "bytes list"
| FieldCount "bytes + nat" | Field "bytes + bytes option" | AllFields "bytes + bytes list"

text \<open>One operation of the library and of the server's store.\<close>

definition lib_step :: "'m env \<Rightarrow> u64 \<Rightarrow> store_op \<Rightarrow> 'm lib_store \<Rightarrow> (store_result \<times> 'm lib_store) option" where
  "lib_step E now op s =
     (case op of
        OpSet k v ttl \<Rightarrow> Some (Unit, lib_set E s k v ttl now)
      | OpGet k \<Rightarrow> Some (apfst Bytes (lib_get E s k now))
      | OpType k \<Rightarrow> Some (apfst Name (lib_key_type E s k now))
      | OpDelete keys \<Rightarrow> Some (apfst Count (lib_delete E s keys))
      | OpExists keys \<Rightarrow> Some (Count (lib_exists E s keys now), s)
      | OpKeys \<Rightarrow> Some (Keys (lib_keys E s now), s)
      | OpLen \<Rightarrow> Some (Count (lib_len E s), s)
      | OpClear \<Rightarrow> Some (Unit, lib_clear E s)
      | OpHset k fvs \<Rightarrow> map_option (apfst FieldCount) (lib_hset E s k fvs now)
      | OpHget k f \<Rightarrow> Some (apfst Field (lib_hget E s k f now))
      | OpHgetall k \<Rightarrow> Some (apfst AllFields (lib_hgetall E s k now))
      | OpHdel k fs \<Rightarrow> Some (apfst FieldCount (lib_hdel E s k fs now)))"

definition store_step :: "'m env \<Rightarrow> u64 \<Rightarrow> store_op \<Rightarrow> 'm db \<Rightarrow> (store_result \<times> 'm db) option" where
  "store_step E now op s =
     (case op of
        OpSet k v ttl \<Rightarrow> Some (Unit, snd (store_set E s k v ttl now))
      | OpGet k \<Rightarrow> Some (apfst Bytes (store_get E s k now))
      | OpType k \<Rightarrow> Some (apfst Name (key_type E s k now))
      | OpDelete keys \<Rightarrow> Some (apfst Count (store_delete E s keys now))
      | OpExists keys \<Rightarrow> Some (Count (store_exists E s keys now), s)
      | OpKeys \<Rightarrow> Some (Keys (store_keys E s now), s)
      | OpLen \<Rightarrow> Some (Count (store_len E s), s)
      | OpClear \<Rightarrow> Some (Unit, store_clear E s)
      | OpHset k fvs \<Rightarrow> map_option (apfst FieldCount) (hset E s k fvs now)
      | OpHget k f \<Rightarrow> Some (apfst Field (hget E s k f now))
      | OpHgetall k \<Rightarrow> Some (apfst AllFields (hgetall E s k now))
      | OpHdel k fs \<Rightarrow> Some (apfst FieldCount (hdel E s k fs now)))"

text \<open>
  What an operation may answer on a keyspace, and what it makes of it. \<open>exact\<close> is the
  deletion count of the server, which leaves out expired entries; the library may also
  count those. Both lengths count entries that have expired but are still stored.
\<close>

definition realizes :: "bool \<Rightarrow> store_op \<Rightarrow> ks \<Rightarrow> store_result \<Rightarrow> bool" where
  "realizes exact op m r =
     (case op of
        OpSet k v ttl \<Rightarrow> r = Unit
      | OpGet k \<Rightarrow> r = Bytes (string_of m k)
      | OpType k \<Rightarrow> r = Name (case m k of Some (Str _, _) \<Rightarrow> ''string'' | Some (Fields _, _) \<Rightarrow> ''hash'' | None \<Rightarrow> ''none'')
      | OpDelete keys \<Rightarrow> \<exists>n. r = Count n \<and> card {k \<in> set keys. m k \<noteq> None} \<le> n \<and> n \<le> card (set keys)
          \<and> (exact \<longrightarrow> n = card {k \<in> set keys. m k \<noteq> None})
      | OpExists keys \<Rightarrow> r = Count (length (filter (\<lambda>k. m k \<noteq> None) keys))
      | OpKeys \<Rightarrow> \<exists>keys. r = Keys keys \<and> distinct keys \<and> set keys = dom m
      | OpLen \<Rightarrow> \<exists>n. r = Count n \<and> card (dom m) \<le> n
      | OpClear \<Rightarrow> r = Unit
      | OpHset k fvs \<Rightarrow> r = FieldCount (case m k of
            Some (Str _, _) \<Rightarrow> Inl wrongtype
          | Some (Fields h, _) \<Rightarrow> Inr (card (fst ` set fvs - dom h))
          | None \<Rightarrow> Inr (card (fst ` set fvs)))
      | OpHget k f \<Rightarrow> r = Field (case m k of
            Some (Str _, _) \<Rightarrow> Inl wrongtype | Some (Fields h, _) \<Rightarrow> Inr (h f) | None \<Rightarrow> Inr None)
      | OpHgetall k \<Rightarrow> (case m k of
            Some (Str _, _) \<Rightarrow> r = AllFields (Inl wrongtype)
          | Some (Fields h, _) \<Rightarrow> \<exists>l. r = AllFields (Inr l) \<and> even (length l) \<and> distinct (map fst (pairs_of l)) \<and> map_of (pairs_of l) = h
          | None \<Rightarrow> r = AllFields (Inr []))
      | OpHdel k fs \<Rightarrow> r = FieldCount (case m k of
            Some (Str _, _) \<Rightarrow> Inl wrongtype | Some (Fields h, _) \<Rightarrow> Inr (card (set fs \<inter> dom h)) | None \<Rightarrow> Inr 0))"

definition op_effect :: "u64 \<Rightarrow> store_op \<Rightarrow> ks \<Rightarrow> ks" where
  "op_effect now op m =
     (case op of
        OpSet k v ttl \<Rightarrow> put_value now m k (Str v) (map_option (\<lambda>t. now + t) ttl)
      | OpDelete keys \<Rightarrow> m |` (- set keys)
      | OpClear \<Rightarrow> Map.empty
      | OpHset k fvs \<Rightarrow> (case m k of
            Some (Str _, _) \<Rightarrow> m
          | Some (Fields h, x) \<Rightarrow> m(k \<mapsto> (Fields (h ++ map_of (rev fvs)), x))
          | None \<Rightarrow> m(k \<mapsto> (Fields (map_of (rev fvs)), None)))
      | OpHdel k fs \<Rightarrow> (case m k of
            Some (Fields h, x) \<Rightarrow>
              m(k := if set fs \<inter> dom h \<noteq> {} \<and> dom h \<subseteq> set fs then None else Some (Fields (h |` (- set fs)), x))
          | _ \<Rightarrow> m)
      | _ \<Rightarrow> m)"

definition fade :: "u64 \<Rightarrow> ks \<Rightarrow> ks" where
  "fade now m k = Option.bind (m k) (\<lambda>(c, x). if past now x then None else Some (c, x))"

fun allowed_trace :: "bool \<Rightarrow> ks \<Rightarrow> (u64 \<times> store_op) list \<Rightarrow> store_result list \<Rightarrow> bool" where
  "allowed_trace exact m [] rs \<longleftrightarrow> rs = []"
| "allowed_trace exact m ((now, op) # ops) [] \<longleftrightarrow> False"
| "allowed_trace exact m ((now, op) # ops) (r # rs) \<longleftrightarrow>
     realizes exact op (fade now m) r \<and> allowed_trace exact (op_effect now op (fade now m)) ops rs"

fun run_ops :: "(u64 \<Rightarrow> store_op \<Rightarrow> 's \<Rightarrow> (store_result \<times> 's) option) \<Rightarrow> (u64 \<times> store_op) list \<Rightarrow> 's \<Rightarrow> (store_result list \<times> 's) option" where
  "run_ops step [] s = Some ([], s)"
| "run_ops step ((now, op) # ops) s =
     (case step now op s of
        None \<Rightarrow> None
      | Some (r, s) \<Rightarrow> map_option (apfst ((#) r)) (run_ops step ops s))"


text \<open>The contract of a store: it answers every operation, as the specification allows.\<close>

locale keyed_store =
  fixes step :: "u64 \<Rightarrow> store_op \<Rightarrow> 's \<Rightarrow> (store_result \<times> 's) option"
    and ok :: "'s \<Rightarrow> bool" and contents :: "'s \<Rightarrow> u64 \<Rightarrow> ks" and exact :: bool
  assumes step_allowed: "ok s \<Longrightarrow> \<exists>r s'. step now op s = Some (r, s') \<and> ok s'
      \<and> realizes exact op (contents s now) r \<and> contents s' now = op_effect now op (contents s now)"
    and contents_fade: "now \<le> now' \<Longrightarrow> contents s now' = fade now' (contents s now)"
begin

lemma run_allowed:
  "ok s \<Longrightarrow> sorted (map fst ops) \<Longrightarrow> \<forall>now \<in> fst ` set ops. t \<le> now \<Longrightarrow>
    \<exists>rs s'. run_ops step ops s = Some (rs, s') \<and> ok s' \<and> allowed_trace exact (contents s t) ops rs"
proof (induction ops arbitrary: s t)
  case (Cons p ops)
  obtain now op where p: "p = (now, op)" by (cases p)
  have fade: "contents s now = fade now (contents s t)" using contents_fade Cons.prems(3) p by simp
  obtain r s1 where step: "step now op s = Some (r, s1)" "ok s1" "realizes exact op (contents s now) r"
      "contents s1 now = op_effect now op (contents s now)"
    using step_allowed [OF Cons.prems(1), of now op] by blast
  obtain rs s2 where "run_ops step ops s1 = Some (rs, s2)" "ok s2" "allowed_trace exact (contents s1 now) ops rs"
    using Cons.IH [OF step(2), of now] Cons.prems(2) p by auto
  then show ?case using step fade by (simp add: p)
qed simp

end

section \<open>The server's store meets the contract\<close>

lemma keyspace_fade: "now \<le> now' \<Longrightarrow> keyspace E s now' = fade now' (keyspace E s now)"
  by (auto simp: keyspace_def fade_def visible_def past_def fun_eq_iff split: option.split bind_splits)

context store_env
begin

lemma keyspace_le_view: "store_ok E s \<Longrightarrow> card (dom (keyspace E s now)) \<le> card (dom (view E s))"
  by (rule card_mono) (auto simp: keyspace_def split: bind_splits)

lemma store_hdel_allowed:
  assumes ok: "store_ok E s"
  shows "\<exists>r s'. store_step E now (OpHdel k fs) s = Some (r, s') \<and> store_ok E s'
    \<and> realizes True (OpHdel k fs) (keyspace E s now) r
    \<and> keyspace E s' now = op_effect now (OpHdel k fs) (keyspace E s now)"
proof -
  let ?m = "keyspace E s now"
  have run: "store_step E now (OpHdel k fs) s = Some (FieldCount (fst (hdel E s k fs now)), snd (hdel E s k fs now))"
    by (simp add: store_step_def apfst_def map_prod_def case_prod_beta)
  show ?thesis
  proof (cases "\<exists>h x. ?m k = Some (Fields h, x)")
    case True
    then obtain h x where m: "?m k = Some (Fields h, x)" by blast
    show ?thesis
      by (intro exI conjI, rule run) (use hdel_effect [OF ok m, of fs] m in \<open>simp_all add: realizes_def op_effect_def\<close>)
  next
    case False
    then have "?m k = None \<or> (\<exists>b x. ?m k = Some (Str b, x))" by (metis content.exhaust not_None_eq surj_pair)
    then show ?thesis
      using hdel_other [OF ok, of now k fs] False run by (auto simp: realizes_def op_effect_def)
  qed
qed

lemma store_step_allowed:
  assumes ok: "store_ok E s"
  shows "\<exists>r s'. store_step E now op s = Some (r, s') \<and> store_ok E s'
    \<and> realizes True op (keyspace E s now) r \<and> keyspace E s' now = op_effect now op (keyspace E s now)"
proof (cases op)
  case (OpSet k v ttl)
  then show ?thesis
    using ok store_set_effect(1) [OF ok, of k v ttl now]
    by (auto simp: store_step_def realizes_def op_effect_def ok_intros put_value_def keyspace_def visible_def content_of_def fun_eq_iff)
next
  case (OpGet k)
  then show ?thesis
    using ok store_get_effect [OF ok, of k now]
    by (auto simp: store_step_def realizes_def op_effect_def ok_intros string_of_def apfst_def map_prod_def case_prod_beta)
next
  case (OpType k)
  then show ?thesis
    using key_type_effect [OF ok, of k now] by (auto simp: store_step_def realizes_def op_effect_def apfst_def map_prod_def case_prod_beta)
next
  case (OpDelete keys)
  then show ?thesis
    using store_delete_effect [OF ok, of keys now]
    by (auto simp: store_step_def realizes_def op_effect_def apfst_def map_prod_def case_prod_beta keyspace_def restrict_map_def fun_eq_iff
        intro!: card_mono)
next
  case OpExists
  then show ?thesis using ok by (simp add: store_step_def realizes_def op_effect_def store_exists_effect)
next
  case OpKeys
  then show ?thesis
    using ok set_store_keys [OF ok, of now] distinct_shard_keys [OF ok]
    by (simp add: store_step_def realizes_def op_effect_def store_keys_def)
next
  case OpLen
  then show ?thesis
    using ok keyspace_le_view [OF ok] by (simp add: store_step_def realizes_def op_effect_def store_len_card)
next
  case OpClear
  then show ?thesis
    using store_clear_effect [OF ok] by (simp add: store_step_def realizes_def op_effect_def keyspace_def fun_eq_iff)
next
  case (OpHset k fvs)
  then show ?thesis
    using hset_effect [OF ok, of k fvs now]
    by (cases "keyspace E s now k")
      (auto simp: store_step_def realizes_def op_effect_def dest: keyspace_cong split: content.splits)
next
  case (OpHget k f)
  then show ?thesis
    using hget_effect [OF ok, of k f now]
    by (auto simp: store_step_def realizes_def op_effect_def apfst_def map_prod_def case_prod_beta split: option.splits content.splits)
next
  case (OpHgetall k)
  then show ?thesis
    using hgetall_effect [OF ok, of k now]
    by (auto simp: store_step_def realizes_def op_effect_def apfst_def map_prod_def case_prod_beta split: option.splits content.splits)
next
  case OpHdel
  then show ?thesis using store_hdel_allowed [OF ok] by simp
qed

end

sublocale store_env \<subseteq> server_store: keyed_store "store_step E" "store_ok E" "keyspace E" True
  by unfold_locales (rule store_step_allowed, assumption, rule keyspace_fade)


section \<open>The library meets the contract\<close>

text \<open>The store of the library as a server store with empty queues.\<close>

definition embed :: "'m lib_store \<Rightarrow> 'm db" where
  "embed s = \<lparr>shards = lib_shards s, s3fifo_queues = replicate (lib_shard_count s) (s3fifo_new 1 1 1),
     store_num_shards = lib_shard_count s, memory_used = 0, evicted_keys = 0, clock = (\<lambda>_. 0), rng = (\<lambda>_. 0)\<rparr>"

lemma embed_simps [simp]:
  "hash E (embed s) = lib_hash E s" "shard_get E (embed s) = lib_lookup E s"
  "embed (lib_insert E s k e) = shard_insert E (embed s) k e"
  "embed (lib_modify E s k f) = shard_modify E (embed s) k f"
  "embed (snd (lib_remove_at E s i k)) = snd (shard_remove_at E (embed s) i k)"
  "embed (lib_clear E s) = store_clear E (embed s)"
  "store_num_shards (embed s) = lib_shard_count s"
proof -
  show h: "hash E (embed s) = lib_hash E s" by (simp add: hash_def lib_hash_def embed_def fun_eq_iff)
  show "shard_get E (embed s) = lib_lookup E s"
    by (simp add: shard_get_def h lib_lookup_def fun_eq_iff) (simp add: embed_def)
  show "embed (lib_insert E s k e) = shard_insert E (embed s) k e" "embed (lib_modify E s k f) = shard_modify E (embed s) k f"
    by (simp_all add: shard_insert_def shard_modify_def h lib_insert_def lib_modify_def Let_def) (simp_all add: embed_def)
qed (simp_all add: shard_remove_at_def lib_remove_at_def embed_def store_clear_def lib_clear_def)

lemma embed_drop [simp]: "embed (lib_drop E s k) = snd (shard_remove_at E (embed s) (hash E (embed s) k) k)"
  by (simp add: lib_drop_def)

lemma lib_exists_embed [simp]: "lib_exists E s keys now = store_exists E (embed s) keys now"
  by (induction keys) (auto split: option.split)

lemma lib_reads [simp]:
  "lib_keys E s now = store_keys E (embed s) now" "lib_len E s = store_len E (embed s)"
  "lib_is_empty E s = store_is_empty E (embed s)"
  by (simp_all add: lib_keys_def store_keys_def lib_len_def store_len_def lib_is_empty_def store_is_empty_def embed_def)

lemma dom_hm_get: "dom (hm_get h) = fst ` set h"
  by (simp add: hm_get_def [abs_def] dom_map_of_conv_image_fst)

lemma hm_get_empty: "hm_get [] = Map.empty"
  by (simp add: hm_get_def [abs_def])

lemma restrict_del: "m(k := None) |` (- set keys) = m |` (- set (k # keys))"
  by (auto simp: restrict_map_def fun_eq_iff)

context store_env
begin

lemma drop_expired:
  assumes "store_ok E (embed s)" and "lib_lookup E s k = Some e" and "expired now e"
  shows "store_ok E (embed (lib_drop E s k))" and "keyspace E (embed (lib_drop E s k)) now = keyspace E (embed s) now"
    and "lib_lookup E (lib_drop E s k) k = None"
proof -
  show "store_ok E (embed (lib_drop E s k))" using assms(1) hash_less [OF assms(1), of k] by (simp add: ok_remove_at)
  have "keyspace E (embed s) now k = None"
    using assms(2,3) by (simp add: keyspace_def view_def visible_def expired_past)
  then show "keyspace E (embed (lib_drop E s k)) now = keyspace E (embed s) now"
    using view_remove [OF assms(1), of k] by (auto simp: keyspace_def fun_eq_iff)
  show "lib_lookup E (lib_drop E s k) k = None"
    using shard_get_remove [OF assms(1), of k] by (simp flip: embed_simps(2))
qed

lemma lib_keyspace: "keyspace E (embed s) now k =
    (case lib_lookup E s k of Some e \<Rightarrow> if expired now e then None else Some (content_of (val e), expiry e) | None \<Rightarrow> None)"
  by (simp add: keyspace_def view_def visible_def expired_past split: option.split)

text \<open>Deletion: each group is the keys of its shard, in order.\<close>

lemma lib_group_length: "length (lib_group E s keys) = lib_shard_count s"
  by (induction keys rule: rev_induct) (simp_all add: lib_group_def Let_def)

lemma lib_group_nth: "i < lib_shard_count s \<Longrightarrow> lib_group E s keys ! i = filter (\<lambda>k. lib_hash E s k = i) keys"
proof (induction keys rule: rev_induct)
  case (snoc k keys)
  then show ?case
    using lib_group_length [of s keys] by (simp add: lib_group_def Let_def nth_list_update)
qed (simp add: lib_group_def)

lemma lib_delete_shard_effect:
  "store_ok E (embed s) \<Longrightarrow> \<forall>k \<in> set keys. lib_hash E s k = i \<Longrightarrow> lib_delete_shard E i keys (n, s) = (n', s') \<Longrightarrow>
    store_ok E (embed s') \<and> view E (embed s') = view E (embed s) |` (- set keys) \<and> lib_hash E s' = lib_hash E s
    \<and> n' = n + card (set keys \<inter> dom (view E (embed s)))"
proof (induction keys arbitrary: n s)
  case (Cons k keys)
  let ?s = "lib_drop E s k" and ?v = "view E (embed s)"
  have drop: "lib_remove_at E s i k = (lib_lookup E s k, ?s)"
    using Cons.prems(2) by (simp add: lib_drop_def lib_remove_at_def lib_lookup_def)
  have ok: "store_ok E (embed ?s)" using Cons.prems(1) hash_less [OF Cons.prems(1), of k] by (simp add: ok_remove_at)
  have h: "lib_hash E ?s = lib_hash E s" by (simp add: lib_drop_def lib_remove_at_def lib_hash_def fun_eq_iff)
  have v: "view E (embed ?s) = ?v(k := None)" using view_remove [OF Cons.prems(1), of k] by simp
  have "set (k # keys) \<inter> dom ?v = set keys \<inter> dom (?v(k := None)) \<union> (if lib_lookup E s k = None then {} else {k})"
    by (auto simp: view_def)
  then have card: "card (set (k # keys) \<inter> dom ?v) = card (set keys \<inter> dom (?v(k := None))) + (if lib_lookup E s k = None then 0 else 1)"
    by (simp del: dom_fun_upd) simp
  have run: "lib_delete_shard E i keys (if lib_lookup E s k = None then n else n + 1, ?s) = (n', s')"
    using Cons.prems(3) by (simp add: drop split: option.splits)
  have keys: "\<forall>k \<in> set keys. lib_hash E ?s k = i" using Cons.prems(2) by (simp add: h)
  have "store_ok E (embed s') \<and> view E (embed s') = ?v(k := None) |` (- set keys) \<and> lib_hash E s' = lib_hash E s
      \<and> n' = (if lib_lookup E s k = None then n else n + 1) + card (set keys \<inter> dom (?v(k := None)))"
    using Cons.IH [OF ok keys run] unfolding h v .
  then show ?case unfolding card restrict_del by simp
qed (simp add: restrict_map_def)

lemma lib_delete_groups:
  "store_ok E (embed s) \<Longrightarrow> \<forall>(i, g) \<in> set ps. \<forall>k \<in> set g. lib_hash E s k = i \<Longrightarrow> distinct (map fst ps) \<Longrightarrow>
    foldl (\<lambda>r (i, group). if group \<noteq> [] then lib_delete_shard E i group r else r) (n, s) ps = (n', s') \<Longrightarrow>
    store_ok E (embed s') \<and> view E (embed s') = view E (embed s) |` (- (\<Union>(i, g) \<in> set ps. set g))
    \<and> n' = n + card ((\<Union>(i, g) \<in> set ps. set g) \<inter> dom (view E (embed s)))"
proof (induction ps arbitrary: n s)
  case (Cons p ps)
  obtain i g where p: "p = (i, g)" by (cases p)
  obtain n1 s1 where run: "lib_delete_shard E i g (n, s) = (n1, s1)" by (cases "lib_delete_shard E i g (n, s)")
  have g: "\<forall>k \<in> set g. lib_hash E s k = i" using Cons.prems(2) p by simp
  note one = lib_delete_shard_effect [OF Cons.prems(1) g run]
  have rest: "foldl (\<lambda>r (i, group). if group \<noteq> [] then lib_delete_shard E i group r else r) (n1, s1) ps = (n', s')"
    using Cons.prems(4) run by (cases "g = []") (simp_all add: p)
  let ?U = "\<Union>(i, g) \<in> set ps. set g" and ?v = "view E (embed s)"
  have IH: "store_ok E (embed s') \<and> view E (embed s') = view E (embed s1) |` (- ?U) \<and> n' = n1 + card (?U \<inter> dom (view E (embed s1)))"
    using Cons.prems(2,3) one by (intro Cons.IH [OF _ _ _ rest]) auto
  have "?U \<inter> set g = {}" using Cons.prems(2,3) p by fastforce
  then have "?U \<inter> dom (?v |` (- set g)) = ?U \<inter> dom ?v" by auto
  moreover have "(set g \<union> ?U) \<inter> dom ?v = set g \<inter> dom ?v \<union> ?U \<inter> dom ?v" by auto
  moreover have "card (set g \<inter> dom ?v \<union> ?U \<inter> dom ?v) = card (set g \<inter> dom ?v) + card (?U \<inter> dom ?v)"
    using \<open>?U \<inter> set g = {}\<close> finite_dom_view [OF Cons.prems(1)] by (intro card_Un_disjoint) auto
  ultimately have "n' = n + card ((set g \<union> ?U) \<inter> dom ?v)" using IH one by simp
  moreover have "view E (embed s') = ?v |` (- (set g \<union> ?U))"
    using IH one by (simp add: Map.restrict_restrict Compl_Un)
  ultimately show ?case using IH by (simp add: p)
qed (simp add: restrict_map_def)

lemma lib_delete_effect:
  assumes ok: "store_ok E (embed s)"
  shows "store_ok E (embed (snd (lib_delete E s keys)))"
    and "view E (embed (snd (lib_delete E s keys))) = view E (embed s) |` (- set keys)"
    and "fst (lib_delete E s keys) = card (set keys \<inter> dom (view E (embed s)))"
proof -
  let ?ps = "enumerate 0 (lib_group E s keys)"
  have mem: "(i, g) \<in> set ?ps \<longleftrightarrow> i < lib_shard_count s \<and> g = filter (\<lambda>k. lib_hash E s k = i) keys" for i g
    using lib_group_nth [of i s keys] by (auto simp: in_set_enumerate_eq lib_group_length)
  have "(\<Union>(i, g) \<in> set ?ps. set g) = set keys"
  proof (rule set_eqI)
    fix k
    have "lib_hash E s k < lib_shard_count s" using hash_less [OF ok, of k] by simp
    then show "k \<in> (\<Union>(i, g) \<in> set ?ps. set g) \<longleftrightarrow> k \<in> set keys"
      using mem [of "lib_hash E s k"] by (auto simp: mem intro!: bexI [of _ "(lib_hash E s k, filter (\<lambda>k'. lib_hash E s k' = lib_hash E s k) keys)"])
  qed
  moreover have "\<forall>(i, g) \<in> set ?ps. \<forall>k \<in> set g. lib_hash E s k = i" by (auto simp: mem)
  ultimately show "store_ok E (embed (snd (lib_delete E s keys)))"
    "view E (embed (snd (lib_delete E s keys))) = view E (embed s) |` (- set keys)"
    "fst (lib_delete E s keys) = card (set keys \<inter> dom (view E (embed s)))"
    using lib_delete_groups [OF ok, of ?ps 0 "fst (lib_delete E s keys)" "snd (lib_delete E s keys)"]
    by (simp_all add: lib_delete_def)
qed

text \<open>Hashes.\<close>

lemma lib_write_fields:
  assumes ok: "store_ok E (embed s)" and e: "lib_lookup E s k = Some e" "val e = HashV h" "\<not> expired now e" and "hm_ok h'"
  defines "s' \<equiv> lib_modify E s k (val_update (\<lambda>_. HashV h'))"
  shows "store_ok E (embed s')"
    and "keyspace E (embed s') now = (keyspace E (embed s) now)(k \<mapsto> (Fields (hm_get h'), expiry e))"
proof -
  show "store_ok E (embed s')" using ok assms(5) by (simp add: s'_def ok_modify_entry entry_ok_def)
  show "keyspace E (embed s') now = (keyspace E (embed s) now)(k \<mapsto> (Fields (hm_get h'), expiry e))"
    using ok e by (auto simp: s'_def keyspace_def view_modify visible_def content_of_def expired_past fun_eq_iff)
qed

lemma lib_hset_fresh:
  assumes slot: "lib_hset_slot E s k now = lib_hset_slot E s0 k now" and ok: "store_ok E (embed s0)"
    and absent: "lib_lookup E s0 k = None" and same: "keyspace E (embed s0) now = keyspace E (embed s) now"
  shows "\<exists>s'. lib_hset E s k fvs now = Some (Inr (card (fst ` set fvs)), s') \<and> store_ok E (embed s')
    \<and> keyspace E (embed s') now = (keyspace E (embed s) now)(k \<mapsto> (Fields (map_of (rev fvs)), None))"
proof -
  let ?e = "\<lparr>val = HashV [], expiry = None, last_accessed = 0, queue_type = 0, access_count = 0\<rparr>"
  let ?s1 = "lib_insert E s0 k ?e" and ?h = "snd (set_fields fvs [])"
  have ok1: "store_ok E (embed ?s1)" using ok by (simp add: ok_insert_entry entry_ok_def)
  have get: "lib_lookup E ?s1 k = Some ?e" using shard_get_insert [OF ok, of k ?e] by (simp flip: embed_simps(2))
  have run: "lib_hset_slot E s k now = Some (Inr (), ?s1)"
    unfolding slot by (subst lib_hset_slot.simps) (simp add: absent)
  have upd: "(keyspace E (embed ?s1) now)(k \<mapsto> z) = (keyspace E (embed s) now)(k \<mapsto> z)" for z
    unfolding same [symmetric] using ok by (simp add: keyspace_def fun_eq_iff)
  have "hm_ok ?h" by (rule set_fields_ok) simp
  note out = lib_write_fields [OF ok1 get _ _ this, of "[]" now]
  have "lib_hset E s k fvs now = Some (Inr (card (fst ` set fvs)), lib_modify E ?s1 k (val_update (\<lambda>_. HashV ?h)))"
    using run get set_fields_count [of fvs "[]"] by (simp add: lib_hset_def fields_of_def case_prod_beta Let_def dom_hm_get)
  then show ?thesis using out upd by (simp add: expired_def set_fields_get hm_get_empty)
qed

lemma lib_hset_effect:
  assumes ok: "store_ok E (embed s)"
  shows "\<exists>r s'. lib_hset E s k fvs now = Some (r, s') \<and> store_ok E (embed s')
    \<and> (case keyspace E (embed s) now k of
         Some (Str _, _) \<Rightarrow> r = Inl wrongtype \<and> s' = s
       | Some (Fields m, x) \<Rightarrow> r = Inr (card (fst ` set fvs - dom m))
           \<and> keyspace E (embed s') now = (keyspace E (embed s) now)(k \<mapsto> (Fields (m ++ map_of (rev fvs)), x))
       | None \<Rightarrow> r = Inr (card (fst ` set fvs))
           \<and> keyspace E (embed s') now = (keyspace E (embed s) now)(k \<mapsto> (Fields (map_of (rev fvs)), None)))"
proof (cases "lib_lookup E s k")
  case None
  with lib_hset_fresh [OF refl ok None refl] show ?thesis by (simp add: lib_keyspace)
next
  case (Some e)
  consider (expired) "expired now e" | (hash) h where "\<not> expired now e" "val e = HashV h"
    | (string) b where "\<not> expired now e" "val e = StringV b" by (cases "val e") auto
  then show ?thesis
  proof cases
    case expired
    note drop = drop_expired [OF ok Some expired]
    have "lib_hset_slot E s k now = lib_hset_slot E (lib_drop E s k) k now"
      by (subst lib_hset_slot.simps) (simp add: Some expired)
    from lib_hset_fresh [OF this drop(1,3,2)] Some expired show ?thesis by (simp add: lib_keyspace)
  next
    case hash
    have "hm_ok h" using entry_ok_at [OF ok, of k e] Some hash(2) by (simp add: entry_ok_def)
    then have "hm_ok (snd (set_fields fvs h))" by (rule set_fields_ok)
    note out = lib_write_fields [OF ok Some hash(2,1) this]
    have "lib_hset_slot E s k now = Some (Inr (), s)" by (subst lib_hset_slot.simps) (simp add: Some hash)
    then have "lib_hset E s k fvs now = Some (Inr (card (fst ` set fvs - dom (hm_get h))), lib_modify E s k (val_update (\<lambda>_. HashV (snd (set_fields fvs h)))))"
      using set_fields_count [of fvs h] by (simp add: lib_hset_def Some hash fields_of_def case_prod_beta Let_def)
    then show ?thesis using out by (simp add: lib_keyspace Some hash content_of_def set_fields_get)
  next
    case string
    have "lib_hset_slot E s k now = Some (Inl wrongtype, s)" by (subst lib_hset_slot.simps) (simp add: Some string)
    with ok show ?thesis by (simp add: lib_hset_def Some string lib_keyspace content_of_def)
  qed
qed

lemma lib_hdel_effect:
  assumes ok: "store_ok E (embed s)"
  shows "store_ok E (embed (snd (lib_hdel E s k fs now)))
    \<and> realizes False (OpHdel k fs) (keyspace E (embed s) now) (FieldCount (fst (lib_hdel E s k fs now)))
    \<and> keyspace E (embed (snd (lib_hdel E s k fs now))) now = op_effect now (OpHdel k fs) (keyspace E (embed s) now)"
proof (cases "\<exists>e h. lib_lookup E s k = Some e \<and> \<not> expired now e \<and> val e = HashV h")
  case True
  then obtain e h where e: "lib_lookup E s k = Some e" "\<not> expired now e" "val e = HashV h" by blast
  let ?h = "snd (del_fields fs h)" and ?n = "fst (del_fields fs h)"
  let ?s = "lib_modify E s k (val_update (\<lambda>_. HashV ?h))" and ?m = "keyspace E (embed s) now"
  have "hm_ok h" using entry_ok_at [OF ok, of k e] e by (simp add: entry_ok_def)
  then have "hm_ok ?h" by (rule del_fields_ok)
  note s = lib_write_fields [OF ok e(1,3,2) this]
  have drop: "store_ok E (embed (lib_drop E ?s k))" "keyspace E (embed (lib_drop E ?s k)) now = ?m(k := None)"
    using ok_remove_at [OF s(1) hash_less [OF s(1), of k], of k] view_remove [OF s(1), of k] s(2)
    by (auto simp: keyspace_def fun_eq_iff)
  have m: "?m k = Some (Fields (hm_get h), expiry e)" using e by (simp add: lib_keyspace content_of_def)
  have run: "lib_hdel E s k fs now = (Inr ?n, if ?n > 0 \<and> ?h = [] then lib_drop E ?s k else ?s)"
    by (simp add: lib_hdel_def e case_prod_beta Let_def)
  have "?n > 0 \<longleftrightarrow> set fs \<inter> dom (hm_get h) \<noteq> {}" by (simp add: del_fields_count card_gt_0_iff)
  moreover have "?h = [] \<longleftrightarrow> dom (hm_get h) \<subseteq> set fs"
  proof -
    have "?h = [] \<longleftrightarrow> dom (hm_get ?h) = {}" by (simp add: dom_hm_get)
    then show ?thesis unfolding del_fields_get by auto
  qed
  ultimately show ?thesis
    using s drop unfolding run by (auto simp: realizes_def op_effect_def m del_fields_count del_fields_get)
next
  case False
  then consider "lib_lookup E s k = None" | e where "lib_lookup E s k = Some e" "expired now e"
    | e b where "lib_lookup E s k = Some e" "\<not> expired now e" "val e = StringV b"
    by (metis entry_value.exhaust not_None_eq)
  then show ?thesis
    by cases (use ok drop_expired [OF ok, of k _ now] in \<open>auto simp: lib_hdel_def realizes_def op_effect_def lib_keyspace content_of_def\<close>)
qed

lemma lib_step_allowed:
  assumes ok: "store_ok E (embed s)"
  shows "\<exists>r s'. lib_step E now op s = Some (r, s') \<and> store_ok E (embed s')
    \<and> realizes False op (keyspace E (embed s) now) r \<and> keyspace E (embed s') now = op_effect now op (keyspace E (embed s) now)"
proof (cases op)
  case (OpSet k v ttl)
  then show ?thesis
    using ok by (auto simp: lib_step_def lib_set_def realizes_def op_effect_def put_value_def keyspace_def visible_def
        content_of_def fun_eq_iff entry_ok_def Let_def intro!: ok_insert_entry)
next
  case (OpGet k)
  then show ?thesis
    using ok drop_expired [OF ok, of k _ now]
    by (auto simp: lib_step_def lib_get_def realizes_def op_effect_def string_of_def lib_keyspace content_of_def split: option.split entry_value.split)
next
  case (OpType k)
  then show ?thesis
    using ok drop_expired [OF ok, of k _ now]
    by (auto simp: lib_step_def lib_key_type_def realizes_def op_effect_def lib_keyspace content_of_def split: option.split entry_value.split)
next
  case (OpDelete keys)
  note del = lib_delete_effect [OF ok, of keys]
  have "card {k \<in> set keys. keyspace E (embed s) now k \<noteq> None} \<le> card (set keys \<inter> dom (view E (embed s)))"
    by (rule card_mono) (auto simp: keyspace_def split: bind_splits)
  moreover have "card (set keys \<inter> dom (view E (embed s))) \<le> card (set keys)" by (rule card_mono) auto
  moreover have "keyspace E (embed (snd (lib_delete E s keys))) now = keyspace E (embed s) now |` (- set keys)"
    by (simp add: keyspace_def del(2) restrict_map_def fun_eq_iff)
  ultimately show ?thesis
    using del by (simp add: OpDelete lib_step_def realizes_def op_effect_def apfst_def map_prod_def case_prod_beta)
next
  case (OpHset k fvs)
  show ?thesis
    using lib_hset_effect [OF ok, of k fvs now]
    by (cases "keyspace E (embed s) now k") (auto simp: OpHset lib_step_def realizes_def op_effect_def split: content.splits)
next
  case (OpHget k f)
  then show ?thesis
    using ok drop_expired [OF ok, of k _ now]
    by (auto simp: lib_step_def lib_hget_def realizes_def op_effect_def lib_keyspace content_of_def split: option.split entry_value.split)
next
  case (OpHgetall k)
  have even: "even (length (concat (map (\<lambda>(f, x). [f, x]) h)))" for h :: "(bytes, bytes) hash_map" by (induction h) auto
  have fields: "distinct (map fst h)" if "lib_lookup E s k = Some e" "val e = HashV h" for e h
    using entry_ok_at [OF ok, of k e] that by (simp add: entry_ok_def hm_ok_def)
  show ?thesis
    using ok drop_expired [OF ok, of k _ now] even fields
    by (auto simp: OpHgetall lib_step_def lib_hgetall_def realizes_def op_effect_def lib_keyspace content_of_def pairs_of_concat hm_get_def
        split: option.split entry_value.split)
next
  case (OpHdel k fs)
  then show ?thesis
    using lib_hdel_effect [OF ok, of k fs now] by (simp add: lib_step_def apfst_def map_prod_def case_prod_beta)
qed (use ok store_step_allowed [OF ok, of now op] in \<open>auto simp: lib_step_def store_step_def realizes_def op_effect_def\<close>)

end

sublocale store_env \<subseteq> library: keyed_store "lib_step E" "\<lambda>s. store_ok E (embed s)" "\<lambda>s. keyspace E (embed s)" False
  by unfold_locales (rule lib_step_allowed, assumption, rule keyspace_fade)


context store_env
begin

lemmas lib_run_allowed = library.run_allowed
lemmas store_run_allowed = server_store.run_allowed

end

lemma lib_new_effect:
  assumes env: "store_env E" and pos: "0 < n"
  shows "store_ok E (embed (lib_new E n))" and "keyspace E (embed (lib_new E n)) now = Map.empty"
proof -
  note laws = dashmap.ok_new [OF store_env.axioms [OF env]] dashmap.get_new [OF store_env.axioms [OF env]]
  show "store_ok E (embed (lib_new E n))"
    using pos by (auto simp: store_ok_def shard_ok_def embed_def lib_new_def laws queues_ok_def queue_ok_def s3fifo_new_def)
  show "keyspace E (embed (lib_new E n)) now = Map.empty"
    using pos by (simp add: keyspace_def view_def fun_eq_iff lib_lookup_def lib_hash_def lib_new_def laws)
qed

text \<open>The helpers agree with the server's, the defaults do not: bind address and shard count differ.\<close>

lemma lib_helpers_agree:
  "lib_entry_size = entry_size" "lib_format_bytes = format_bytes" "lib_eq_ignore_case_3 = eq_ignore_case_3"
  "lib_eq_ignore_case_6 = eq_ignore_case_6" "lib_policy_as_str (lib_policy_from_str s) = policy_as_str (policy_from_str s)"
  by (simp_all add: fun_eq_iff lib_entry_size_def entry_size_def lib_format_bytes_def format_bytes_def
      lib_eq_ignore_case_3_def eq_ignore_case_3_def lib_eq_ignore_case_6_def eq_ignore_case_6_def
      lib_policy_as_str_def lib_policy_from_str_def policy_as_str_def policy_from_str_def Let_def)

lemma lib_defaults_differ:
  "lib_bind (lib_server lib_default_config) \<noteq> bind (server default_config)"
  "lib_num_shards (lib_server lib_default_config) \<noteq> num_shards (server default_config)"
  "lib_max_connections (lib_server lib_default_config) = max_connections (server default_config)"
  "lib_eviction_policy (lib_memory lib_default_config) = eviction_policy (memory default_config)"
  by (simp_all add: lib_default_config_def lib_default_server_def lib_default_memory_def default_config_def default_server_def
      default_memory_def)

section \<open>Properties\<close>

text \<open>C15: The library crate and the server's store answer alike. Take any sequence of
  operations (set, get, type, delete, exists, keys, length, clear and the hash
  operations, with any arguments, errors included) at times that do not decrease, on a
  new library store and on a new server store with any shard counts, hash functions and
  map implementations: both runs end, and both give at every step an answer that one
  specification over the keyspace allows, so what the unit tests see of the library
  holds of the server. The specification fixes every answer but three: the order of
  keys and fields, the length, which may count expired entries, and the library's
  deletion count, which may include expired entries where the server's must not.\<close>

theorem library_matches_server:
  fixes E :: "'m env" and E' :: "'n env"
  assumes "dashmap (dash E)" and "dashmap (dash E')" and "0 < n" and "0 < n'" and "sorted (map fst ops)"
  shows "(\<exists>rs s. run_ops (lib_step E) ops (lib_new E n) = Some (rs, s) \<and> allowed_trace False Map.empty ops rs)
    \<and> (\<exists>rs s. run_ops (store_step E') ops (store_new E' n' clk rnd) = Some (rs, s) \<and> allowed_trace True Map.empty ops rs)"
proof
  have env: "store_env E" "store_env E'" using assms(1,2) by (simp_all add: store_env_def)
  let ?lib = "lib_new E n" and ?db = "store_new E' n' clk rnd"
  have lib: "store_ok E (embed ?lib)" "keyspace E (embed ?lib) 0 = Map.empty"
    using lib_new_effect [OF env(1) assms(3)] by blast+
  have db: "store_ok E' ?db" "keyspace E' ?db 0 = Map.empty"
    using store_env.store_new_effect [OF env(2) assms(4), of clk rnd] by (simp_all add: keyspace_def fun_eq_iff)
  show "\<exists>rs s. run_ops (lib_step E) ops ?lib = Some (rs, s) \<and> allowed_trace False Map.empty ops rs"
    using store_env.lib_run_allowed [OF env(1) lib(1) assms(5), of 0] lib(2) by auto
  show "\<exists>rs s. run_ops (store_step E') ops ?db = Some (rs, s) \<and> allowed_trace True Map.empty ops rs"
    using store_env.store_run_allowed [OF env(2) db(1) assms(5), of 0] db(2) by auto
qed

text \<open>The key expired at 15. At 20 the library still counts it as deleted, the server does not.\<close>

theorem library_matches_server_witness:
  "let ops = [(10 :: u64, OpSet [107] [118] (Some 5)), (20, OpDelete [[107]])] in
   (\<exists>rs s. run_ops (lib_step small_env) ops (lib_new small_env 2) = Some (rs, s) \<and> allowed_trace False Map.empty ops rs)
   \<and> (\<exists>s. run_ops (store_step small_env) ops (store_new small_env 3 (\<lambda>_. 100) (\<lambda>_. 1)) = Some ([Unit, Count 0], s))
   \<and> (\<exists>s. run_ops (lib_step small_env) ops (lib_new small_env 2) = Some ([Unit, Count 1], s))"
proof -
  let ?ops = "[(10 :: u64, OpSet [107] [118] (Some 5)), (20, OpDelete [[107]])]"
  have sorted: "sorted (map fst ?ops)" and pos: "0 < (2 :: nat)" "0 < (3 :: nat)" by simp_all
  note both = library_matches_server [OF small_env_dashmap small_env_dashmap pos sorted, of "\<lambda>_. 100" "\<lambda>_. 1"]
  have shape: "rs = [Unit, Count 0]" if "allowed_trace True Map.empty ?ops rs" for rs
    using that by (cases rs; cases "tl rs")
      (auto simp: realizes_def op_effect_def fade_def put_value_def past_def card_eq_0_iff split: if_splits)
  have env: "store_env small_env" using small_env_dashmap by (simp add: store_env_def)
  let ?s = "lib_set small_env (lib_new small_env 2) [107] [118] (Some 5) 10"
  have ok: "store_ok small_env (embed ?s)" and v: "view small_env (embed ?s) [107] \<noteq> None"
    using lib_new_effect(1) [OF env pos(1)] store_env.ok_insert_entry [OF env] store_env.view_insert [OF env]
    by (simp_all add: lib_set_def entry_ok_def)
  have "fst (lib_delete small_env ?s [[107]]) = 1"
  proof -
    have "{[107]} \<inter> dom (view small_env (embed ?s)) = {[107]}" using v by auto
    then show ?thesis using store_env.lib_delete_effect(3) [OF env ok, of "[[107]]"] by simp
  qed
  then have "\<exists>s. run_ops (lib_step small_env) ?ops (lib_new small_env 2) = Some ([Unit, Count 1], s)"
    by (auto simp: lib_step_def apfst_def map_prod_def case_prod_beta)
  then show ?thesis using both shape by auto
qed

end
