(* ===== verification/Spec2Isabelle.thy ===== *)
theory Spec2Isabelle
  imports Protocol Glob Config Store_Hash Eviction Store_Scan Redis_Spec Aof Snapshot Recovery Replies Connection Server Library
begin

text \<open>
  Redistill: a verification development for the Redis-compatible key-value server in
  \<^verbatim>\<open>src/\<close>. It models the program from the bytes of a connection to the files on disk and
  proves what clients and operators rely on, and where the code falls short of it.

  \<^bold>\<open>The program.\<close> A client connection (\<^verbatim>\<open>handle_connection\<close>, \<^verbatim>\<open>main.rs\<close>) reads RESP requests
  (\<^verbatim>\<open>RespParser\<close>, \<^verbatim>\<open>protocol.rs\<close>) and passes each to \<^verbatim>\<open>execute_command\<close> (\<^verbatim>\<open>main.rs\<close>), which checks
  the login, dispatches on the name and length of the command to a handler, and appends
  write commands to the append-only file (\<^verbatim>\<open>aof.rs\<close>). Handlers work on the sharded store
  (\<^verbatim>\<open>store.rs\<close>), a vector of \<^verbatim>\<open>DashMap\<close>s with an S3-FIFO queue per shard, a memory counter and
  three eviction policies. Replies go into a \<^verbatim>\<open>RespWriter\<close> that is flushed in batches. Around
  this, \<^verbatim>\<open>main\<close> loads the configuration (\<^verbatim>\<open>config.rs\<close>), the snapshot (\<^verbatim>\<open>persistence.rs\<close>) and the
  log, accepts connections under two limits (\<^verbatim>\<open>server.rs\<close>), runs timers for expiry, snapshots,
  log syncs and log rewrites, and drains the connections at shutdown. The library crate
  (\<^verbatim>\<open>lib.rs\<close>) holds a second copy of the store that the tests exercise. All paths are
  relative to \<^verbatim>\<open>src/src/\<close>.

  \<^bold>\<open>Conventions.\<close> \<^verbatim>\<open>u64\<close>, \<^verbatim>\<open>u32\<close>, \<^verbatim>\<open>u16\<close> and \<^verbatim>\<open>u8\<close> are words and wrap as in the release build; \<^verbatim>\<open>i64\<close> is an
  integer with explicit range tests, as the source only combines it by checked
  operations; \<^verbatim>\<open>usize\<close> lengths are naturals. Errors are the left side of a sum, early
  returns are branches. Clock readings, random draws and the outcomes of file
  operations are streams in the state or arguments, so every theorem holds for all of
  them, failures included. Code outside the repository is a parameter: \<^verbatim>\<open>DashMap\<close> is the
  record \<open>dashmap_ops\<close> with the laws of the locale \<open>dashmap\<close>, \<^verbatim>\<open>AHasher\<close> a function of the
  environment, \<^verbatim>\<open>bincode\<close> the record \<open>codec\<close>, \<^verbatim>\<open>rustls\<close> and its PEM reader the record \<open>tls_ops\<close>,
  the decoded TOML file an argument of \<open>load\<close>. Witnesses instantiate them.

  \<^bold>\<open>Theories.\<close>

  \<^item> \<open>Prelude\<close>: machine types, byte strings, checked, saturating and decimal operations of
    the standard library, and shared list and word lemmas.

  \<^item> \<open>Protocol\<close> (\<^verbatim>\<open>protocol.rs\<close>): \<open>try_parse\<close>, \<open>parse_command\<close>, the writer, \<open>parse_u64\<close>, \<open>parse_i64\<close>
    and the case folding. Written arrays parse back exactly; on a proper prefix the
    parser waits and consumes nothing; the read loop returns the command its reads
    deliver, and spins for ever when the peer closes inside a frame.

  \<^item> \<open>Glob\<close> (\<^verbatim>\<open>matches_pattern\<close>, \<^verbatim>\<open>store.rs\<close>): the backtracking matcher always returns and agrees
    with a recursive definition of glob patterns.

  \<^item> \<open>Config\<close> (\<^verbatim>\<open>config.rs\<close>): structures, defaults, environment overrides, size suffixes,
    validation. A configuration that loads is usable by the rest of the program.

  \<^item> \<open>Dash_Map\<close>: the locale \<open>dashmap\<close> and its interpretation by association lists;
    \<^verbatim>\<open>HashMap\<close> for the fields of hashes.

  \<^item> \<open>S3Fifo\<close> (\<^verbatim>\<open>S3FifoQueues\<close>, \<^verbatim>\<open>store.rs\<close>): small, main and ghost queue. The locale
    \<open>indexed_queue\<close> states the contract of a bounded queue with a membership set and is
    interpreted for the small and the main queue.

  \<^item> \<open>Store\<close>, \<open>Store_Hash\<close>, \<open>Store_Scan\<close> (\<^verbatim>\<open>ShardedStore\<close>, \<^verbatim>\<open>store.rs\<close>): string, hash and cursor
    operations over a state with shards, queues, counters, clock and random numbers. The
    invariant \<open>store_ok\<close> places every key in the shard of its hash and keeps queues and
    entries sound; \<open>view\<close> and \<open>keyspace\<close> are the abstractions to partial maps; \<open>drift\<close> is the
    difference of \<^verbatim>\<open>MEMORY_USED\<close> and the bytes really held. Each operation preserves the
    invariant, refines an update of the keyspace, and its effect on the drift is exact.
    The locale \<open>store_env\<close> extends \<open>dashmap\<close> and carries these proofs.

  \<^item> \<open>Eviction\<close> (\<^verbatim>\<open>evict_*\<close>, \<^verbatim>\<open>expire_random_keys\<close>, \<^verbatim>\<open>store.rs\<close>): eviction answers yes exactly when
    the data fits, removes at most 100 entries per call and only entries of the store;
    the expiry pass removes expired keys only.

  \<^item> \<open>Handlers\<close>, \<open>Redis_Spec\<close> (\<^verbatim>\<open>handle_*\<close>, \<^verbatim>\<open>main.rs\<close>): the handlers and an abstract
    specification of the data commands on keyspaces; each handler implements its command
    up to keys that eviction takes away when a memory limit is set.

  \<^item> \<open>Aof\<close> (\<^verbatim>\<open>aof.rs\<close>): appends under the three fsync policies, rewrite, reader. After a crash the
    file replays to a prefix of the acknowledged commands that has all those the policy
    promises; a rewrite leaves the old log or a complete dump.

  \<^item> \<open>Snapshot\<close> (\<^verbatim>\<open>persistence.rs\<close>): save and load. A failed save leaves the old file; a load
    of a saved file restores the keyspace, outside of the S3-FIFO queues.

  \<^item> \<open>Commands\<close>, \<open>Command_Safety\<close>, \<open>Replies\<close> (\<^verbatim>\<open>execute_command\<close>, \<^verbatim>\<open>main.rs\<close>): the dispatcher over the
    state of the process, a record \<open>server\<close>. It refines the specification, always answers
    with one reply, keeps the invariant, logs every change but the two flushes, isolates
    clients without login, and its replies do not depend on the buffer they go into. The
    locale \<open>server_env\<close> extends \<open>store_env\<close> to the process.

  \<^item> \<open>Recovery\<close> (\<^verbatim>\<open>main\<close>, loading the data): replay ends with a state or a refusal; the whole log
    is applied over the snapshot; a rewritten log restores the keyspace it was made from.

  \<^item> \<open>Connection\<close> (\<^verbatim>\<open>handle_connection\<close>): whatever the client, the timer and the shutdown do, a
    connection leaves a good store and right counters, and has sent a prefix of
    well-formed replies; a pipeline is answered with exactly the replies of its commands
    run one after the other.

  \<^item> \<open>Server\<close> (\<^verbatim>\<open>main\<close>, \<^verbatim>\<open>server.rs\<close>): startup, rate and connection limits, background ticks, the
    buffer pool, the drain, the final sync and snapshot. The relation \<open>running\<close> interleaves
    commands, ticks and jobs, and the invariant holds in all its states; \<open>accepting\<close> and
    \<open>saving\<close> interleave the accept loop with starting connections and the threads that
    contend for the save flag.

  \<^item> \<open>Library\<close> (\<^verbatim>\<open>lib.rs\<close>): the second store. The locale \<open>keyed_store\<close> states what a keyed store
    promises for any sequence of operations; it is proved for both stores.

  \<^bold>\<open>Loops and fuel.\<close> No loop is cut off by a bound that the code does not have. Loops over
  data are total functions with a termination proof. The loops that wait for input or
  for another thread (\<open>parse_command\<close>, \<open>connection_loop\<close>, \<open>hset_slot\<close>, \<open>lib_hset_slot\<close>, \<open>match_loop\<close>, \<open>drain\<close>) are
  partial functions into \<open>option\<close>, where \<open>None\<close> is a run that does not end, and it is proved
  when they return; for the two slot loops and \<open>match_loop\<close> always. The bounds that occur are
  those of the source: 100 evictions per call, the limits of RESP frames, the clamp of
  the count of \<^verbatim>\<open>SCAN\<close>, cursors in units of \<open>10 ^ 9\<close>.

  \<^bold>\<open>Not modelled.\<close> A command is one step: the interleaving of two commands inside the store,
  poisoned locks and appends that race with a rewrite are not represented. Threads are
  interleaved at the level of commands, ticks and jobs, and step by step only for the
  save flag and the connection counter. Polling of \<^verbatim>\<open>MaybeStream\<close> and the TLS session forward to
  tokio and rustls; the model starts from the bytes a read delivers. The health endpoint
  is represented by the report it sends, not by its HTTP exchange. Signal handlers, the
  banner, log and statistics output and the choice of the allocator are pure I/O or
  build settings. The \<^verbatim>\<open>f64\<close> ratios of the configuration, which no code reads, are carried
  as bit patterns; the queue capacities are the one place with floating-point
  arithmetic, and \<open>f64_mul_ceil\<close> rounds their products as IEEE 754 does. Test modules are not part of the program.
\<close>

end
